(* ===== verification/DSM_Prelude.thy ===== *)
theory DSM_Prelude
  imports Main "HOL-Library.Word"
begin

section \<open>Shared vocabulary\<close>

text \<open>
  The machine integers of the C sources as words, the outcome of running a piece of C
  (a value, or one of three ways of not returning one), array accesses with their bounds,
  byte buffers with \<open>memcpy\<close>, and the little-endian layout of packed structs.

  Pages are byte lists of length \<open>PAGE_SIZE\<close>. A pointer into a buffer is the offset
  from its start.
\<close>

type_synonym u8 = "8 word"
type_synonym u16 = "16 word"
type_synonym u32 = "32 word"
type_synonym u64 = "64 word"
type_synonym bytes = "8 word list"

named_theorems outcome_simps \<open>evaluation and inversion of outcome-valued code\<close>
named_theorems mem_simps \<open>reading and writing byte buffers\<close>

definition PAGE_SIZE :: nat where
  "PAGE_SIZE = 4096"

subsection \<open>Outcomes\<close>

text \<open>
  \<open>Ret\<close> is a normal return; \<open>Blocked\<close> a system call that waits for ever; \<open>Diverges\<close> a
  loop that never exits; \<open>Undef\<close> undefined behaviour of C: an access outside an array or
  a division by zero. Error codes and \<open>NULL\<close> are ordinary values under \<open>Ret\<close>.
\<close>

datatype 'a outcome = Ret 'a | Blocked | Diverges | Undef

primrec bind_oc :: "'a outcome \<Rightarrow> ('a \<Rightarrow> 'b outcome) \<Rightarrow> 'b outcome" where
  "bind_oc (Ret a) f = f a"
| "bind_oc Blocked f = Blocked"
| "bind_oc Diverges f = Diverges"
| "bind_oc Undef f = Undef"

primrec returns :: "'a outcome \<Rightarrow> bool" where
  "returns (Ret a) = True"
| "returns Blocked = False"
| "returns Diverges = False"
| "returns Undef = False"

text \<open>\<open>safe m\<close>: no undefined behaviour and no endless loop; waiting is allowed.\<close>

primrec safe :: "'a outcome \<Rightarrow> bool" where
  "safe (Ret a) = True"
| "safe Blocked = True"
| "safe Diverges = False"
| "safe Undef = False"

definition ensures :: "'a outcome \<Rightarrow> ('a \<Rightarrow> bool) \<Rightarrow> bool" where
  "ensures m P \<longleftrightarrow> safe m \<and> (\<forall>a. m = Ret a \<longrightarrow> P a)"

subsection \<open>Arrays\<close>

definition idx :: "'a list \<Rightarrow> nat \<Rightarrow> 'a outcome" where
  "idx xs i = (if i < length xs then Ret (xs ! i) else Undef)"

definition upd :: "'a list \<Rightarrow> nat \<Rightarrow> 'a \<Rightarrow> 'a list outcome" where
  "upd xs i v = (if i < length xs then Ret (xs[i := v]) else Undef)"

subsection \<open>Byte buffers\<close>

definition mem_read :: "'a list \<Rightarrow> nat \<Rightarrow> nat \<Rightarrow> 'a list" where
  "mem_read m off n = take n (drop off m)"

definition mem_write :: "'a list \<Rightarrow> nat \<Rightarrow> 'a list \<Rightarrow> 'a list" where
  "mem_write m off bs = take off m @ bs @ drop (off + length bs) m"

subsection \<open>Little-endian layout\<close>

primrec le_enc :: "nat \<Rightarrow> nat \<Rightarrow> bytes" where
  "le_enc 0 x = []"
| "le_enc (Suc n) x = of_nat (x mod 256) # le_enc n (x div 256)"

primrec le_dec :: "bytes \<Rightarrow> nat" where
  "le_dec [] = 0"
| "le_dec (b # bs) = unat b + 256 * le_dec bs"

subsection \<open>Lemmas on outcomes\<close>

lemma bind_oc_eq_Ret [outcome_simps]:
  "bind_oc m f = Ret b \<longleftrightarrow> (\<exists>a. m = Ret a \<and> f a = Ret b)"
  by (cases m) auto

lemma bind_oc_assoc: "bind_oc (bind_oc m f) g = bind_oc m (\<lambda>a. bind_oc (f a) g)"
  by (cases m) auto

lemma safe_bind_oc: "safe (bind_oc m f) \<longleftrightarrow> safe m \<and> (\<forall>a. m = Ret a \<longrightarrow> safe (f a))"
  by (cases m) auto

lemma ensures_Ret [simp]: "ensures (Ret a) P \<longleftrightarrow> P a"
  by (simp add: ensures_def)

lemma ensures_stuck [simp]:
  "ensures Blocked P" "\<not> ensures Diverges P" "\<not> ensures Undef P"
  by (simp_all add: ensures_def)

lemma ensures_bind: "ensures m (\<lambda>a. ensures (f a) P) \<Longrightarrow> ensures (bind_oc m f) P"
  by (cases m) auto

lemma ensures_bindI:
  assumes "ensures m Q" and "\<And>a. m = Ret a \<Longrightarrow> Q a \<Longrightarrow> ensures (f a) P"
  shows "ensures (bind_oc m f) P"
  using assms by (cases m) auto

lemma ensures_mono: "ensures m P \<Longrightarrow> (\<And>a. m = Ret a \<Longrightarrow> P a \<Longrightarrow> Q a) \<Longrightarrow> ensures m Q"
  by (cases m) auto

lemma ensuresD: "ensures m P \<Longrightarrow> m = Ret a \<Longrightarrow> P a"
  by (simp add: ensures_def)

lemma ensures_safe: "ensures m P \<Longrightarrow> safe m"
  by (simp add: ensures_def)

lemma ensures_Ret_ex: "ensures m P \<Longrightarrow> m \<noteq> Blocked \<Longrightarrow> \<exists>a. m = Ret a \<and> P a"
  by (cases m) auto

lemma bind_oc_not_Blocked:
  "m \<noteq> Blocked \<Longrightarrow> (\<And>a. m = Ret a \<Longrightarrow> f a \<noteq> Blocked) \<Longrightarrow> bind_oc m f \<noteq> Blocked"
  by (cases m) auto

lemma idx_not_Blocked [simp]: "idx xs i \<noteq> Blocked"
  by (simp add: idx_def)

lemma ensures_conj: "ensures m P \<Longrightarrow> ensures m Q \<Longrightarrow> ensures m (\<lambda>a. P a \<and> Q a)"
  by (simp add: ensures_def)

lemma returns_iff: "returns m \<longleftrightarrow> (\<exists>a. m = Ret a)"
  by (cases m) auto

lemma idx_in [simp]: "i < length xs \<Longrightarrow> idx xs i = Ret (xs ! i)"
  by (simp add: idx_def)

lemma upd_in [simp]: "i < length xs \<Longrightarrow> upd xs i v = Ret (xs[i := v])"
  by (simp add: upd_def)

lemma idx_eq_Ret [outcome_simps]: "idx xs i = Ret v \<longleftrightarrow> i < length xs \<and> xs ! i = v"
  by (auto simp: idx_def)

lemma upd_eq_Ret [outcome_simps]: "upd xs i v = Ret ys \<longleftrightarrow> i < length xs \<and> ys = xs[i := v]"
  by (auto simp: upd_def)

subsection \<open>Lemmas on byte buffers\<close>

lemma PAGE_SIZE_pos [simp]: "0 < PAGE_SIZE" "PAGE_SIZE \<noteq> 0"
  by (simp_all add: PAGE_SIZE_def)

lemma length_mem_read [mem_simps]: "off + n \<le> length m \<Longrightarrow> length (mem_read m off n) = n"
  by (simp add: mem_read_def)

lemma length_mem_write [mem_simps]:
  "off + length bs \<le> length m \<Longrightarrow> length (mem_write m off bs) = length m"
  by (simp add: mem_write_def)

lemma mem_write_nth:
  assumes "off + length bs \<le> length m" and "i < length m"
  shows "mem_write m off bs ! i = (if off \<le> i \<and> i < off + length bs then bs ! (i - off) else m ! i)"
  using assms by (auto simp: mem_write_def nth_append)

lemma mem_read_write_same [mem_simps]:
  "off + length bs \<le> length m \<Longrightarrow> mem_read (mem_write m off bs) off (length bs) = bs"
  by (simp add: mem_read_def mem_write_def)

lemma slot_bound: "i < k \<Longrightarrow> i * n + n \<le> k * (n :: nat)"
  using mult_le_mono1 [of "Suc i" k n] by simp

lemma slots_disjoint: "i \<noteq> j \<Longrightarrow> i * n + n \<le> j * (n :: nat) \<or> j * n + n \<le> i * n"
  using slot_bound [of i j n] slot_bound [of j i n] by linarith

lemma mem_read_write_within:
  assumes "off + length bs \<le> n" and "base + n \<le> length m"
  shows "mem_read (mem_write m (base + off) bs) base n = mem_write (mem_read m base n) off bs"
proof (cases "bs = []")
  case True
  with assms append_take_drop_id [of off "take n (drop base m)"] show ?thesis
    by (simp add: mem_read_def mem_write_def min_absorb1)
next
  case False
  with assms(1) have "off < n" by (cases bs) auto
  with assms show ?thesis
    by (auto simp: mem_read_def mem_write_def take_drop min_def ac_simps)
qed

lemma mem_read_write_other:
  assumes "off + length bs \<le> length m" and "off' + n \<le> length m"
    and "off' + n \<le> off \<or> off + length bs \<le> off'"
  shows "mem_read (mem_write m off bs) off' n = mem_read m off' n"
proof (rule nth_equalityI)
  show "length (mem_read (mem_write m off bs) off' n) = length (mem_read m off' n)"
    using assms by (simp add: length_mem_read length_mem_write)
  fix i assume "i < length (mem_read (mem_write m off bs) off' n)"
  then show "mem_read (mem_write m off bs) off' n ! i = mem_read m off' n ! i"
    using assms by (auto simp: mem_read_def length_mem_write mem_write_nth)
qed

lemma mem_write_Nil [simp]: "mem_write m off [] = m"
  by (simp add: mem_write_def)

subsection \<open>Lemmas on the little-endian layout\<close>

lemma unat_u8_less: "unat (b :: u8) < 256"
  using unsigned_less [of b] by simp

lemma unat_u32_less: "unat (x :: u32) < 4294967296"
  using unsigned_less [of x] by simp

lemma unat_eq_iff [simp]: "unat (x :: 'a::len word) = unat y \<longleftrightarrow> x = y"
  by (simp add: word_unat_eq_iff)

lemma unat_of_nat_u32: "i < 4294967296 \<Longrightarrow> unat (of_nat i :: u32) = i"
  by (simp add: unat_of_nat take_bit_nat_eq_self)

lemma unat_ucast_u64: "unat (ucast (x :: u32) :: u64) = unat x"
  using unat_u32_less [of x] by (simp add: unsigned_ucast_eq take_bit_nat_eq_self)

lemma word_of_int_range:
  fixes w :: "'a::len word"
  assumes "w = word_of_int n" and "0 \<le> n" and "n < 2 ^ LENGTH('a)"
  shows "uint w = n"
  using assms by (simp add: uint_word_of_int)

lemma unat_of_nat_u8: "i < 256 \<Longrightarrow> unat (of_nat i :: u8) = i"
  by (simp add: unat_of_nat take_bit_nat_eq_self)

lemma card_words_below: "card {x :: 'a::len word. x < n} \<le> unat n"
proof -
  have "card {x :: 'a word. x < n} \<le> card {..<unat n}"
    by (rule card_inj_on_le [of unat]) (auto simp: inj_on_def word_less_nat_alt)
  then show ?thesis by simp
qed

lemma length_distinct_below:
  "distinct xs \<Longrightarrow> (\<forall>x \<in> set xs. x < (n :: 'a::len word)) \<Longrightarrow> length xs \<le> unat n"
proof -
  assume "distinct xs" and "\<forall>x \<in> set xs. x < n"
  then have "length xs \<le> card {x. x < n}"
    by (subst distinct_card [symmetric]) (auto intro: card_mono)
  then show ?thesis
    using card_words_below [of n] by simp
qed

lemma nth_update_word:
  "unat q < length xs \<Longrightarrow> xs[unat (p :: 'a::len word) := x] ! unat q = (if q = p then x else xs ! unat q)"
  by (cases "q = p") auto

lemma length_le_enc [simp]: "length (le_enc n x) = n"
  by (induction n arbitrary: x) auto

lemma le_dec_enc: "x < 256 ^ n \<Longrightarrow> le_dec (le_enc n x) = x"
proof (induction n arbitrary: x)
  case 0
  then show ?case by simp
next
  case (Suc n)
  then have "x div 256 < 256 ^ n"
    by (simp add: less_mult_imp_div_less mult.commute)
  then have "le_dec (le_enc n (x div 256)) = x div 256"
    by (rule Suc.IH)
  then show ?case
    by (simp add: unat_of_nat take_bit_eq_mod)
qed

lemma le_dec_bound: "le_dec bs < 256 ^ length bs"
proof (induction bs)
  case Nil
  then show ?case by simp
next
  case (Cons b bs)
  have "unat b < 256"
    by (rule unat_u8_less)
  with Cons show ?case by simp
qed

lemma le_enc_dec: "le_enc (length bs) (le_dec bs) = bs"
proof (induction bs)
  case Nil
  then show ?case by simp
next
  case (Cons b bs)
  have "unat b < 256"
    by (rule unat_u8_less)
  with Cons show ?case by simp
qed

lemma le_dec_enc_word:
  fixes w :: "'a::len word"
  assumes "LENGTH('a) = 8 * n"
  shows "of_nat (le_dec (le_enc n (unat w))) = w"
proof -
  have "unat w < 2 ^ (8 * n)"
    using unsigned_less [of w] assms by simp
  then have "unat w < 256 ^ n"
    by (simp add: power_mult)
  then show ?thesis
    by (simp add: le_dec_enc)
qed

end
