(* ===== verification/DSM_Common.thy ===== *)
theory DSM_Common
  imports DSM_Prelude
begin

section \<open>Stream transport and page RPCs (dsm\_common.c, dsm\_protocol.h)\<close>

text \<open>
  One end of a TCP connection is a \<open>net\<close>: the bytes sent and not yet taken by the other
  end (\<open>tx\<close>), the bytes that have arrived and are not yet received (\<open>rx\<close>), the state of
  the other end (\<open>far\<close>), and the kernel. The other end is a function
  \<open>peer :: 's \<Rightarrow> bytes \<Rightarrow> 's \<times> bytes\<close> from its state and the bytes it reads to its new state
  and the bytes it writes; it is a parameter of every definition that waits for a reply,
  and the server model of \<open>DSM_Server\<close> is one instance.

  The kernel is not part of the repository. \<open>kern w i\<close> lists its answers to the system
  calls that the \<open>i\<close>-th transfer routine makes: \<open>Xfer k\<close> moves up to \<open>k\<close> bytes (\<open>0\<close> is what
  \<open>send\<close>, \<open>writev\<close> and \<open>recv\<close> return when nothing can move, end of file for \<open>recv\<close>), \<open>Intr\<close> is
  \<open>EINTR\<close>, \<open>Fail\<close> any other error. After the last answer the call waits for ever. A negative
  descriptor answers \<open>EBADF\<close>.
\<close>

subsection \<open>Definitions\<close>

datatype io_ans = Xfer nat | Intr | Fail

record 's net =
  tx :: bytes
  rx :: bytes
  far :: 's
  kern :: "nat \<Rightarrow> io_ans list"
  calls :: nat

type_synonym 's peer = "'s \<Rightarrow> bytes \<Rightarrow> 's \<times> bytes"

definition answers :: "int \<Rightarrow> 's net \<Rightarrow> io_ans list" where
  "answers fd w = (if fd < 0 then [Fail] else kern w (calls w))"

definition called :: "'s net \<Rightarrow> 's net" where
  "called w = w\<lparr>calls := Suc (calls w)\<rparr>"

definition deliver :: "'s peer \<Rightarrow> 's net \<Rightarrow> 's net" where
  "deliver peer w =
     w\<lparr>far := fst (peer (far w) (tx w)), tx := [], rx := rx w @ snd (peer (far w) (tx w))\<rparr>"

definition dsm_now_ms :: "u64 \<Rightarrow> u64 \<Rightarrow> u64" where
  "dsm_now_ms tv_sec tv_nsec = tv_sec * 1000 + tv_nsec div 1000000"

paragraph \<open>Headers\<close>

definition OP_GET_PAGE :: u8 where "OP_GET_PAGE = 1"

definition OP_PUT_PAGE :: u8 where "OP_PUT_PAGE = 2"

definition OP_ACK :: u8 where "OP_ACK = 3"

record dsm_rpc_header =
  h_op :: u8
  h_pad :: bytes
  h_page_id :: u32

definition HDR_SIZE :: nat where
  "HDR_SIZE = 8"

definition dsm_rpc_make_header :: "u8 \<Rightarrow> u32 \<Rightarrow> dsm_rpc_header" where
  "dsm_rpc_make_header opc pid = \<lparr>h_op = opc, h_pad = [0, 0, 0], h_page_id = pid\<rparr>"

definition header_bytes :: "dsm_rpc_header \<Rightarrow> bytes" where
  "header_bytes h = h_op h # h_pad h @ le_enc 4 (unat (h_page_id h))"

definition header_of_bytes :: "bytes \<Rightarrow> dsm_rpc_header" where
  "header_of_bytes bs =
     \<lparr>h_op = bs ! 0, h_pad = take 3 (drop 1 bs), h_page_id = of_nat (le_dec (take 4 (drop 4 bs)))\<rparr>"

paragraph \<open>The transfer loops\<close>

primrec send_loop :: "io_ans list \<Rightarrow> bytes \<Rightarrow> 's net \<Rightarrow> (int \<times> 's net) outcome" where
  "send_loop [] buf w = (if buf = [] then Ret (0, w) else Blocked)"
| "send_loop (a # ans) buf w =
     (if buf = [] then Ret (0, w)
      else case a of
        Intr \<Rightarrow> send_loop ans buf w
      | Fail \<Rightarrow> Ret (-1, w)
      | Xfer k \<Rightarrow>
          (if k = 0 then Ret (-1, w)
           else send_loop ans (drop k buf) (w\<lparr>tx := tx w @ take k buf\<rparr>)))"

definition dsm_send_full :: "int \<Rightarrow> bytes \<Rightarrow> int \<Rightarrow> 's net \<Rightarrow> (int \<times> 's net) outcome" where
  "dsm_send_full fd buf flags w = send_loop (answers fd w) buf (called w)"

primrec recv_loop ::
  "'s peer \<Rightarrow> io_ans list \<Rightarrow> nat \<Rightarrow> bytes \<Rightarrow> 's net \<Rightarrow> (int \<times> bytes \<times> 's net) outcome" where
  "recv_loop peer [] n got w = (if n = 0 then Ret (0, got, w) else Blocked)"
| "recv_loop peer (a # ans) n got w =
     (if n = 0 then Ret (0, got, w)
      else case a of
        Intr \<Rightarrow> recv_loop peer ans n got w
      | Fail \<Rightarrow> Ret (-1, got, w)
      | Xfer k \<Rightarrow>
          (let w' = deliver peer w; received = min k (min n (length (rx w')))
           in if k = 0 then Ret (-1, got, w')
              else if rx w' = [] then Blocked
              else recv_loop peer ans (n - received) (got @ take received (rx w'))
                     (w'\<lparr>rx := drop received (rx w')\<rparr>)))"

definition dsm_recv_full :: "'s peer \<Rightarrow> int \<Rightarrow> nat \<Rightarrow> 's net \<Rightarrow> (int \<times> bytes \<times> 's net) outcome" where
  "dsm_recv_full peer fd len w = recv_loop peer (answers fd w) len [] (called w)"

fun advance :: "nat \<Rightarrow> bytes list \<Rightarrow> bytes list" where
  "advance written [] = []"
| "advance written (v # vs) =
     (if written = 0 then v # vs
      else if length v \<le> written then advance (written - length v) vs
      else drop written v # vs)"

primrec sendv_loop :: "io_ans list \<Rightarrow> bytes list \<Rightarrow> 's net \<Rightarrow> (int \<times> 's net) outcome" where
  "sendv_loop [] vs w = (if vs = [] then Ret (0, w) else Blocked)"
| "sendv_loop (a # ans) vs w =
     (if vs = [] then Ret (0, w)
      else case a of
        Intr \<Rightarrow> sendv_loop ans vs w
      | Fail \<Rightarrow> Ret (-1, w)
      | Xfer k \<Rightarrow>
          (let written = min k (length (concat vs))
           in if written = 0 then Ret (-1, w)
              else sendv_loop ans (advance written vs) (w\<lparr>tx := tx w @ take written (concat vs)\<rparr>)))"

definition dsm_sendv :: "int \<Rightarrow> bytes list \<Rightarrow> 's net \<Rightarrow> (int \<times> 's net) outcome" where
  "dsm_sendv fd iov w = sendv_loop (answers fd w) iov (called w)"

paragraph \<open>Socket options\<close>

text \<open>
  \<open>ok\<close> says which options the kernel accepts; the state is the options set so far. Only
  \<open>TCP_NODELAY\<close> is required.
\<close>

datatype sock_opt = TCP_NODELAY | SO_SNDBUF | SO_RCVBUF | SO_KEEPALIVE | TCP_QUICKACK | SO_BUSY_POLL | SO_INCOMING_CPU

definition BUSY_POLL_US :: int where "BUSY_POLL_US = 50"

definition setsockopt :: "(sock_opt \<Rightarrow> bool) \<Rightarrow> sock_opt \<Rightarrow> int \<Rightarrow> (sock_opt \<rightharpoonup> int) \<Rightarrow> int \<times> (sock_opt \<rightharpoonup> int)" where
  "setsockopt ok opt v s = (if ok opt then (0, s(opt \<mapsto> v)) else (-1, s))"

definition dsm_setup_socket_optimal :: "(sock_opt \<Rightarrow> bool) \<Rightarrow> (sock_opt \<rightharpoonup> int) \<Rightarrow> int \<times> (sock_opt \<rightharpoonup> int)" where
  "dsm_setup_socket_optimal ok s =
     (let flag = 1; bufsize = 1024 * 1024; (rc, s) = setsockopt ok TCP_NODELAY flag s in
      if rc < 0 then (-1, s)
      else let s = snd (setsockopt ok SO_SNDBUF bufsize s);
               s = snd (setsockopt ok SO_RCVBUF bufsize s);
               s = snd (setsockopt ok SO_KEEPALIVE flag s);
               s = snd (setsockopt ok TCP_QUICKACK flag s);
               s = snd (setsockopt ok SO_BUSY_POLL BUSY_POLL_US s);
               s = snd (setsockopt ok SO_INCOMING_CPU flag s)
           in (0, s))"

paragraph \<open>The RPCs\<close>

text \<open>
  A receive buffer is returned as the bytes that were stored at its start: all of it when
  the result is \<open>0\<close>, a prefix when the transfer broke off.
\<close>

definition dsm_rpc_get :: "'s peer \<Rightarrow> int \<Rightarrow> u32 \<Rightarrow> 's net \<Rightarrow> (int \<times> bytes \<times> 's net) outcome" where
  "dsm_rpc_get peer fd pid w =
     bind_oc (dsm_send_full fd (header_bytes (dsm_rpc_make_header OP_GET_PAGE pid)) 0 w)
       (\<lambda>(rc, w). if rc < 0 then Ret (-1, [], w)
        else bind_oc (dsm_recv_full peer fd PAGE_SIZE w)
          (\<lambda>(rc, buf, w). if rc < 0 then Ret (-1, buf, w) else Ret (0, buf, w)))"

definition MSG_MORE :: int where
  "MSG_MORE = 0x8000"

fun batch_send :: "int \<Rightarrow> u32 list \<Rightarrow> 's net \<Rightarrow> (int \<times> 's net) outcome" where
  "batch_send fd [] w = Ret (0, w)"
| "batch_send fd (pid # ids) w =
     bind_oc (dsm_send_full fd (header_bytes (dsm_rpc_make_header OP_GET_PAGE pid))
                (if ids \<noteq> [] then MSG_MORE else 0) w)
       (\<lambda>(rc, w). if rc < 0 then Ret (-1, w) else batch_send fd ids w)"

fun batch_recv :: "'s peer \<Rightarrow> int \<Rightarrow> nat \<Rightarrow> bytes \<Rightarrow> 's net \<Rightarrow> (int \<times> bytes \<times> 's net) outcome" where
  "batch_recv peer fd 0 bufs w = Ret (0, bufs, w)"
| "batch_recv peer fd (Suc n) bufs w =
     bind_oc (dsm_recv_full peer fd PAGE_SIZE w)
       (\<lambda>(rc, buf, w). if rc < 0 then Ret (-1, bufs @ buf, w)
        else batch_recv peer fd n (bufs @ buf) w)"

definition dsm_rpc_get_batch ::
  "'s peer \<Rightarrow> int \<Rightarrow> u32 list \<Rightarrow> 's net \<Rightarrow> (int \<times> bytes \<times> 's net) outcome" where
  "dsm_rpc_get_batch peer fd ids w =
     (if length ids \<le> 0 then Ret (0, [], w)
      else bind_oc (batch_send fd ids w)
        (\<lambda>(rc, w). if rc < 0 then Ret (-1, [], w) else batch_recv peer fd (length ids) [] w))"

definition dsm_rpc_put :: "'s peer \<Rightarrow> int \<Rightarrow> u32 \<Rightarrow> bytes \<Rightarrow> 's net \<Rightarrow> (int \<times> 's net) outcome" where
  "dsm_rpc_put peer fd pid buf w =
     bind_oc (dsm_sendv fd [header_bytes (dsm_rpc_make_header OP_PUT_PAGE pid), buf] w)
       (\<lambda>(rc, w). if rc < 0 then Ret (-1, w)
        else bind_oc (dsm_recv_full peer fd HDR_SIZE w)
          (\<lambda>(rc, ack, w). if rc < 0 then Ret (-1, w)
           else if h_op (header_of_bytes ack) \<noteq> OP_ACK then Ret (-1, w) else Ret (0, w)))"

paragraph \<open>Kernels that keep moving bytes\<close>

definition good_ans :: "nat \<Rightarrow> io_ans list \<Rightarrow> bool" where
  "good_ans n ans \<longleftrightarrow> Fail \<notin> set ans \<and> Xfer 0 \<notin> set ans \<and> n \<le> length (filter (\<lambda>a. a \<noteq> Intr) ans)"

definition reliable :: "(nat \<Rightarrow> io_ans list) \<Rightarrow> bool" where
  "reliable k \<longleftrightarrow> (\<forall>i. good_ans (HDR_SIZE + PAGE_SIZE) (k i))"

paragraph \<open>Peers that say nothing unless spoken to\<close>

definition quiet :: "'s peer \<Rightarrow> bool" where
  "quiet peer \<longleftrightarrow> (\<forall>s. peer s [] = (s, []))"

paragraph \<open>Requests and replies as bytes, and a connection with nothing in flight\<close>

definition get_req :: "u32 \<Rightarrow> bytes" where
  "get_req pid = header_bytes (dsm_rpc_make_header OP_GET_PAGE pid)"

definition put_req :: "u32 \<Rightarrow> bytes \<Rightarrow> bytes" where
  "put_req pid pg = header_bytes (dsm_rpc_make_header OP_PUT_PAGE pid) @ pg"

definition ack :: "u32 \<Rightarrow> bytes" where
  "ack pid = header_bytes (dsm_rpc_make_header OP_ACK pid)"

definition synced :: "('s \<Rightarrow> bool) \<Rightarrow> 's net \<Rightarrow> bool" where
  "synced ready w \<longleftrightarrow> tx w = [] \<and> rx w = [] \<and> ready (far w)"

text \<open>A page server stores whole pages; \<open>pages S\<close> are the ones it has.\<close>

definition pages :: "(u32 \<Rightarrow> bytes) \<Rightarrow> u32 set" where
  "pages S = {p. length (S p) = PAGE_SIZE}"

subsection \<open>Socket options\<close>

text \<open>The call fails exactly if \<open>TCP_NODELAY\<close> is refused, and then nothing has been set; otherwise every
  option the kernel accepts has been.\<close>

lemma setup_socket_spec:
  "fst (dsm_setup_socket_optimal ok s) = (if ok TCP_NODELAY then 0 else -1)"
  "\<not> ok TCP_NODELAY \<Longrightarrow> snd (dsm_setup_socket_optimal ok s) = s"
  "ok TCP_NODELAY \<Longrightarrow> ok opt \<Longrightarrow> snd (dsm_setup_socket_optimal ok s) opt \<noteq> None"
  by (cases opt; simp add: dsm_setup_socket_optimal_def setsockopt_def Let_def)+

subsection \<open>Headers\<close>

lemma length_header_bytes [simp]:
  "length (header_bytes (dsm_rpc_make_header opc pid)) = HDR_SIZE"
  by (simp add: header_bytes_def dsm_rpc_make_header_def HDR_SIZE_def)

lemma header_bytes_ne [simp]: "header_bytes h \<noteq> []" "[] \<noteq> header_bytes h"
  by (simp_all add: header_bytes_def)

lemma header_of_bytes_inverse:
  assumes "length (h_pad h) = 3"
  shows "header_of_bytes (header_bytes h @ rest) = h"
proof -
  have "word_of_nat (le_dec (le_enc 4 (unat (h_page_id h)))) = h_page_id h"
    by (rule le_dec_enc_word) simp
  with assms show ?thesis
    by (simp add: header_of_bytes_def header_bytes_def)
qed

lemma header_of_make_header [simp]:
  "header_of_bytes (header_bytes (dsm_rpc_make_header opc pid) @ rest) = dsm_rpc_make_header opc pid"
  "header_of_bytes (header_bytes (dsm_rpc_make_header opc pid)) = dsm_rpc_make_header opc pid"
  using header_of_bytes_inverse [of "dsm_rpc_make_header opc pid"]
    header_of_bytes_inverse [of "dsm_rpc_make_header opc pid" "[]"]
  by (simp_all add: dsm_rpc_make_header_def)

lemma make_header_sel [simp]:
  "h_op (dsm_rpc_make_header opc pid) = opc" "h_page_id (dsm_rpc_make_header opc pid) = pid"
  by (simp_all add: dsm_rpc_make_header_def)

lemma op_codes_distinct [simp]:
  "OP_GET_PAGE \<noteq> OP_PUT_PAGE" "OP_PUT_PAGE \<noteq> OP_GET_PAGE"
  by (simp_all add: OP_GET_PAGE_def OP_PUT_PAGE_def)

subsection \<open>Sending\<close>

lemma called_sel [simp]:
  "tx (called w) = tx w" "rx (called w) = rx w" "far (called w) = far w" "kern (called w) = kern w"
  by (simp_all add: called_def)

lemma deliver_sel [simp]: "tx (deliver peer w) = []" "kern (deliver peer w) = kern w"
  by (simp_all add: deliver_def)

lemma net_update_id [simp]: "w\<lparr>rx := rx w\<rparr> = w" "w\<lparr>tx := tx w\<rparr> = w"
  by (cases w; simp)+

lemma send_loop_Nil [simp]: "send_loop ans [] w = Ret (0, w)"
  by (cases ans) auto

lemma send_loop_safe: "safe (send_loop ans buf w)"
  by (induction ans arbitrary: buf w) (auto split: io_ans.split)

lemma send_loop_Ret:
  "send_loop ans buf w = Ret (rc, w') \<Longrightarrow>
     \<exists>n \<le> length buf. w' = w\<lparr>tx := tx w @ take n buf\<rparr> \<and> (rc = 0 \<and> n = length buf \<or> rc = -1)"
proof (induction ans arbitrary: buf w)
  case Nil
  then show ?case by (auto split: if_splits)
next
  case (Cons a ans)
  have "w' = w \<and> (rc = 0 \<and> buf = [] \<or> rc = -1) \<or> send_loop ans buf w = Ret (rc, w') \<or>
    (\<exists>k. send_loop ans (drop k buf) (w\<lparr>tx := tx w @ take k buf\<rparr>) = Ret (rc, w'))"
    using Cons.prems by (cases a) (auto split: if_splits)
  then consider (stop) "w' = w" "rc = 0 \<and> buf = [] \<or> rc = -1"
    | (intr) "send_loop ans buf w = Ret (rc, w')"
    | (xfer) k where "send_loop ans (drop k buf) (w\<lparr>tx := tx w @ take k buf\<rparr>) = Ret (rc, w')"
    by blast
  then show ?case
  proof cases
    case stop
    then show ?thesis by (intro exI [of _ 0]) auto
  next
    case intr
    then show ?thesis by (rule Cons.IH)
  next
    case xfer
    from Cons.IH [OF xfer] obtain n where n: "n \<le> length (drop k buf)"
      "w' = w\<lparr>tx := tx w @ take k buf @ take n (drop k buf)\<rparr>"
      "rc = 0 \<and> n = length (drop k buf) \<or> rc = -1"
      by auto
    let ?n = "min (length buf) (k + n)"
    have "take k buf @ take n (drop k buf) = take ?n buf"
      by (metis take_add take_all_iff min.cobounded1 min.commute take_take take_all order_refl)
    moreover have "rc = 0 \<and> ?n = length buf \<or> rc = -1"
      using n(1,3) by auto
    ultimately show ?thesis
      using n(2) by (intro exI [of _ ?n]) simp
  qed
qed

lemma send_loop_good:
  "good_ans (length buf) ans \<Longrightarrow> send_loop ans buf w = Ret (0, w\<lparr>tx := tx w @ buf\<rparr>)"
proof (induction ans arbitrary: buf w)
  case Nil
  then show ?case by (simp add: good_ans_def)
next
  case (Cons a ans)
  have "good_ans (length (drop k buf)) ans" if "a = Xfer k" for k
    using Cons.prems that by (auto simp: good_ans_def)
  moreover have "good_ans (length buf) ans" if "a = Intr"
    using Cons.prems that by (auto simp: good_ans_def)
  moreover have "a \<noteq> Fail" "a \<noteq> Xfer 0"
    using Cons.prems by (auto simp: good_ans_def)
  ultimately show ?case
    using Cons.IH by (auto split: io_ans.split)
qed

lemma dsm_send_full_0:
  "dsm_send_full fd buf fl w = Ret (rc, w') \<Longrightarrow> \<not> rc < 0 \<Longrightarrow>
     w' = (called w)\<lparr>tx := tx w @ buf\<rparr> \<and> rc = 0"
  by (auto simp: dsm_send_full_def dest!: send_loop_Ret)

lemma advance_concat:
  "written \<le> length (concat vs) \<Longrightarrow> concat (advance written vs) = drop written (concat vs)"
  by (induction written vs rule: advance.induct) auto

lemma advance_nonempty: "[] \<notin> set vs \<Longrightarrow> [] \<notin> set (advance written vs)"
  by (induction written vs rule: advance.induct) auto

lemma sendv_loop_eq:
  "[] \<notin> set vs \<Longrightarrow> sendv_loop ans vs w = send_loop ans (concat vs) w"
proof (induction ans arbitrary: vs w)
  case Nil
  then show ?case by (cases vs) auto
next
  case (Cons a ans)
  have ne: "concat vs = [] \<longleftrightarrow> vs = []"
    using Cons.prems by (cases vs) auto
  show ?case
  proof (cases "vs = []")
    case True
    then show ?thesis by simp
  next
    case False
    show ?thesis
    proof (cases a)
      case (Xfer k)
      let ?m = "min k (length (concat vs))"
      have m: "take ?m (concat vs) = take k (concat vs)" "drop ?m (concat vs) = drop k (concat vs)"
        by (simp_all add: min_def)
      have "?m = 0 \<longleftrightarrow> k = 0"
        using False ne by (simp add: min_def)
      moreover have "concat (advance ?m vs) = drop k (concat vs)"
        using advance_concat [of ?m vs] m by simp
      ultimately show ?thesis
        using Xfer False ne Cons.IH [OF advance_nonempty [OF Cons.prems, of ?m]]
        by (simp only: m sendv_loop.simps send_loop.simps io_ans.case Let_def simp_thms if_False)
    qed (use False ne Cons.IH [OF Cons.prems] in \<open>simp_all only: sendv_loop.simps send_loop.simps io_ans.case if_False\<close>)
  qed
qed

lemma dsm_sendv_eq:
  "[] \<notin> set vs \<Longrightarrow> dsm_sendv fd vs w = dsm_send_full fd (concat vs) fl w"
  by (simp add: dsm_sendv_def dsm_send_full_def sendv_loop_eq)

subsection \<open>Receiving\<close>

lemma recv_loop_0 [simp]: "recv_loop peer ans 0 got w = Ret (0, got, w)"
  by (cases ans) auto

lemma recv_loop_step:
  "0 < n \<Longrightarrow> recv_loop peer (Intr # ans) n got w = recv_loop peer ans n got w"
  "0 < n \<Longrightarrow> recv_loop peer (Fail # ans) n got w = Ret (-1, got, w)"
  "0 < n \<Longrightarrow> recv_loop peer (Xfer 0 # ans) n got w = Ret (-1, got, deliver peer w)"
  "0 < n \<Longrightarrow> 0 < k \<Longrightarrow> rx (deliver peer w) = [] \<Longrightarrow> recv_loop peer (Xfer k # ans) n got w = Blocked"
  "0 < n \<Longrightarrow> 0 < k \<Longrightarrow> rx (deliver peer w) = r \<Longrightarrow> r \<noteq> [] \<Longrightarrow> m = min k (min n (length r)) \<Longrightarrow>
     recv_loop peer (Xfer k # ans) n got w =
     recv_loop peer ans (n - m) (got @ take m r) ((deliver peer w)\<lparr>rx := drop m r\<rparr>)"
  by (simp_all add: Let_def)

lemma recv_loop_safe: "safe (recv_loop peer ans n got w)"
proof (induction ans arbitrary: n got w)
  case Nil
  then show ?case by simp
next
  case (Cons a ans)
  show ?case
  proof (cases "n = 0")
    case False
    then show ?thesis
      using Cons.IH by (cases a) (simp_all add: Let_def)
  qed simp
qed

text \<open>
  One step of the loop, for a call that did return: a stop with an error, or the same
  loop on fewer answers, possibly after taking \<open>m\<close> bytes.
\<close>

lemma recv_loop_Cons_Ret:
  assumes "recv_loop peer (a # ans) n got w = Ret (rc, d, w')" and "0 < n"
  obtains (stop) "rc = -1" "d = got" "w' = w \<or> w' = deliver peer w"
    | (intr) "recv_loop peer ans n got w = Ret (rc, d, w')"
    | (xfer) m where "m \<le> n" "m \<le> length (rx (deliver peer w))"
        "recv_loop peer ans (n - m) (got @ take m (rx (deliver peer w)))
           ((deliver peer w)\<lparr>rx := drop m (rx (deliver peer w))\<rparr>) = Ret (rc, d, w')"
proof (cases a)
  case (Xfer k)
  let ?r = "rx (deliver peer w)"
  have "k = 0 \<or> ?r \<noteq> []"
    using assms Xfer by (cases "k = 0"; cases "?r = []") (simp_all add: recv_loop_step(4))
  then show ?thesis
  proof (cases "k = 0")
    case True
    with assms Xfer show ?thesis by (intro stop) (simp_all add: recv_loop_step(3))
  next
    case False
    let ?m = "min k (min n (length ?r))"
    have "recv_loop peer ans (n - ?m) (got @ take ?m ?r) ((deliver peer w)\<lparr>rx := drop ?m ?r\<rparr>) = Ret (rc, d, w')"
      using assms Xfer False \<open>k = 0 \<or> ?r \<noteq> []\<close> recv_loop_step(5) [of n k peer w ?r ?m ans got]
      by simp
    then show ?thesis by (rule xfer [rotated 2]) simp_all
  qed
next
  case Intr
  with assms show ?thesis by (intro intr) (simp add: recv_loop_step(1))
next
  case Fail
  with assms show ?thesis by (intro stop) (simp_all add: recv_loop_step(2))
qed

lemma recv_loop_Ret:
  "recv_loop peer ans n got w = Ret (rc, d, w') \<Longrightarrow>
     kern w' = kern w \<and> length d \<le> length got + n \<and>
     (rc = 0 \<and> length d = length got + n \<or> rc = -1)"
proof (induction ans arbitrary: n got w)
  case Nil
  then show ?case by (cases "n = 0") auto
next
  case (Cons a ans)
  show ?case
  proof (cases "n = 0")
    case True
    with Cons.prems show ?thesis by simp
  next
    case False
    then have "0 < n" by simp
    from Cons.prems this show ?thesis
    proof (cases rule: recv_loop_Cons_Ret)
      case stop
      then show ?thesis by auto
    next
      case intr
      then show ?thesis by (rule Cons.IH)
    next
      case (xfer m)
      then show ?thesis using Cons.IH [OF xfer(3)] by simp
    qed
  qed
qed

lemma deliver_idle: "quiet peer \<Longrightarrow> tx w = [] \<Longrightarrow> deliver peer w = w"
  by (simp add: deliver_def quiet_def)

lemma deliver_deliver: "quiet peer \<Longrightarrow> deliver peer (deliver peer w) = deliver peer w"
  by (rule deliver_idle) simp_all

lemma recv_loop_idle_Ret:
  assumes "quiet peer"
  shows "tx w = [] \<Longrightarrow> recv_loop peer ans n got w = Ret (0, d, w') \<Longrightarrow>
    n \<le> length (rx w) \<and> d = got @ take n (rx w) \<and> w' = w\<lparr>rx := drop n (rx w)\<rparr>"
proof (induction ans arbitrary: n got w)
  case Nil
  then show ?case by (cases "n = 0") auto
next
  case (Cons a ans)
  have idle: "deliver peer w = w"
    using assms Cons.prems(1) by (rule deliver_idle)
  show ?case
  proof (cases "n = 0")
    case True
    with Cons.prems show ?thesis by simp
  next
    case False
    then have "0 < n" by simp
    from Cons.prems(2) this show ?thesis
    proof (cases rule: recv_loop_Cons_Ret)
      case intr
      with Cons.prems(1) show ?thesis by (rule Cons.IH)
    next
      case (xfer m)
      have "n - m \<le> length (drop m (rx w)) \<and> d = (got @ take m (rx w)) @ take (n - m) (drop m (rx w))
          \<and> w' = w\<lparr>rx := drop (n - m) (drop m (rx w))\<rparr>"
        using Cons.IH [of "w\<lparr>rx := drop m (rx w)\<rparr>", OF _ xfer(3) [unfolded idle]] Cons.prems(1) by simp
      moreover have "take m (rx w) @ take (n - m) (drop m (rx w)) = take n (rx w)"
        using take_add [of m "n - m" "rx w"] xfer(1) by simp
      ultimately show ?thesis
        using xfer(1,2) idle by auto
    qed simp
  qed
qed

lemma recv_loop_idle_good:
  assumes "quiet peer"
  shows "tx w = [] \<Longrightarrow> good_ans n ans \<Longrightarrow> n \<le> length (rx w) \<Longrightarrow>
    \<exists>d w'. recv_loop peer ans n got w = Ret (0, d, w')"
proof (induction ans arbitrary: n got w)
  case Nil
  then show ?case by (simp add: good_ans_def)
next
  case (Cons a ans)
  have idle: "deliver peer w = w"
    using assms Cons.prems(1) by (rule deliver_idle)
  have a: "a \<noteq> Fail" "a \<noteq> Xfer 0"
    using Cons.prems(2) by (auto simp: good_ans_def)
  show ?case
  proof (cases "n = 0")
    case False
    show ?thesis
    proof (cases a)
      case (Xfer k)
      let ?m = "min k (min n (length (rx w)))"
      have k: "0 < k" and r: "rx w \<noteq> []"
        using a Xfer False Cons.prems(3) by auto
      then have "0 < ?m"
        using False by simp
      then have "n - ?m \<le> n - 1"
        by linarith
      then have "good_ans (n - ?m) ans"
        using Cons.prems(2) Xfer by (auto simp: good_ans_def)
      then have "\<exists>d w'. recv_loop peer ans (n - ?m) (got @ take ?m (rx w)) (w\<lparr>rx := drop ?m (rx w)\<rparr>) = Ret (0, d, w')"
        using Cons.prems(1,3) by (intro Cons.IH) simp_all
      then show ?thesis
        using recv_loop_step(5) [of n k peer w "rx w" ?m ans got] False k r idle Xfer by simp
    next
      case Intr
      then have "good_ans n ans"
        using Cons.prems(2) by (auto simp: good_ans_def)
      with Intr False show ?thesis
        using Cons.IH [OF Cons.prems(1) _ Cons.prems(3)] by (simp add: recv_loop_step(1))
    qed (use a in simp)
  qed simp
qed

lemma recv_loop_deliver:
  assumes "quiet peer" and "0 < n"
  shows "Fail \<notin> set ans \<or> (\<exists>d w'. recv_loop peer ans n got w = Ret (0, d, w')) \<Longrightarrow>
    recv_loop peer ans n got w = recv_loop peer ans n got (deliver peer w)"
proof (induction ans)
  case Nil
  then show ?case using assms(2) by auto
next
  case (Cons a ans)
  show ?case
  proof (cases a)
    case (Xfer k)
    with assms show ?thesis by (simp add: deliver_deliver)
  next
    case Intr
    with Cons assms(2) show ?thesis by (auto simp: recv_loop_step(1))
  next
    case Fail
    with Cons assms(2) show ?thesis by (auto simp: recv_loop_step(2))
  qed
qed

lemma deliver_called [simp]:
  "tx (deliver peer (called w)) = []" "rx (deliver peer (called w)) = rx (deliver peer w)"
  "far (deliver peer (called w)) = far (deliver peer w)"
  by (simp_all add: deliver_def called_def)

lemma dsm_recv_full_0:
  assumes "quiet peer" and "0 < n" and "dsm_recv_full peer fd n w = Ret (0, d, w')"
  shows "n \<le> length (rx (deliver peer w)) \<and> d = take n (rx (deliver peer w)) \<and>
    w' = (deliver peer (called w))\<lparr>rx := drop n (rx (deliver peer w))\<rparr>"
proof -
  have "recv_loop peer (answers fd w) n [] (deliver peer (called w)) = Ret (0, d, w')"
    using assms recv_loop_deliver [OF assms(1,2), of "answers fd w" "[]" "called w"]
    by (auto simp: dsm_recv_full_def)
  from recv_loop_idle_Ret [OF assms(1) _ this] show ?thesis by simp
qed

lemma reliable_answers:
  "reliable (kern w) \<Longrightarrow> 0 \<le> fd \<Longrightarrow> n \<le> HDR_SIZE + PAGE_SIZE \<Longrightarrow> good_ans n (answers fd w)"
  by (auto simp: reliable_def answers_def good_ans_def intro: order.trans)

lemma dsm_recv_full_good:
  assumes "quiet peer" and "0 < n" and "reliable (kern w)" and "0 \<le> fd"
    and "n \<le> HDR_SIZE + PAGE_SIZE" and "n \<le> length (rx (deliver peer w))"
  shows "\<exists>d w'. dsm_recv_full peer fd n w = Ret (0, d, w')"
proof -
  have good: "good_ans n (answers fd w)"
    using assms by (simp add: reliable_answers)
  then have "recv_loop peer (answers fd w) n [] (called w)
      = recv_loop peer (answers fd w) n [] (deliver peer (called w))"
    by (intro recv_loop_deliver [OF assms(1,2)]) (simp add: good_ans_def)
  then show ?thesis
    using recv_loop_idle_good [OF assms(1) _ good, of "deliver peer (called w)"] assms(6)
    by (simp add: dsm_recv_full_def)
qed

lemma dsm_send_full_good:
  "reliable (kern w) \<Longrightarrow> 0 \<le> fd \<Longrightarrow> length buf \<le> HDR_SIZE + PAGE_SIZE \<Longrightarrow>
     dsm_send_full fd buf fl w = Ret (0, (called w)\<lparr>tx := tx w @ buf\<rparr>)"
  by (simp add: dsm_send_full_def send_loop_good reliable_answers)

subsection \<open>What the RPCs return, whatever the peer and the kernel do\<close>

lemma ensures_send_full:
  "ensures (dsm_send_full fd buf fl w) (\<lambda>(rc, w'). (rc = 0 \<or> rc = -1) \<and> kern w' = kern w)"
  unfolding ensures_def dsm_send_full_def
  by (auto simp: send_loop_safe dest!: send_loop_Ret)

lemma ensures_recv_full:
  "ensures (dsm_recv_full peer fd n w) (\<lambda>(rc, d, w').
     kern w' = kern w \<and> length d \<le> n \<and> (rc = 0 \<and> length d = n \<or> rc = -1))"
  unfolding ensures_def dsm_recv_full_def
  by (auto simp: recv_loop_safe dest!: recv_loop_Ret)

lemma ensures_rpc_get:
  "ensures (dsm_rpc_get peer fd pid w) (\<lambda>(rc, d, w').
     kern w' = kern w \<and> length d \<le> PAGE_SIZE \<and> (rc = 0 \<and> length d = PAGE_SIZE \<or> rc = -1))"
  unfolding dsm_rpc_get_def
  apply (rule ensures_bindI [OF ensures_send_full])
  apply (clarsimp split: if_splits)
  apply (rule ensures_bindI [OF ensures_recv_full])
  apply (auto split: if_splits)
  done

lemma ensures_sendv_loop:
  "ensures (sendv_loop ans vs w) (\<lambda>(rc, w'). (rc = 0 \<or> rc = -1) \<and> kern w' = kern w)"
proof (induction ans arbitrary: vs w)
  case Nil
  then show ?case by simp
next
  case (Cons a ans)
  have "ensures (sendv_loop ans vs (w\<lparr>tx := t\<rparr>)) (\<lambda>(rc, w'). (rc = 0 \<or> rc = -1) \<and> kern w' = kern w)" for vs t
    using Cons.IH [of vs "w\<lparr>tx := t\<rparr>"] by simp
  with Cons.IH show ?case
    by (cases a) (simp_all add: Let_def)
qed

lemma ensures_rpc_put:
  "ensures (dsm_rpc_put peer fd pid buf w) (\<lambda>(rc, w'). kern w' = kern w \<and> (rc = 0 \<or> rc = -1))"
  unfolding dsm_rpc_put_def dsm_sendv_def
  apply (rule ensures_bindI [OF ensures_sendv_loop])
  apply (clarsimp split: if_splits)
  apply (rule ensures_bindI [OF ensures_recv_full])
  apply (auto split: if_splits)
  done

lemma ensures_batch_send:
  "ensures (batch_send fd ids w) (\<lambda>(rc, w'). (rc = 0 \<or> rc = -1) \<and> kern w' = kern w)"
proof (induction fd ids w rule: batch_send.induct)
  case (2 fd pid ids w)
  then show ?case
    unfolding batch_send.simps
    by (intro ensures_bindI [OF ensures_send_full]) (fastforce elim: ensures_mono split: if_splits)
qed simp

lemma ensures_batch_recv:
  "ensures (batch_recv peer fd n bufs w) (\<lambda>(rc, d, w').
     kern w' = kern w \<and> (rc = 0 \<and> length d = length bufs + n * PAGE_SIZE \<or> rc = -1))"
proof (induction peer fd n bufs w rule: batch_recv.induct)
  case (2 peer fd n bufs w)
  show ?case
    unfolding batch_recv.simps
    by (intro ensures_bindI [OF ensures_recv_full]) (fastforce intro: ensures_mono [OF 2] split: if_splits)
qed simp

lemma ensures_rpc_get_batch:
  "ensures (dsm_rpc_get_batch peer fd ids w) (\<lambda>(rc, d, w').
     kern w' = kern w \<and> (rc = 0 \<and> length d = length ids * PAGE_SIZE \<or> rc = -1))"
  unfolding dsm_rpc_get_batch_def
  by (auto intro!: ensures_bindI [OF ensures_batch_send] ensures_mono [OF ensures_batch_recv])

subsection \<open>The wire contract of a page server\<close>

text \<open>
  What the RPCs rely on at the other end of the connection: it is silent until spoken to,
  answers a \<open>GET\<close> of a page it owns with the page, and a \<open>PUT\<close> with an \<open>ACK\<close> after storing
  the page. Whatever bytes follow a request are handled in the state after it. The server
  model interprets this contract.
\<close>

locale page_peer =
  fixes peer :: "'s peer"
    and ready :: "'s \<Rightarrow> bool"
    and store :: "'s \<Rightarrow> u32 \<Rightarrow> bytes"
  assumes peer_quiet: "quiet peer"
    and peer_get: "ready s \<Longrightarrow> p \<in> pages (store s) \<Longrightarrow>
      \<exists>s'. ready s' \<and> store s' = store s \<and>
        (\<forall>bs. peer s (get_req p @ bs) = (fst (peer s' bs), store s p @ snd (peer s' bs)))"
    and peer_put: "ready s \<Longrightarrow> p \<in> pages (store s) \<Longrightarrow> length pg = PAGE_SIZE \<Longrightarrow>
      \<exists>s'. ready s' \<and> store s' = (store s)(p := pg) \<and>
        (\<forall>bs. peer s (put_req p pg @ bs) = (fst (peer s' bs), ack p @ snd (peer s' bs)))"
begin

lemma store_length: "p \<in> pages (store s) \<Longrightarrow> length (store s p) = PAGE_SIZE"
  by (simp add: pages_def)

lemma peer_nil [simp]: "peer s [] = (s, [])"
  using peer_quiet by (simp add: quiet_def)

lemma peer_get1:
  assumes "ready s" and "p \<in> pages (store s)"
  obtains s' where "peer s (get_req p) = (s', store s p)" "ready s'" "store s' = store s"
proof -
  from peer_get [OF assms] obtain s' where "ready s'" "store s' = store s"
    and "\<forall>bs. peer s (get_req p @ bs) = (fst (peer s' bs), store s p @ snd (peer s' bs))"
    by blast
  from this(3) [THEN spec, of "[]"] this(1,2) show ?thesis by (intro that [of s']) simp_all
qed

lemma peer_put1:
  assumes "ready s" and "p \<in> pages (store s)" and "length pg = PAGE_SIZE"
  obtains s' where "peer s (put_req p pg) = (s', ack p)" "ready s'" "store s' = (store s)(p := pg)"
proof -
  from peer_put [OF assms] obtain s' where "ready s'" "store s' = (store s)(p := pg)"
    and "\<forall>bs. peer s (put_req p pg @ bs) = (fst (peer s' bs), ack p @ snd (peer s' bs))"
    by blast
  from this(3) [THEN spec, of "[]"] this(1,2) show ?thesis by (intro that [of s']) simp_all
qed

lemma peer_get_many:
  "ready s \<Longrightarrow> set ids \<subseteq> pages (store s) \<Longrightarrow>
     \<exists>s'. peer s (concat (map get_req ids)) = (s', concat (map (store s) ids)) \<and> ready s' \<and> store s' = store s"
proof (induction ids arbitrary: s)
  case Nil
  then show ?case by simp
next
  case (Cons p ids)
  from Cons.prems peer_get [of s p] obtain s1 where s1: "ready s1" "store s1 = store s"
    and eq: "\<forall>bs. peer s (get_req p @ bs) = (fst (peer s1 bs), store s p @ snd (peer s1 bs))"
    by auto
  from Cons.IH [OF s1(1)] Cons.prems s1(2) obtain s2 where
    "peer s1 (concat (map get_req ids)) = (s2, concat (map (store s) ids))" "ready s2" "store s2 = store s"
    by auto
  with eq show ?case by auto
qed

lemma rpc_get_0:
  assumes sync: "synced ready w" and p: "p \<in> pages (store (far w))" and ret: "dsm_rpc_get peer fd p w = Ret (0, d, w')"
  shows "d = store (far w) p \<and> synced ready w' \<and> store (far w') = store (far w)"
proof -
  from ret obtain rc w1 where 1: "dsm_send_full fd (get_req p) 0 w = Ret (rc, w1)" "\<not> rc < 0"
    "dsm_recv_full peer fd PAGE_SIZE w1 = Ret (0, d, w')"
    using ensures_recv_full [of peer fd PAGE_SIZE]
    by (fastforce simp: dsm_rpc_get_def outcome_simps get_req_def ensures_def split: if_splits)
  from dsm_send_full_0 [OF 1(1,2)] sync have w1: "w1 = (called w)\<lparr>tx := get_req p\<rparr>"
    by (simp add: synced_def)
  obtain s' where s': "peer (far w) (get_req p) = (s', store (far w) p)" "ready s'" "store s' = store (far w)"
    using sync p peer_get1 [of "far w" p] by (auto simp: synced_def)
  have "rx (deliver peer w1) = store (far w) p" "far (deliver peer w1) = s'"
    using w1 s' sync by (simp_all add: deliver_def synced_def)
  with dsm_recv_full_0 [OF peer_quiet _ 1(3)] store_length [of p "far w"] sync p s' show ?thesis
    by (simp add: synced_def)
qed

lemma rpc_get_good:
  assumes sync: "synced ready w" and p: "p \<in> pages (store (far w))" and rel: "reliable (kern w)" and fd: "0 \<le> fd"
  shows "\<exists>d w'. dsm_rpc_get peer fd p w = Ret (0, d, w')"
proof -
  let ?w = "(called w)\<lparr>tx := tx w @ get_req p\<rparr>"
  have 1: "dsm_send_full fd (get_req p) 0 w = Ret (0, ?w)"
    by (rule dsm_send_full_good) (simp_all add: rel fd get_req_def)
  obtain s' where "peer (far w) (get_req p) = (s', store (far w) p)"
    using sync p peer_get1 [of "far w" p] by (auto simp: synced_def)
  then have "PAGE_SIZE \<le> length (rx (deliver peer ?w))"
    using sync p store_length by (simp add: deliver_def synced_def)
  then have "\<exists>d w'. dsm_recv_full peer fd PAGE_SIZE ?w = Ret (0, d, w')"
    by (intro dsm_recv_full_good [OF peer_quiet]) (simp_all add: rel fd)
  with 1 show ?thesis
    by (auto simp: dsm_rpc_get_def get_req_def)
qed

lemma rpc_put_send:
  "length pg = PAGE_SIZE \<Longrightarrow>
     dsm_sendv fd [header_bytes (dsm_rpc_make_header OP_PUT_PAGE p), pg] w = dsm_send_full fd (put_req p pg) 0 w"
  using dsm_sendv_eq [of "[header_bytes (dsm_rpc_make_header OP_PUT_PAGE p), pg]" fd w 0]
  by (cases "pg = []") (auto simp: put_req_def)

lemma rpc_put_0:
  assumes sync: "synced ready w" and p: "p \<in> pages (store (far w))" and len: "length pg = PAGE_SIZE"
    and ret: "dsm_rpc_put peer fd p pg w = Ret (0, w')"
  shows "synced ready w' \<and> store (far w') = (store (far w))(p := pg)"
proof -
  from ret obtain rc w1 d where 1: "dsm_send_full fd (put_req p pg) 0 w = Ret (rc, w1)" "\<not> rc < 0"
    "dsm_recv_full peer fd HDR_SIZE w1 = Ret (0, d, w')"
    using ensures_recv_full [of peer fd HDR_SIZE]
    by (fastforce simp: dsm_rpc_put_def rpc_put_send [OF len] outcome_simps ensures_def split: if_splits)
  from dsm_send_full_0 [OF 1(1,2)] sync have w1: "w1 = (called w)\<lparr>tx := put_req p pg\<rparr>"
    by (simp add: synced_def)
  obtain s' where s': "peer (far w) (put_req p pg) = (s', ack p)" "ready s'" "store s' = (store (far w))(p := pg)"
    using sync p len peer_put1 [of "far w" p pg] by (auto simp: synced_def)
  have "rx (deliver peer w1) = ack p" "far (deliver peer w1) = s'"
    using w1 s' sync by (simp_all add: deliver_def synced_def)
  with dsm_recv_full_0 [OF peer_quiet _ 1(3)] s' show ?thesis
    by (simp add: synced_def ack_def HDR_SIZE_def)
qed

lemma rpc_put_good:
  assumes sync: "synced ready w" and p: "p \<in> pages (store (far w))" and len: "length pg = PAGE_SIZE"
    and rel: "reliable (kern w)" and fd: "0 \<le> fd"
  shows "\<exists>w'. dsm_rpc_put peer fd p pg w = Ret (0, w')"
proof -
  let ?w = "(called w)\<lparr>tx := tx w @ put_req p pg\<rparr>"
  have 1: "dsm_send_full fd (put_req p pg) 0 w = Ret (0, ?w)"
    by (rule dsm_send_full_good) (simp_all add: rel fd put_req_def len)
  obtain s' where "peer (far w) (put_req p pg) = (s', ack p)"
    using sync p len peer_put1 [of "far w" p pg] by (auto simp: synced_def)
  then have rx: "rx (deliver peer ?w) = ack p"
    using sync by (simp add: deliver_def synced_def)
  have "\<exists>d w'. dsm_recv_full peer fd HDR_SIZE ?w = Ret (0, d, w')"
    by (rule dsm_recv_full_good [OF peer_quiet]) (simp_all add: rel fd rx ack_def, simp add: HDR_SIZE_def)
  then obtain d w' where 2: "dsm_recv_full peer fd HDR_SIZE ?w = Ret (0, d, w')"
    by blast
  have "0 < HDR_SIZE"
    by (simp add: HDR_SIZE_def)
  with dsm_recv_full_0 [OF peer_quiet _ 2] rx have "d = ack p"
    by (simp add: ack_def)
  with 1 2 show ?thesis
    by (simp add: dsm_rpc_put_def rpc_put_send [OF len] ack_def)
qed

lemma batch_send_0:
  "batch_send fd ids w = Ret (rc, w') \<Longrightarrow> \<not> rc < 0 \<Longrightarrow>
     tx w' = tx w @ concat (map get_req ids) \<and> rx w' = rx w \<and> far w' = far w"
proof (induction fd ids w rule: batch_send.induct)
  case (2 fd pid ids w)
  from 2(2,3) obtain rc1 w1 where 1: "dsm_send_full fd (get_req pid) (if ids \<noteq> [] then MSG_MORE else 0) w = Ret (rc1, w1)"
    and "\<not> rc1 < 0" and 3: "batch_send fd ids w1 = Ret (rc, w')"
    by (auto simp: outcome_simps get_req_def split: if_splits)
  then have "w1 = (called w)\<lparr>tx := tx w @ get_req pid\<rparr>"
    using dsm_send_full_0 [OF 1] by simp
  moreover have "tx w' = tx w1 @ concat (map get_req ids) \<and> rx w' = rx w1 \<and> far w' = far w1"
    using 2(1) [OF \<open>\<not> rc1 < 0\<close> 3 2(3)] .
  ultimately show ?case by simp
qed simp

lemma batch_send_good:
  "reliable (kern w) \<Longrightarrow> 0 \<le> fd \<Longrightarrow> \<exists>w'. batch_send fd ids w = Ret (0, w') \<and> kern w' = kern w"
proof (induction fd ids w rule: batch_send.induct)
  case (2 fd pid ids w)
  let ?w = "(called w)\<lparr>tx := tx w @ get_req pid\<rparr>"
  have "dsm_send_full fd (get_req pid) fl w = Ret (0, ?w)" for fl
    by (rule dsm_send_full_good) (simp_all add: 2 get_req_def)
  moreover have "\<exists>w'. batch_send fd ids ?w = Ret (0, w') \<and> kern w' = kern ?w"
    using 2(1) [of 0 ?w] 2(2,3) by simp
  ultimately show ?case
    by (simp add: get_req_def)
qed simp

lemma batch_recv_0:
  "batch_recv peer fd n bufs w = Ret (0, d, w') \<Longrightarrow> 0 < n \<Longrightarrow>
     n * PAGE_SIZE \<le> length (rx (deliver peer w)) \<and> d = bufs @ take (n * PAGE_SIZE) (rx (deliver peer w)) \<and>
     tx w' = [] \<and> rx w' = drop (n * PAGE_SIZE) (rx (deliver peer w)) \<and> far w' = far (deliver peer w)"
proof (induction n arbitrary: bufs w)
  case 0
  then show ?case by simp
next
  case (Suc n)
  from Suc.prems obtain buf w1 where 1: "dsm_recv_full peer fd PAGE_SIZE w = Ret (0, buf, w1)"
    and 2: "batch_recv peer fd n (bufs @ buf) w1 = Ret (0, d, w')"
    using ensures_recv_full [of peer fd PAGE_SIZE w]
    by (fastforce simp: outcome_simps ensures_def split: if_splits)
  let ?r = "rx (deliver peer w)"
  have 3: "PAGE_SIZE \<le> length ?r" "buf = take PAGE_SIZE ?r"
    "w1 = (deliver peer (called w))\<lparr>rx := drop PAGE_SIZE ?r\<rparr>"
    using dsm_recv_full_0 [OF peer_quiet _ 1] by simp_all
  have idle: "deliver peer w1 = w1"
    by (rule deliver_idle [OF peer_quiet]) (simp add: 3)
  show ?case
  proof (cases n)
    case 0
    with 2 3 show ?thesis by auto
  next
    case (Suc m)
    with Suc.IH [OF 2] idle have
      "n * PAGE_SIZE \<le> length (rx w1) \<and> d = (bufs @ buf) @ take (n * PAGE_SIZE) (rx w1) \<and>
       tx w' = [] \<and> rx w' = drop (n * PAGE_SIZE) (rx w1) \<and> far w' = far w1"
      by simp
    with 3 show ?thesis
      by (auto simp: take_add add.commute)
  qed
qed

lemma batch_recv_good:
  "reliable (kern w) \<Longrightarrow> 0 \<le> fd \<Longrightarrow> n * PAGE_SIZE \<le> length (rx (deliver peer w)) \<Longrightarrow>
     \<exists>d w'. batch_recv peer fd n bufs w = Ret (0, d, w')"
proof (induction n arbitrary: bufs w)
  case 0
  then show ?case by simp
next
  case (Suc n)
  have "\<exists>d w'. dsm_recv_full peer fd PAGE_SIZE w = Ret (0, d, w')"
    using Suc.prems by (intro dsm_recv_full_good [OF peer_quiet]) simp_all
  then obtain buf w1 where 1: "dsm_recv_full peer fd PAGE_SIZE w = Ret (0, buf, w1)"
    by blast
  then have w1: "w1 = (deliver peer (called w))\<lparr>rx := drop PAGE_SIZE (rx (deliver peer w))\<rparr>"
    using dsm_recv_full_0 [OF peer_quiet _ 1] by simp
  then have "deliver peer w1 = w1"
    by (intro deliver_idle [OF peer_quiet]) simp
  with w1 Suc.prems have "\<exists>d w'. batch_recv peer fd n (bufs @ buf) w1 = Ret (0, d, w')"
    by (intro Suc.IH) simp_all
  with 1 show ?case by simp
qed

lemma deliver_batch:
  assumes "synced ready w" and "set ids \<subseteq> pages (store (far w))"
    and "tx w1 = tx w @ concat (map get_req ids) \<and> rx w1 = rx w \<and> far w1 = far w"
  shows "rx (deliver peer w1) = concat (map (store (far w)) ids) \<and> ready (far (deliver peer w1)) \<and>
    store (far (deliver peer w1)) = store (far w)"
  using assms peer_get_many [of "far w" ids] by (auto simp: deliver_def synced_def)

lemma length_concat_store:
  "set ids \<subseteq> pages (store s) \<Longrightarrow> length (concat (map (store s) ids)) = length ids * PAGE_SIZE"
  by (induction ids) (simp_all add: store_length)

lemma rpc_get_batch_0:
  assumes sync: "synced ready w" and p: "set ids \<subseteq> pages (store (far w))"
    and ret: "dsm_rpc_get_batch peer fd ids w = Ret (0, d, w')"
  shows "d = concat (map (store (far w)) ids) \<and> synced ready w' \<and> store (far w') = store (far w)"
proof (cases "ids = []")
  case True
  with sync ret show ?thesis by (simp add: dsm_rpc_get_batch_def)
next
  case False
  with ret obtain rc w1 where 1: "batch_send fd ids w = Ret (rc, w1)" "\<not> rc < 0"
    and 2: "batch_recv peer fd (length ids) [] w1 = Ret (0, d, w')"
    by (auto simp: dsm_rpc_get_batch_def outcome_simps split: if_splits)
  note 3 = deliver_batch [OF sync p batch_send_0 [OF 1]]
  from batch_recv_0 [OF 2] False 3 length_concat_store [OF p] sync show ?thesis
    by (auto simp: synced_def)
qed

lemma rpc_get_batch_good:
  assumes sync: "synced ready w" and p: "set ids \<subseteq> pages (store (far w))" and rel: "reliable (kern w)" and fd: "0 \<le> fd"
  shows "\<exists>d w'. dsm_rpc_get_batch peer fd ids w = Ret (0, d, w')"
proof (cases "ids = []")
  case True
  then show ?thesis by (simp add: dsm_rpc_get_batch_def)
next
  case False
  from batch_send_good [OF rel fd] obtain w1 where 1: "batch_send fd ids w = Ret (0, w1)" "kern w1 = kern w"
    by blast
  have "rx (deliver peer w1) = concat (map (store (far w)) ids)"
    using deliver_batch [OF sync p batch_send_0 [OF 1(1)]] by simp
  moreover have "length (concat (map (store (far w)) ids)) = length ids * PAGE_SIZE"
    using sync p by (intro length_concat_store) (simp_all add: synced_def)
  ultimately have "\<exists>d w'. batch_recv peer fd (length ids) [] w1 = Ret (0, d, w')"
    using rel fd 1(2) by (intro batch_recv_good) simp_all
  with False 1(1) show ?thesis
    by (auto simp: dsm_rpc_get_batch_def)
qed

end

subsection \<open>Properties\<close>

text \<open>
  However the kernel cuts a transfer up, interrupts it or breaks it off,
  \<open>dsm_send_full\<close> sends a prefix of its buffer, in order and nothing else; it returns 0
  exactly when it has sent all of it and -1 otherwise. It never runs out of bounds.
\<close>

lemma send_full_prefix:
  "ensures (dsm_send_full fd buf fl w) (\<lambda>(rc, w'). \<exists>n. n \<le> length buf \<and>
     w' = (called w)\<lparr>tx := tx w @ take n buf\<rparr> \<and> (rc = 0 \<and> n = length buf \<or> rc = -1))"
  unfolding ensures_def dsm_send_full_def
  by (auto simp: send_loop_safe dest!: send_loop_Ret)



text \<open>
  \<open>dsm_recv_full\<close> returns 0 only with exactly the number of bytes asked for, and these are
  the next bytes of the stream; what follows them stays for the next call.
\<close>

lemma recv_full_exact:
  assumes "quiet peer" and "0 < n" and "dsm_recv_full peer fd n w = Ret (0, d, w')"
  shows "length d = n \<and> d @ rx w' = rx (deliver peer w)"
  using dsm_recv_full_0 [OF assms] by auto

text \<open>
  A header survives the wire: its eight bytes, followed by whatever comes next in the
  stream, are read back as the same header.
\<close>

lemma header_roundtrip:
  assumes "length (h_pad h) = 3"
  shows "length (header_bytes h) = HDR_SIZE \<and> header_of_bytes (header_bytes h @ rest) = h"
  using header_of_bytes_inverse [OF assms] assms by (simp add: header_bytes_def HDR_SIZE_def)

end
