(* ===== verification/DSM_Gossip.thy ===== *)
theory DSM_Gossip
  imports DSM_Prelude
begin

section \<open>Gossip messages (dsm\_gossip.c, dsm\_gossip.h)\<close>

text \<open>
  The packed structures of the gossip protocol as records, their wire format as byte lists
  (little endian, as on the hosts the program is built for), the routines that build the
  three kinds of datagrams, and the parser. A read beyond the end of the receive buffer is
  \<open>Undef\<close>. \<open>cluster_node\<close> is the membership entry of \<open>dsm_cluster.h\<close>.
\<close>

subsection \<open>Definitions\<close>

definition NODE_ID_LEN :: nat where "NODE_ID_LEN = 16"

definition GOSSIP_MSG_MAX_NODES :: nat where "GOSSIP_MSG_MAX_NODES = 16"

definition GOSSIP_MAGIC :: u32 where "GOSSIP_MAGIC = 0x44534D47"

definition GOSSIP_PING :: u8 where "GOSSIP_PING = 1"

definition GOSSIP_PONG :: u8 where "GOSSIP_PONG = 2"

definition GOSSIP_JOIN :: u8 where "GOSSIP_JOIN = 3"

record cluster_node =
  n_id :: bytes
  n_addr :: u32
  n_client_port :: u16
  n_cluster_port :: u16
  n_range_start :: u32
  n_range_end :: u32
  n_last_seen :: u64
  n_incarnation :: u32
  n_state :: u8

record gossip_header =
  g_magic :: u32
  g_type :: u8
  g_node_count :: u8
  g_client_port :: u16
  g_sender_id :: bytes
  g_incarnation :: u32
  g_range_start :: u32
  g_range_end :: u32

record gossip_node_info =
  i_id :: bytes
  i_addr :: u32
  i_client_port :: u16
  i_cluster_port :: u16
  i_range_start :: u32
  i_range_end :: u32
  i_incarnation :: u32
  i_state :: u8
  i_pad :: bytes

record gossip_msg =
  hdr :: gossip_header
  msg_nodes :: "gossip_node_info list"

paragraph \<open>Wire format\<close>

definition HEADER_SIZE :: nat where "HEADER_SIZE = 36"

definition NODE_SIZE :: nat where "NODE_SIZE = 40"

definition gossip_header_bytes :: "gossip_header \<Rightarrow> bytes" where
  "gossip_header_bytes h =
     le_enc 4 (unat (g_magic h)) @ [g_type h, g_node_count h] @ le_enc 2 (unat (g_client_port h)) @
     g_sender_id h @ le_enc 4 (unat (g_incarnation h)) @ le_enc 4 (unat (g_range_start h)) @
     le_enc 4 (unat (g_range_end h))"

definition node_info_bytes :: "gossip_node_info \<Rightarrow> bytes" where
  "node_info_bytes n =
     i_id n @ le_enc 4 (unat (i_addr n)) @ le_enc 2 (unat (i_client_port n)) @
     le_enc 2 (unat (i_cluster_port n)) @ le_enc 4 (unat (i_range_start n)) @
     le_enc 4 (unat (i_range_end n)) @ le_enc 4 (unat (i_incarnation n)) @ [i_state n] @ i_pad n"

definition field :: "bytes \<Rightarrow> nat \<Rightarrow> nat \<Rightarrow> nat" where
  "field bs off n = le_dec (mem_read bs off n)"

definition gossip_header_of_bytes :: "bytes \<Rightarrow> gossip_header" where
  "gossip_header_of_bytes bs =
     \<lparr>g_magic = of_nat (field bs 0 4), g_type = of_nat (field bs 4 1), g_node_count = of_nat (field bs 5 1),
      g_client_port = of_nat (field bs 6 2), g_sender_id = mem_read bs 8 NODE_ID_LEN,
      g_incarnation = of_nat (field bs 24 4), g_range_start = of_nat (field bs 28 4),
      g_range_end = of_nat (field bs 32 4)\<rparr>"

definition node_info_of_bytes :: "bytes \<Rightarrow> gossip_node_info" where
  "node_info_of_bytes bs =
     \<lparr>i_id = mem_read bs 0 NODE_ID_LEN, i_addr = of_nat (field bs 16 4),
      i_client_port = of_nat (field bs 20 2), i_cluster_port = of_nat (field bs 22 2),
      i_range_start = of_nat (field bs 24 4), i_range_end = of_nat (field bs 28 4),
      i_incarnation = of_nat (field bs 32 4), i_state = of_nat (field bs 36 1), i_pad = mem_read bs 37 3\<rparr>"

definition gossip_msg_bytes :: "gossip_msg \<Rightarrow> bytes" where
  "gossip_msg_bytes m = gossip_header_bytes (hdr m) @ concat (map node_info_bytes (msg_nodes m))"

paragraph \<open>Sending\<close>

text \<open>
  \<open>sendto\<close> is the kernel's: \<open>n\<close> is what it returns. The result is the datagram handed to it
  and the return value of the routine.
\<close>

definition send_msg :: "gossip_msg \<Rightarrow> int \<Rightarrow> bytes \<times> int" where
  "send_msg m n =
     (let len = HEADER_SIZE + unat (g_node_count (hdr m)) * NODE_SIZE
      in (take len (gossip_msg_bytes m), if n = int len then 0 else -1))"

definition zero_node_info :: gossip_node_info where
  "zero_node_info =
     \<lparr>i_id = replicate NODE_ID_LEN 0, i_addr = 0, i_client_port = 0, i_cluster_port = 0, i_range_start = 0,
      i_range_end = 0, i_incarnation = 0, i_state = 0, i_pad = [0, 0, 0]\<rparr>"

definition fill_header :: "u8 \<Rightarrow> cluster_node \<Rightarrow> gossip_msg" where
  "fill_header typ self =
     \<lparr>hdr = \<lparr>g_magic = GOSSIP_MAGIC, g_type = typ, g_node_count = 0, g_client_port = n_client_port self,
             g_sender_id = n_id self, g_incarnation = n_incarnation self,
             g_range_start = n_range_start self, g_range_end = n_range_end self\<rparr>,
      msg_nodes = replicate GOSSIP_MSG_MAX_NODES zero_node_info\<rparr>"

definition set_node_count :: "u8 \<Rightarrow> gossip_msg \<Rightarrow> gossip_msg" where
  "set_node_count n m = m\<lparr>hdr := (hdr m)\<lparr>g_node_count := n\<rparr>\<rparr>"

definition cluster_node_to_gossip :: "cluster_node \<Rightarrow> gossip_node_info" where
  "cluster_node_to_gossip cn =
     \<lparr>i_id = n_id cn, i_addr = n_addr cn, i_client_port = n_client_port cn,
      i_cluster_port = n_cluster_port cn, i_range_start = n_range_start cn, i_range_end = n_range_end cn,
      i_incarnation = n_incarnation cn, i_state = n_state cn, i_pad = [0, 0, 0]\<rparr>"

definition gossip_node_to_cluster :: "gossip_node_info \<Rightarrow> cluster_node" where
  "gossip_node_to_cluster gn =
     \<lparr>n_id = i_id gn, n_addr = i_addr gn, n_client_port = i_client_port gn,
      n_cluster_port = i_cluster_port gn, n_range_start = i_range_start gn, n_range_end = i_range_end gn,
      n_last_seen = 0, n_incarnation = i_incarnation gn, n_state = i_state gn\<rparr>"

definition gossip_send_ping :: "cluster_node \<Rightarrow> int \<Rightarrow> bytes \<times> int" where
  "gossip_send_ping self n = send_msg (set_node_count 0 (fill_header GOSSIP_PING self)) n"

fun put_nodes :: "nat \<Rightarrow> cluster_node list \<Rightarrow> gossip_node_info list \<Rightarrow> gossip_node_info list outcome" where
  "put_nodes i [] ns = Ret ns"
| "put_nodes i (cn # cns) ns = bind_oc (upd ns i (cluster_node_to_gossip cn)) (put_nodes (Suc i) cns)"

definition pong_msg :: "cluster_node \<Rightarrow> cluster_node list \<Rightarrow> gossip_msg outcome" where
  "pong_msg self nodes =
     (let m = fill_header GOSSIP_PONG self;
          count = (if length nodes > GOSSIP_MSG_MAX_NODES then GOSSIP_MSG_MAX_NODES else length nodes);
          m = set_node_count (of_nat count) m
      in bind_oc (put_nodes 0 (take count nodes) (msg_nodes m)) (\<lambda>ns. Ret (m\<lparr>msg_nodes := ns\<rparr>)))"

definition gossip_send_pong :: "cluster_node \<Rightarrow> cluster_node list \<Rightarrow> int \<Rightarrow> (bytes \<times> int) outcome" where
  "gossip_send_pong self nodes n = bind_oc (pong_msg self nodes) (\<lambda>m. Ret (send_msg m n))"

definition gossip_send_join :: "cluster_node \<Rightarrow> int \<Rightarrow> (bytes \<times> int) outcome" where
  "gossip_send_join self n =
     (let m = set_node_count 1 (fill_header GOSSIP_JOIN self)
      in bind_oc (put_nodes 0 [self] (msg_nodes m)) (\<lambda>ns. Ret (send_msg (m\<lparr>msg_nodes := ns\<rparr>) n)))"

paragraph \<open>Parsing\<close>

definition copy_in :: "bytes \<Rightarrow> nat \<Rightarrow> nat \<Rightarrow> bytes outcome" where
  "copy_in buf off n = (if off + n \<le> length buf then Ret (mem_read buf off n) else Undef)"

fun split_nodes :: "nat \<Rightarrow> bytes \<Rightarrow> gossip_node_info list" where
  "split_nodes 0 bs = []"
| "split_nodes (Suc n) bs = node_info_of_bytes (take NODE_SIZE bs) # split_nodes n (drop NODE_SIZE bs)"

text \<open>\<open>out\<close> is the caller's structure, which keeps what the parser does not overwrite.\<close>

definition gossip_parse :: "bytes \<Rightarrow> gossip_msg \<Rightarrow> (int \<times> gossip_msg) outcome" where
  "gossip_parse buf out =
     (if length buf < HEADER_SIZE then Ret (-1, out)
      else bind_oc (copy_in buf 0 HEADER_SIZE) (\<lambda>h.
      let out = out\<lparr>hdr := gossip_header_of_bytes h\<rparr>; count = unat (g_node_count (hdr out)) in
      if g_magic (hdr out) \<noteq> GOSSIP_MAGIC then Ret (-1, out)
      else if count > GOSSIP_MSG_MAX_NODES then Ret (-1, out)
      else if length buf < HEADER_SIZE + count * NODE_SIZE then Ret (-1, out)
      else if count > 0
      then bind_oc (copy_in buf HEADER_SIZE (count * NODE_SIZE)) (\<lambda>bs.
           if count \<le> length (msg_nodes out)
           then Ret (0, out\<lparr>msg_nodes := split_nodes count bs @ drop count (msg_nodes out)\<rparr>) else Undef)
      else Ret (0, out)))"

paragraph \<open>Well-formed structures\<close>

definition header_ok :: "gossip_header \<Rightarrow> bool" where
  "header_ok h \<longleftrightarrow> length (g_sender_id h) = NODE_ID_LEN"

definition node_info_ok :: "gossip_node_info \<Rightarrow> bool" where
  "node_info_ok n \<longleftrightarrow> length (i_id n) = NODE_ID_LEN \<and> length (i_pad n) = 3"

definition msg_ok :: "gossip_msg \<Rightarrow> bool" where
  "msg_ok m \<longleftrightarrow> header_ok (hdr m) \<and> length (msg_nodes m) = GOSSIP_MSG_MAX_NODES \<and>
     (\<forall>n \<in> set (msg_nodes m). node_info_ok n)"

paragraph \<open>What the parser accepts, and what it makes of it\<close>

definition gossip_accepts :: "bytes \<Rightarrow> bool" where
  "gossip_accepts buf \<longleftrightarrow>
     (let h = gossip_header_of_bytes (mem_read buf 0 HEADER_SIZE); count = unat (g_node_count h) in
      HEADER_SIZE \<le> length buf \<and> g_magic h = GOSSIP_MAGIC \<and> count \<le> GOSSIP_MSG_MAX_NODES \<and>
      HEADER_SIZE + count * NODE_SIZE \<le> length buf)"

definition parsed_msg :: "bytes \<Rightarrow> gossip_msg \<Rightarrow> gossip_msg" where
  "parsed_msg buf out =
     (let h = gossip_header_of_bytes (mem_read buf 0 HEADER_SIZE); count = unat (g_node_count h) in
      out\<lparr>hdr := h, msg_nodes := split_nodes count (mem_read buf HEADER_SIZE (count * NODE_SIZE)) @
             drop count (msg_nodes out)\<rparr>)"

lemmas gossip_consts = NODE_ID_LEN_def GOSSIP_MSG_MAX_NODES_def HEADER_SIZE_def NODE_SIZE_def

subsection \<open>The wire format loses nothing\<close>

lemma length_gossip_header_bytes: "header_ok h \<Longrightarrow> length (gossip_header_bytes h) = HEADER_SIZE"
  by (simp add: gossip_header_bytes_def header_ok_def gossip_consts)

lemma length_node_info_bytes: "node_info_ok n \<Longrightarrow> length (node_info_bytes n) = NODE_SIZE"
  by (simp add: node_info_bytes_def node_info_ok_def gossip_consts)

lemma le_dec_enc_sizes [simp]:
  "word_of_nat (le_dec (le_enc 4 (unat (x :: u32)))) = x"
  "word_of_nat (le_dec (le_enc 2 (unat (y :: u16)))) = y"
  by (rule le_dec_enc_word, simp)+

lemma le_dec_single [simp]: "word_of_nat (le_dec [b]) = (b :: u8)"
  by simp

lemma gossip_header_roundtrip:
  "header_ok h \<Longrightarrow> gossip_header_of_bytes (gossip_header_bytes h) = h"
  by (simp add: gossip_header_of_bytes_def gossip_header_bytes_def field_def mem_read_def header_ok_def gossip_consts)

lemma node_info_roundtrip:
  "node_info_ok n \<Longrightarrow> node_info_of_bytes (node_info_bytes n) = n"
  by (simp add: node_info_of_bytes_def node_info_bytes_def field_def mem_read_def node_info_ok_def gossip_consts)

lemma split_nodes_roundtrip:
  "\<forall>n \<in> set ns. node_info_ok n \<Longrightarrow> split_nodes (length ns) (concat (map node_info_bytes ns)) = ns"
  by (induction ns) (simp_all add: length_node_info_bytes node_info_roundtrip)

lemma length_concat_nodes:
  "\<forall>n \<in> set ns. node_info_ok n \<Longrightarrow> length (concat (map node_info_bytes ns)) = length ns * NODE_SIZE"
  by (induction ns) (simp_all add: length_node_info_bytes)

lemma take_concat_nodes:
  "\<forall>n \<in> set ns. node_info_ok n \<Longrightarrow>
     take (k * NODE_SIZE) (concat (map node_info_bytes ns)) = concat (map node_info_bytes (take k ns))"
proof (induction ns arbitrary: k)
  case (Cons n ns)
  then show ?case by (cases k) (simp_all add: length_node_info_bytes)
qed simp

subsection \<open>The parser\<close>

text \<open>The datagram \<open>send_msg\<close> hands to the kernel, without the padding nodes.\<close>

lemma send_msg_bytes:
  assumes "msg_ok m" and "unat (g_node_count (hdr m)) \<le> GOSSIP_MSG_MAX_NODES"
  shows "fst (send_msg m n) =
    gossip_header_bytes (hdr m) @ concat (map node_info_bytes (take (unat (g_node_count (hdr m))) (msg_nodes m)))"
  using assms take_concat_nodes [of "msg_nodes m" "unat (g_node_count (hdr m))"]
  by (simp add: send_msg_def gossip_msg_bytes_def msg_ok_def length_gossip_header_bytes)

lemma length_send_msg:
  assumes "msg_ok m" and "unat (g_node_count (hdr m)) \<le> GOSSIP_MSG_MAX_NODES"
  shows "length (fst (send_msg m n)) = HEADER_SIZE + unat (g_node_count (hdr m)) * NODE_SIZE"
proof -
  let ?ns = "take (unat (g_node_count (hdr m))) (msg_nodes m)"
  have "\<forall>x \<in> set ?ns. node_info_ok x" "length ?ns = unat (g_node_count (hdr m))" "header_ok (hdr m)"
    using assms by (auto simp: msg_ok_def dest: in_set_takeD)
  then show ?thesis
    using length_concat_nodes [of ?ns] by (simp add: send_msg_bytes [OF assms] length_gossip_header_bytes)
qed

lemma length_split_nodes [simp]: "length (split_nodes n bs) = n"
  by (induction n bs rule: split_nodes.induct) simp_all

lemma gossip_parse_reject:
  assumes "\<not> gossip_accepts buf"
  shows "\<exists>out'. gossip_parse buf out = Ret (-1, out') \<and> msg_nodes out' = msg_nodes out"
  using assms by (auto simp: gossip_parse_def gossip_accepts_def copy_in_def Let_def not_le)

lemma gossip_parse_accept:
  assumes "gossip_accepts buf" and "length (msg_nodes out) = GOSSIP_MSG_MAX_NODES"
  shows "gossip_parse buf out = Ret (0, parsed_msg buf out)"
proof -
  let ?h = "gossip_header_of_bytes (mem_read buf 0 HEADER_SIZE)"
  have "HEADER_SIZE \<le> length buf" "g_magic ?h = GOSSIP_MAGIC" "unat (g_node_count ?h) \<le> GOSSIP_MSG_MAX_NODES"
    "HEADER_SIZE + unat (g_node_count ?h) * NODE_SIZE \<le> length buf"
    using assms(1) by (simp_all add: gossip_accepts_def Let_def)
  with assms(2) show ?thesis
    by (cases "g_node_count ?h = 0") (simp_all add: gossip_parse_def parsed_msg_def copy_in_def Let_def)
qed

lemma field_cong: "off + n \<le> k \<Longrightarrow> mem_read (mem_read bs 0 k) off n = mem_read bs off n"
  by (simp add: mem_read_def take_drop min_def)

lemma node_info_ok_of_bytes: "NODE_SIZE \<le> length bs \<Longrightarrow> node_info_ok (node_info_of_bytes bs)"
  by (simp add: node_info_ok_def node_info_of_bytes_def length_mem_read gossip_consts)

lemma split_nodes_ok: "n * NODE_SIZE \<le> length bs \<Longrightarrow> \<forall>x \<in> set (split_nodes n bs). node_info_ok x"
  by (induction n bs rule: split_nodes.induct) (auto simp: node_info_ok_of_bytes)

lemma parsed_msg_ok:
  assumes "gossip_accepts buf" and "msg_ok out"
  shows "msg_ok (parsed_msg buf out)"
proof -
  let ?c = "unat (g_node_count (gossip_header_of_bytes (mem_read buf 0 HEADER_SIZE)))"
  have c: "?c \<le> GOSSIP_MSG_MAX_NODES" "HEADER_SIZE + ?c * NODE_SIZE \<le> length buf" "HEADER_SIZE \<le> length buf"
    using assms(1) by (simp_all add: gossip_accepts_def Let_def)
  have "\<forall>x \<in> set (split_nodes ?c (mem_read buf HEADER_SIZE (?c * NODE_SIZE))). node_info_ok x"
    using c by (intro split_nodes_ok) (simp add: length_mem_read)
  moreover have "header_ok (gossip_header_of_bytes (mem_read buf 0 HEADER_SIZE))"
    using c(3) by (simp add: header_ok_def gossip_header_of_bytes_def length_mem_read gossip_consts)
  ultimately show ?thesis
    using assms(2) c(1) by (auto simp: msg_ok_def parsed_msg_def Let_def dest: in_set_dropD)
qed

text \<open>What one node sends, another one parses.\<close>

lemma parse_sent:
  assumes m: "msg_ok m" "g_magic (hdr m) = GOSSIP_MAGIC"
    and c: "unat (g_node_count (hdr m)) \<le> GOSSIP_MSG_MAX_NODES"
    and out: "length (msg_nodes out) = GOSSIP_MSG_MAX_NODES"
  shows "\<exists>out'. gossip_parse (fst (send_msg m n)) out = Ret (0, out') \<and> hdr out' = hdr m \<and>
    take (unat (g_node_count (hdr m))) (msg_nodes out') = take (unat (g_node_count (hdr m))) (msg_nodes m)"
proof -
  let ?c = "unat (g_node_count (hdr m))" and ?b = "fst (send_msg m n)"
  let ?ns = "take ?c (msg_nodes m)"
  have ns: "\<forall>x \<in> set ?ns. node_info_ok x" and len: "length ?ns = ?c"
    using m(1) c by (auto simp: msg_ok_def dest: in_set_takeD)
  have h: "header_ok (hdr m)" using m(1) by (simp add: msg_ok_def)
  note b = send_msg_bytes [OF m(1) c, of n]
  have rd: "mem_read ?b 0 HEADER_SIZE = gossip_header_bytes (hdr m)"
    "mem_read ?b HEADER_SIZE (?c * NODE_SIZE) = concat (map node_info_bytes ?ns)"
    using length_concat_nodes [OF ns] len by (simp_all add: b mem_read_def length_gossip_header_bytes [OF h])
  have acc: "gossip_accepts ?b"
    using m(2) c length_send_msg [OF m(1) c] by (simp add: gossip_accepts_def Let_def rd gossip_header_roundtrip [OF h])
  show ?thesis
    using gossip_parse_accept [OF acc out] split_nodes_roundtrip [OF ns] len
    by (simp add: parsed_msg_def Let_def rd gossip_header_roundtrip [OF h])
qed

subsection \<open>The messages that are sent\<close>

lemma put_nodes_eq:
  "i + length cns \<le> length ns \<Longrightarrow>
     put_nodes i cns ns = Ret (take i ns @ map cluster_node_to_gossip cns @ drop (i + length cns) ns)"
proof (induction i cns ns rule: put_nodes.induct)
  case (2 i cn cns ns)
  then have "i < length ns" by simp
  with 2 show ?case
    by (simp add: take_Suc_conv_app_nth)
qed simp

lemma fill_header_sel [simp]:
  "g_magic (hdr (fill_header t self)) = GOSSIP_MAGIC" "g_type (hdr (fill_header t self)) = t"
  "g_sender_id (hdr (fill_header t self)) = n_id self"
  "msg_nodes (fill_header t self) = replicate GOSSIP_MSG_MAX_NODES zero_node_info"
  by (simp_all add: fill_header_def)

lemma node_to_gossip_ok: "length (n_id cn) = NODE_ID_LEN \<Longrightarrow> node_info_ok (cluster_node_to_gossip cn)"
  by (simp add: node_info_ok_def cluster_node_to_gossip_def)

lemma zero_node_info_ok [simp]: "node_info_ok zero_node_info"
  by (simp add: node_info_ok_def zero_node_info_def)

lemma pong_msg_eq:
  assumes "length (n_id self) = NODE_ID_LEN" and "\<forall>n \<in> set nodes. length (n_id n) = NODE_ID_LEN"
  shows "\<exists>m. pong_msg self nodes = Ret m \<and> msg_ok m \<and> g_magic (hdr m) = GOSSIP_MAGIC \<and>
    hdr m = (hdr (fill_header GOSSIP_PONG self))\<lparr>g_node_count := of_nat (min GOSSIP_MSG_MAX_NODES (length nodes))\<rparr> \<and>
    unat (g_node_count (hdr m)) = min GOSSIP_MSG_MAX_NODES (length nodes) \<and>
    take (unat (g_node_count (hdr m))) (msg_nodes m) = map cluster_node_to_gossip (take GOSSIP_MSG_MAX_NODES nodes)"
proof -
  let ?k = "min GOSSIP_MSG_MAX_NODES (length nodes)" and ?m = "fill_header GOSSIP_PONG self"
  let ?ns = "map cluster_node_to_gossip (take ?k nodes) @ drop ?k (replicate GOSSIP_MSG_MAX_NODES zero_node_info)"
  have k: "(if length nodes > GOSSIP_MSG_MAX_NODES then GOSSIP_MSG_MAX_NODES else length nodes) = ?k"
    by simp
  have u: "unat (of_nat ?k :: u8) = ?k"
    by (rule unat_of_nat_u8) (simp add: gossip_consts)
  have "pong_msg self nodes = Ret (set_node_count (of_nat ?k) ?m\<lparr>msg_nodes := ?ns\<rparr>)"
    using put_nodes_eq [of 0 "take ?k nodes" "replicate GOSSIP_MSG_MAX_NODES zero_node_info"]
    unfolding pong_msg_def Let_def k by (simp add: set_node_count_def)
  moreover have "msg_ok (set_node_count (of_nat ?k) ?m\<lparr>msg_nodes := ?ns\<rparr>)"
    using assms by (auto simp: msg_ok_def header_ok_def set_node_count_def fill_header_def node_to_gossip_ok
        dest: in_set_takeD)
  moreover have "take ?k nodes = take GOSSIP_MSG_MAX_NODES nodes"
    by (simp add: min_def)
  ultimately show ?thesis
    using u by (simp add: set_node_count_def)
qed

lemma join_msg_eq:
  assumes "length (n_id self) = NODE_ID_LEN"
  shows "\<exists>m. gossip_send_join self n = Ret (send_msg m n) \<and> msg_ok m \<and> g_magic (hdr m) = GOSSIP_MAGIC \<and>
    hdr m = (hdr (fill_header GOSSIP_JOIN self))\<lparr>g_node_count := 1\<rparr> \<and>
    take 1 (msg_nodes m) = [cluster_node_to_gossip self]"
proof -
  let ?m = "set_node_count 1 (fill_header GOSSIP_JOIN self)"
  let ?ns = "cluster_node_to_gossip self # drop 1 (replicate GOSSIP_MSG_MAX_NODES zero_node_info)"
  have "gossip_send_join self n = Ret (send_msg (?m\<lparr>msg_nodes := ?ns\<rparr>) n)"
    using put_nodes_eq [of 0 "[self]" "replicate GOSSIP_MSG_MAX_NODES zero_node_info"]
    by (simp add: gossip_send_join_def Let_def set_node_count_def gossip_consts)
  moreover have "msg_ok (?m\<lparr>msg_nodes := ?ns\<rparr>)"
    using assms by (auto simp: msg_ok_def header_ok_def set_node_count_def fill_header_def node_to_gossip_ok gossip_consts)
  ultimately show ?thesis
    by (intro exI [of _ "?m\<lparr>msg_nodes := ?ns\<rparr>"]) (simp add: set_node_count_def)
qed

lemma ping_msg_ok:
  "length (n_id self) = NODE_ID_LEN \<Longrightarrow> msg_ok (set_node_count 0 (fill_header GOSSIP_PING self))"
  by (auto simp: msg_ok_def header_ok_def set_node_count_def fill_header_def)

lemma back_to_cluster [simp]:
  "gossip_node_to_cluster (cluster_node_to_gossip cn) = cn\<lparr>n_last_seen := 0\<rparr>"
  by (simp add: gossip_node_to_cluster_def cluster_node_to_gossip_def)

subsection \<open>Properties\<close>

text \<open>
  The parser returns on every datagram without reading past its end or writing past
  the caller's sixteen nodes; it answers 0 exactly on datagrams with a complete header, the
  magic number, at most sixteen nodes and room for all of them, and an accepted message is
  well formed.
\<close>

lemma gossip_parse_spec:
  assumes "msg_ok out"
  shows "\<exists>out'. gossip_parse buf out = Ret (if gossip_accepts buf then 0 else -1, out') \<and>
    length (msg_nodes out') = GOSSIP_MSG_MAX_NODES \<and> (gossip_accepts buf \<longrightarrow> msg_ok out')"
proof (cases "gossip_accepts buf")
  case True
  then show ?thesis
    using gossip_parse_accept [OF True] parsed_msg_ok [OF True assms] assms by (simp add: msg_ok_def)
next
  case False
  then show ?thesis
    using gossip_parse_reject [OF False, of out] assms by (auto simp: msg_ok_def)
qed

text \<open>
  A PONG carries the sender's view of the cluster: the node that parses the datagram
  gets the header the sender filled in and the sender's first sixteen members, entry by
  entry, with only the local time stamp left out.
\<close>

lemma gossip_pong_roundtrip:
  assumes "length (n_id self) = NODE_ID_LEN" and "\<forall>n \<in> set nodes. length (n_id n) = NODE_ID_LEN"
    and "length (msg_nodes out) = GOSSIP_MSG_MAX_NODES"
  shows "\<exists>dgram rc out'. gossip_send_pong self nodes n = Ret (dgram, rc) \<and> gossip_parse dgram out = Ret (0, out') \<and>
    length dgram = HEADER_SIZE + min GOSSIP_MSG_MAX_NODES (length nodes) * NODE_SIZE \<and>
    g_type (hdr out') = GOSSIP_PONG \<and> g_sender_id (hdr out') = n_id self \<and>
    map gossip_node_to_cluster (take (unat (g_node_count (hdr out'))) (msg_nodes out')) =
      map (\<lambda>cn. cn\<lparr>n_last_seen := 0\<rparr>) (take GOSSIP_MSG_MAX_NODES nodes)"
proof -
  obtain m where m: "pong_msg self nodes = Ret m" "msg_ok m" "g_magic (hdr m) = GOSSIP_MAGIC"
    "hdr m = (hdr (fill_header GOSSIP_PONG self))\<lparr>g_node_count := of_nat (min GOSSIP_MSG_MAX_NODES (length nodes))\<rparr>"
    "unat (g_node_count (hdr m)) = min GOSSIP_MSG_MAX_NODES (length nodes)"
    "take (unat (g_node_count (hdr m))) (msg_nodes m) = map cluster_node_to_gossip (take GOSSIP_MSG_MAX_NODES nodes)"
    using pong_msg_eq [OF assms(1,2)] by blast
  obtain out' where out': "gossip_parse (fst (send_msg m n)) out = Ret (0, out')" "hdr out' = hdr m"
    "take (unat (g_node_count (hdr m))) (msg_nodes out') = take (unat (g_node_count (hdr m))) (msg_nodes m)"
    using parse_sent [OF m(2,3) _ assms(3)] m(5) by auto
  have "length (fst (send_msg m n)) = HEADER_SIZE + min GOSSIP_MSG_MAX_NODES (length nodes) * NODE_SIZE"
    using length_send_msg [OF m(2)] m(5) by simp
  with m out' show ?thesis
    by (cases "send_msg m n") (simp add: gossip_send_pong_def comp_def)
qed

end
