(* ===== verification/DSM_Cluster.thy ===== *)
theory DSM_Cluster
  imports DSM_Common DSM_Gossip
begin

section \<open>Cluster membership and forwarding (dsm\_cluster.c, dsm\_cluster.h)\<close>

text \<open>
  The membership table with its merge rule, the heartbeat that ages entries, the ownership
  of pages, the cached connections to other nodes and the forwarding of page requests over
  them. \<open>nodes\<close> holds the first \<open>node_count\<close> entries of the array of the same name. The
  read-write lock makes every critical section atomic, which is how the operations are
  modelled; the clock, \<open>getaddrinfo\<close>, \<open>socket\<close> and \<open>connect\<close> are arguments.
\<close>

subsection \<open>Definitions\<close>

definition CLUSTER_MAX_NODES :: nat where "CLUSTER_MAX_NODES = 64"

definition GOSSIP_FANOUT :: nat where "GOSSIP_FANOUT = 3"

definition NODE_STATE_ALIVE :: u8 where "NODE_STATE_ALIVE = 1"

definition NODE_STATE_SUSPECT :: u8 where "NODE_STATE_SUSPECT = 2"

definition NODE_STATE_DEAD :: u8 where "NODE_STATE_DEAD = 3"

record cluster_config =
  seed_addr :: "string option"
  seed_port :: u16
  cfg_node_id :: "string option"
  cluster_port :: u16
  heartbeat_ms :: u32
  gossip_ms :: u32
  timeout_ms :: u32
  page_range_start :: u32
  page_range_end :: u32

record cluster_state =
  nodes :: "cluster_node list"
  self_idx :: nat

record cluster_ctx =
  cl_cfg :: cluster_config
  cl_state :: cluster_state
  cl_self :: cluster_node
  udp_fd :: int
  cl_running :: bool
  peer_fds :: "int list"

paragraph \<open>Creating a context\<close>

text \<open>
  \<open>urandom\<close> is what reading sixteen bytes of \<open>/dev/urandom\<close> gives (\<open>None\<close> if it cannot be
  opened), \<open>rnd seed i\<close> the \<open>i\<close>-th value of \<open>rand\<close> after \<open>srand(seed)\<close>.
\<close>

definition generate_node_id :: "bytes option \<Rightarrow> u64 \<Rightarrow> u64 \<Rightarrow> (u32 \<Rightarrow> nat \<Rightarrow> u32) \<Rightarrow> bytes" where
  "generate_node_id urandom tv_sec tv_nsec rnd =
     (let fallback =
        (let seed = ucast (xor tv_sec tv_nsec); t = tv_sec * 1000000000 + tv_nsec
         in le_enc 8 (unat t) @ map (\<lambda>i. ucast (and (rnd seed i) 0xFF)) [0..<NODE_ID_LEN - 8])
      in case urandom of None \<Rightarrow> fallback | Some bs \<Rightarrow> if length bs = NODE_ID_LEN then bs else fallback)"

definition cluster_create ::
  "bool \<Rightarrow> bool \<Rightarrow> cluster_config \<Rightarrow> u32 \<Rightarrow> u16 \<Rightarrow> bytes \<Rightarrow> u64 \<Rightarrow> cluster_ctx option" where
  "cluster_create calloc_ok lock_ok cfg local_addr client_port generated now =
     (if \<not> calloc_ok then None
      else if \<not> lock_ok then None
      else let self_id =
             (case cfg_node_id cfg of
                Some s \<Rightarrow> mem_write (replicate NODE_ID_LEN 0) 0 (map of_char (take NODE_ID_LEN s))
              | None \<Rightarrow> generated);
             self = \<lparr>n_id = self_id, n_addr = local_addr, n_client_port = client_port,
               n_cluster_port = cluster_port cfg, n_range_start = page_range_start cfg,
               n_range_end = page_range_end cfg, n_last_seen = now, n_incarnation = 1,
               n_state = NODE_STATE_ALIVE\<rparr>
           in Some \<lparr>cl_cfg = cfg, cl_state = \<lparr>nodes = [self], self_idx = 0\<rparr>, cl_self = self, udp_fd = -1,
                    cl_running = False, peer_fds = replicate CLUSTER_MAX_NODES (-1)\<rparr>)"

paragraph \<open>Starting and stopping\<close>

text \<open>
  The results are the return value, the context and the descriptors closed on the way.
  \<open>sock\<close> is what \<open>socket\<close> returns.
\<close>

definition cluster_start :: "cluster_ctx \<Rightarrow> int \<Rightarrow> bool \<Rightarrow> bool \<Rightarrow> bool \<Rightarrow> int \<times> cluster_ctx \<times> int list" where
  "cluster_start ctx sock bind_ok gossip_ok heartbeat_ok =
     (let ctx = ctx\<lparr>udp_fd := sock\<rparr> in
      if udp_fd ctx < 0 then (-1, ctx, [])
      else if \<not> bind_ok then (-1, ctx\<lparr>udp_fd := -1\<rparr>, [udp_fd ctx])
      else let ctx = ctx\<lparr>cl_running := True\<rparr> in
        if \<not> gossip_ok then (-1, ctx\<lparr>cl_running := False, udp_fd := -1\<rparr>, [udp_fd ctx])
        else if \<not> heartbeat_ok then (-1, ctx\<lparr>cl_running := False, udp_fd := -1\<rparr>, [udp_fd ctx])
        else (0, ctx, []))"

definition cluster_stop :: "cluster_ctx \<Rightarrow> cluster_ctx" where
  "cluster_stop ctx = (if \<not> cl_running ctx then ctx else ctx\<lparr>cl_running := False\<rparr>)"

definition cluster_destroy :: "cluster_ctx \<Rightarrow> cluster_ctx \<times> int list" where
  "cluster_destroy ctx =
     (let ctx = cluster_stop ctx
      in (ctx, (if udp_fd ctx \<ge> 0 then [udp_fd ctx] else []) @ filter (\<lambda>fd. fd \<ge> 0) (peer_fds ctx)))"

paragraph \<open>Membership\<close>

fun find_node :: "nat \<Rightarrow> cluster_node list \<Rightarrow> bytes \<Rightarrow> nat option" where
  "find_node i [] nid = None"
| "find_node i (n # ns) nid = (if n_id n = nid then Some i else find_node (Suc i) ns nid)"

definition find_node_by_id :: "cluster_state \<Rightarrow> bytes \<Rightarrow> nat option" where
  "find_node_by_id s nid = find_node 0 (nodes s) nid"

definition merge_node :: "cluster_state \<Rightarrow> cluster_node \<Rightarrow> u64 \<Rightarrow> cluster_state" where
  "merge_node s node now =
     (case find_node_by_id s (n_id node) of
        Some i \<Rightarrow>
          (let existing = nodes s ! i in
           if n_incarnation node > n_incarnation existing
           then s\<lparr>nodes := (nodes s)[i := existing\<lparr>n_addr := n_addr node, n_client_port := n_client_port node,
                  n_cluster_port := n_cluster_port node, n_range_start := n_range_start node,
                  n_range_end := n_range_end node, n_incarnation := n_incarnation node,
                  n_state := n_state node, n_last_seen := now\<rparr>]\<rparr>
           else if n_incarnation node = n_incarnation existing
           then s\<lparr>nodes := (nodes s)[i := existing\<lparr>n_last_seen := now,
                  n_state := if n_state node = NODE_STATE_ALIVE then NODE_STATE_ALIVE else n_state existing\<rparr>]\<rparr>
           else s)
      | None \<Rightarrow>
          if length (nodes s) < CLUSTER_MAX_NODES
          then s\<lparr>nodes := nodes s @ [node\<lparr>n_last_seen := now\<rparr>]\<rparr> else s)"

fun merge_nodes :: "cluster_state \<Rightarrow> gossip_node_info list \<Rightarrow> (nat \<Rightarrow> u64) \<Rightarrow> nat \<Rightarrow> cluster_state" where
  "merge_nodes s [] clock i = s"
| "merge_nodes s (gn # gns) clock i =
     merge_nodes (merge_node s (gossip_node_to_cluster gn) (clock i)) gns clock (Suc i)"

text \<open>
  \<open>clock i\<close> is the time during the \<open>i\<close>-th merge. The second result is the reply handed to
  \<open>sendto\<close>, addressed to the sender; what \<open>sendto\<close> returns is not looked at.
\<close>

definition gossip_sender :: "gossip_header \<Rightarrow> u32 \<Rightarrow> u16 \<Rightarrow> cluster_node" where
  "gossip_sender h from_addr from_port =
     \<lparr>n_id = g_sender_id h, n_addr = from_addr, n_client_port = g_client_port h, n_cluster_port = from_port,
      n_range_start = g_range_start h, n_range_end = g_range_end h, n_last_seen = 0,
      n_incarnation = g_incarnation h, n_state = NODE_STATE_ALIVE\<rparr>"

definition handle_gossip_msg ::
  "cluster_ctx \<Rightarrow> gossip_msg \<Rightarrow> u32 \<Rightarrow> u16 \<Rightarrow> (nat \<Rightarrow> u64) \<Rightarrow> (cluster_ctx \<times> bytes option) outcome" where
  "handle_gossip_msg ctx msg from_addr from_port clock =
     (let count = unat (g_node_count (hdr msg));
          s = merge_node (cl_state ctx) (gossip_sender (hdr msg) from_addr from_port) (clock 0) in
      if count > length (msg_nodes msg) then Undef
      else let ctx = ctx\<lparr>cl_state := merge_nodes s (take count (msg_nodes msg)) clock 1\<rparr> in
      if g_type (hdr msg) = GOSSIP_PING \<or> g_type (hdr msg) = GOSSIP_JOIN
      then bind_oc (gossip_send_pong (cl_self ctx) (nodes (cl_state ctx)) 0) (\<lambda>(dgram, rc). Ret (ctx, Some dgram))
      else Ret (ctx, None))"

text \<open>
  One round of \<open>gossip_loop\<close> with the datagram \<open>recvfrom\<close> delivers, cut to the size of the
  buffer; \<open>junk\<close> is what the uninitialised message structure holds.
\<close>

definition gossip_recv ::
  "cluster_ctx \<Rightarrow> gossip_msg \<Rightarrow> bytes \<Rightarrow> u32 \<Rightarrow> u16 \<Rightarrow> (nat \<Rightarrow> u64) \<Rightarrow> (cluster_ctx \<times> bytes option) outcome" where
  "gossip_recv ctx junk dgram from_addr from_port clock =
     (let buf = take (HEADER_SIZE + GOSSIP_MSG_MAX_NODES * NODE_SIZE) dgram in
      if length buf > 0
      then bind_oc (gossip_parse buf junk) (\<lambda>(rc, msg).
           if rc = 0 then handle_gossip_msg ctx msg from_addr from_port clock else Ret (ctx, None))
      else Ret (ctx, None))"

paragraph \<open>Heartbeat\<close>

definition age_node :: "u32 \<Rightarrow> u64 \<Rightarrow> cluster_node \<Rightarrow> cluster_node" where
  "age_node timeout now n =
     (let elapsed = now - n_last_seen n in
      if n_state n = NODE_STATE_ALIVE \<and> elapsed > ucast (timeout div 2) then n\<lparr>n_state := NODE_STATE_SUSPECT\<rparr>
      else if n_state n = NODE_STATE_SUSPECT \<and> elapsed > ucast timeout then n\<lparr>n_state := NODE_STATE_DEAD\<rparr>
      else n)"

fun age_nodes :: "nat \<Rightarrow> nat \<Rightarrow> u32 \<Rightarrow> u64 \<Rightarrow> cluster_node list \<Rightarrow> cluster_node list" where
  "age_nodes self i timeout now [] = []"
| "age_nodes self i timeout now (n # ns) =
     (if i = self then n else age_node timeout now n) # age_nodes self (Suc i) timeout now ns"

fun ping_targets :: "nat \<Rightarrow> nat \<Rightarrow> nat \<Rightarrow> cluster_node list \<Rightarrow> cluster_node list" where
  "ping_targets self i sent [] = []"
| "ping_targets self i sent (n # ns) =
     (if \<not> sent < GOSSIP_FANOUT then []
      else if i = self then ping_targets self (Suc i) sent ns
      else if n_state n = NODE_STATE_DEAD then ping_targets self (Suc i) sent ns
      else n # ping_targets self (Suc i) (Suc sent) ns)"

text \<open>
  One round of \<open>heartbeat_loop\<close>: the new context, the new \<open>last_gossip\<close>, and the datagrams
  with the address and port each is sent to.
\<close>

definition heartbeat_tick ::
  "cluster_ctx \<Rightarrow> u64 \<Rightarrow> u64 \<Rightarrow> cluster_ctx \<times> u64 \<times> (u32 \<times> u16 \<times> bytes) list" where
  "heartbeat_tick ctx now last_gossip =
     (let s = cl_state ctx;
          s = s\<lparr>nodes := age_nodes (self_idx s) 0 (timeout_ms (cl_cfg ctx)) now (nodes s)\<rparr>;
          ctx = ctx\<lparr>cl_state := s\<rparr> in
      if now - last_gossip \<ge> ucast (gossip_ms (cl_cfg ctx))
      then (ctx, now, map (\<lambda>n. (n_addr n, n_cluster_port n, fst (gossip_send_ping (cl_self ctx) 0)))
                        (ping_targets (self_idx s) 0 0 (nodes s)))
      else (ctx, last_gossip, []))"

paragraph \<open>Joining\<close>

text \<open>
  \<open>seed\<close> is the address \<open>getaddrinfo\<close> finds, \<open>counts i\<close> the number of members at the \<open>i\<close>-th of
  the ten polls.
\<close>

fun join_poll :: "nat \<Rightarrow> (nat \<Rightarrow> nat) \<Rightarrow> nat \<Rightarrow> nat" where
  "join_poll 0 counts count = count"
| "join_poll (Suc k) counts count =
     (let count = counts (10 - Suc k) in if count > 1 then count else join_poll k counts count)"

definition cluster_join ::
  "cluster_ctx \<Rightarrow> (u32 \<times> u16) option \<Rightarrow> (nat \<Rightarrow> nat) \<Rightarrow> (int \<times> ((u32 \<times> u16) \<times> bytes) option) outcome" where
  "cluster_join ctx seed counts =
     (if seed_addr (cl_cfg ctx) = None then Ret (0, None)
      else case seed of None \<Rightarrow> Ret (-1, None)
      | Some dest \<Rightarrow>
          bind_oc (gossip_send_join (cl_self ctx) 0) (\<lambda>(dgram, rc).
          Ret (if join_poll 10 counts 0 > 1 then 0 else -1, Some (dest, dgram))))"

paragraph \<open>Ownership\<close>

definition covers :: "cluster_node \<Rightarrow> u32 \<Rightarrow> bool" where
  "covers n pid \<longleftrightarrow> n_state n \<noteq> NODE_STATE_DEAD \<and> pid \<ge> n_range_start n \<and> pid < n_range_end n"

fun first_owner :: "cluster_node list \<Rightarrow> u32 \<Rightarrow> cluster_node option" where
  "first_owner [] pid = None"
| "first_owner (n # ns) pid = (if covers n pid then Some n else first_owner ns pid)"

definition cluster_get_owner :: "cluster_ctx \<Rightarrow> u32 \<Rightarrow> cluster_node option" where
  "cluster_get_owner ctx pid = first_owner (nodes (cl_state ctx)) pid"

definition cluster_is_local :: "cluster_ctx \<Rightarrow> u32 \<Rightarrow> bool" where
  "cluster_is_local ctx pid \<longleftrightarrow> pid \<ge> n_range_start (cl_self ctx) \<and> pid < n_range_end (cl_self ctx)"

paragraph \<open>Forwarding\<close>

text \<open>
  The part of the kernel that forwarding uses: \<open>conns fd\<close> is the connection behind a
  descriptor, and \<open>dial k addr port\<close> how the \<open>k\<close>-th attempt to connect ends.
\<close>

datatype 's dial_ans = No_socket | Refused | Connected int "'s net"

record 's os =
  conns :: "int \<Rightarrow> 's net"
  dial :: "nat \<Rightarrow> u32 \<Rightarrow> u16 \<Rightarrow> 's dial_ans"
  dials :: nat

definition get_peer_connection ::
  "cluster_ctx \<Rightarrow> cluster_node \<Rightarrow> 's os \<Rightarrow> (int \<times> cluster_ctx \<times> 's os) outcome" where
  "get_peer_connection ctx node os =
     (case find_node_by_id (cl_state ctx) (n_id node) of
        None \<Rightarrow> Ret (-1, ctx, os)
      | Some i \<Rightarrow> bind_oc (idx (peer_fds ctx) i) (\<lambda>fd.
          if fd \<ge> 0 then Ret (fd, ctx, os)
          else let ans = dial os (dials os) (n_addr node) (n_client_port node);
                   os = os\<lparr>dials := Suc (dials os)\<rparr>
               in case ans of
                    No_socket \<Rightarrow> Ret (-1, ctx, os)
                  | Refused \<Rightarrow> Ret (-1, ctx, os)
                  | Connected fd w \<Rightarrow>
                      Ret (fd, ctx\<lparr>peer_fds := (peer_fds ctx)[i := fd]\<rparr>, os\<lparr>conns := (conns os)(fd := w)\<rparr>)))"

definition cluster_forward_get ::
  "'s peer \<Rightarrow> cluster_ctx \<Rightarrow> u32 \<Rightarrow> 's os \<Rightarrow> (int \<times> bytes \<times> cluster_ctx \<times> 's os) outcome" where
  "cluster_forward_get peer ctx pid os =
     (case cluster_get_owner ctx pid of
        None \<Rightarrow> Ret (-1, [], ctx, os)
      | Some owner \<Rightarrow> bind_oc (get_peer_connection ctx owner os) (\<lambda>(fd, ctx, os).
          if fd < 0 then Ret (-1, [], ctx, os)
          else bind_oc (dsm_rpc_get peer fd pid (conns os fd)) (\<lambda>(rc, buf, w).
               Ret (rc, buf, ctx, os\<lparr>conns := (conns os)(fd := w)\<rparr>))))"

definition cluster_forward_put ::
  "'s peer \<Rightarrow> cluster_ctx \<Rightarrow> u32 \<Rightarrow> bytes \<Rightarrow> 's os \<Rightarrow> (int \<times> cluster_ctx \<times> 's os) outcome" where
  "cluster_forward_put peer ctx pid buf os =
     (case cluster_get_owner ctx pid of
        None \<Rightarrow> Ret (-1, ctx, os)
      | Some owner \<Rightarrow> bind_oc (get_peer_connection ctx owner os) (\<lambda>(fd, ctx, os).
          if fd < 0 then Ret (-1, ctx, os)
          else bind_oc (dsm_rpc_put peer fd pid buf (conns os fd)) (\<lambda>(rc, w).
               Ret (rc, ctx, os\<lparr>conns := (conns os)(fd := w)\<rparr>))))"

paragraph \<open>Well-formed membership tables\<close>

definition table_ok :: "cluster_state \<Rightarrow> bool" where
  "table_ok s \<longleftrightarrow> distinct (map n_id (nodes s)) \<and> (\<forall>n \<in> set (nodes s). length (n_id n) = NODE_ID_LEN) \<and>
     length (nodes s) \<le> CLUSTER_MAX_NODES \<and> self_idx s < length (nodes s)"

definition ctx_ok :: "cluster_ctx \<Rightarrow> bool" where
  "ctx_ok ctx \<longleftrightarrow> table_ok (cl_state ctx) \<and> length (n_id (cl_self ctx)) = NODE_ID_LEN \<and>
     n_id (nodes (cl_state ctx) ! self_idx (cl_state ctx)) = n_id (cl_self ctx) \<and>
     length (peer_fds ctx) = CLUSTER_MAX_NODES"

text \<open>
  \<open>grows s s'\<close>: every member keeps its place in the table and no incarnation number goes
  down. The place matters: \<open>peer_fds\<close> is indexed by it.
\<close>

definition grows :: "cluster_state \<Rightarrow> cluster_state \<Rightarrow> bool" where
  "grows s s' \<longleftrightarrow> length (nodes s) \<le> length (nodes s') \<and> self_idx s' = self_idx s \<and>
     (\<forall>i < length (nodes s). n_id (nodes s' ! i) = n_id (nodes s ! i) \<and>
        n_incarnation (nodes s ! i) \<le> n_incarnation (nodes s' ! i))"

text \<open>The members a node knows, by their ids.\<close>

definition known :: "cluster_state \<Rightarrow> bytes set" where
  "known s = n_id ` set (nodes s)"

text \<open>What a step keeps, and what it lets grow.\<close>

definition ctx_grows :: "cluster_ctx \<Rightarrow> cluster_ctx \<Rightarrow> bool" where
  "ctx_grows ctx ctx' \<longleftrightarrow> grows (cl_state ctx) (cl_state ctx') \<and> cl_self ctx' = cl_self ctx \<and> cl_cfg ctx' = cl_cfg ctx \<and>
     (\<forall>i < length (peer_fds ctx). peer_fds ctx ! i \<ge> 0 \<longrightarrow> peer_fds ctx' ! i = peer_fds ctx ! i)"

text \<open>Steps of a running node: a datagram arrives, a heartbeat passes, a peer is dialled.\<close>

inductive cluster_step :: "cluster_ctx \<times> 's os \<Rightarrow> cluster_ctx \<times> 's os \<Rightarrow> bool" where
  recv: "msg_ok junk \<Longrightarrow> gossip_recv ctx junk dgram from_addr from_port clock = Ret (ctx', reply) \<Longrightarrow>
    cluster_step (ctx, os) (ctx', os)"
| tick: "heartbeat_tick ctx now last_gossip = (ctx', last_gossip', pings) \<Longrightarrow> cluster_step (ctx, os) (ctx', os)"
| connect: "get_peer_connection ctx n os = Ret (fd, ctx', os') \<Longrightarrow> cluster_step (ctx, os) (ctx', os')"

paragraph \<open>Where a request for a page is sent\<close>

text \<open>
  \<open>link_of ctx os i\<close> is the connection to member \<open>i\<close>, the cached one or the one dialling
  gives; \<open>route ctx os pid\<close> the connection to the owner of a page. \<open>links_ok\<close>: dialling gives
  the same answer whenever it is done, and no two members share a descriptor.
\<close>

definition link_of :: "cluster_ctx \<Rightarrow> 's os \<Rightarrow> nat \<Rightarrow> (int \<times> 's net) option" where
  "link_of ctx os i =
     (if peer_fds ctx ! i \<ge> 0 then Some (peer_fds ctx ! i, conns os (peer_fds ctx ! i))
      else case dial os (dials os) (n_addr (nodes (cl_state ctx) ! i)) (n_client_port (nodes (cl_state ctx) ! i)) of
             Connected fd w \<Rightarrow> if fd \<ge> 0 then Some (fd, w) else None
           | _ \<Rightarrow> None)"

definition route :: "cluster_ctx \<Rightarrow> 's os \<Rightarrow> u32 \<Rightarrow> (nat \<times> int \<times> 's net) option" where
  "route ctx os pid =
     (case cluster_get_owner ctx pid of None \<Rightarrow> None
      | Some n \<Rightarrow>
          (case find_node_by_id (cl_state ctx) (n_id n) of None \<Rightarrow> None
           | Some i \<Rightarrow> (case link_of ctx os i of None \<Rightarrow> None | Some (fd, w) \<Rightarrow> Some (i, fd, w))))"

definition links_ok :: "cluster_ctx \<Rightarrow> 's os \<Rightarrow> bool" where
  "links_ok ctx os \<longleftrightarrow> ctx_ok ctx \<and> (\<forall>k a p. dial os k a p = dial os (dials os) a p) \<and>
     (\<forall>i j fd w fd' w'. i < length (nodes (cl_state ctx)) \<longrightarrow> j < length (nodes (cl_state ctx)) \<longrightarrow> i \<noteq> j \<longrightarrow>
        link_of ctx os i = Some (fd, w) \<longrightarrow> link_of ctx os j = Some (fd', w') \<longrightarrow> fd \<noteq> fd')"

definition relink :: "nat \<Rightarrow> 's net \<Rightarrow> (nat \<times> int \<times> 's net) option \<Rightarrow> (nat \<times> int \<times> 's net) option" where
  "relink i w = map_option (\<lambda>(j, fd, w0). (j, fd, if j = i then w else w0))"

paragraph \<open>Small clusters\<close>

text \<open>Nodes told apart by the byte their id repeats, and the context of node \<open>b\<close> that knows \<open>ns\<close>.\<close>

definition sample_node :: "u8 \<Rightarrow> cluster_node" where
  "sample_node b = \<lparr>n_id = replicate NODE_ID_LEN b, n_addr = ucast b, n_client_port = 5555, n_cluster_port = 5556,
     n_range_start = ucast b, n_range_end = ucast b + 1, n_last_seen = 1000, n_incarnation = 1,
     n_state = NODE_STATE_ALIVE\<rparr>"

definition sample_ctx :: "u8 \<Rightarrow> u8 list \<Rightarrow> cluster_ctx" where
  "sample_ctx b ns =
     \<lparr>cl_cfg = \<lparr>seed_addr = None, seed_port = 5556, cfg_node_id = None, cluster_port = 5556, heartbeat_ms = 1000,
        gossip_ms = 500, timeout_ms = 5000, page_range_start = ucast b, page_range_end = ucast b + 1\<rparr>,
      cl_state = \<lparr>nodes = map sample_node (b # ns), self_idx = 0\<rparr>, cl_self = sample_node b, udp_fd = 3,
      cl_running = True, peer_fds = replicate CLUSTER_MAX_NODES (-1)\<rparr>"

subsection \<open>Looking up and merging members\<close>

lemma find_node_Some:
  "find_node i ns nid = Some j \<Longrightarrow> i \<le> j \<and> j - i < length ns \<and> n_id (ns ! (j - i)) = nid"
proof (induction i ns nid rule: find_node.induct)
  case (2 i n ns nid)
  show ?case
  proof (cases "n_id n = nid")
    case False
    then have "Suc i \<le> j \<and> j - Suc i < length ns \<and> n_id (ns ! (j - Suc i)) = nid"
      using 2 by simp
    moreover from this obtain k where "j = Suc i + k"
      using le_Suc_ex by blast
    ultimately show ?thesis by simp
  qed (use 2 in simp)
qed simp

lemma find_node_None: "find_node i ns nid = None \<longleftrightarrow> nid \<notin> n_id ` set ns"
  by (induction i ns nid rule: find_node.induct) auto

lemma find_node_by_id_Some:
  assumes "find_node_by_id s nid = Some i"
  shows "i < length (nodes s)" and "n_id (nodes s ! i) = nid"
  using find_node_Some [of 0 "nodes s" nid i] assms by (simp_all add: find_node_by_id_def)

lemma find_node_by_id_nth:
  assumes "table_ok s" and "i < length (nodes s)"
  shows "find_node_by_id s (n_id (nodes s ! i)) = Some i"
proof (cases "find_node_by_id s (n_id (nodes s ! i))")
  case None
  then show ?thesis
    using assms(2) by (auto simp: find_node_by_id_def find_node_None)
next
  case (Some j)
  then have "j < length (nodes s)" "n_id (nodes s ! j) = n_id (nodes s ! i)"
    by (simp_all add: find_node_by_id_Some)
  then have "j = i"
    using assms by (simp add: table_ok_def distinct_conv_nth) metis
  with Some show ?thesis by simp
qed

lemma merge_node_cases:
  assumes "length (n_id node) = NODE_ID_LEN" and "table_ok s"
  shows "table_ok (merge_node s node now)" and "grows s (merge_node s node now)"
proof -
  note d = merge_node_def Let_def
  have "table_ok (merge_node s node now) \<and> grows s (merge_node s node now)"
  proof (cases "find_node_by_id s (n_id node)")
    case None
    then have "n_id node \<notin> n_id ` set (nodes s)"
      by (simp add: find_node_by_id_def find_node_None)
    with None assms show ?thesis
      by (auto simp: d table_ok_def grows_def nth_append)
  next
    case (Some i)
    note i = find_node_by_id_Some [OF Some]
    have up: "table_ok (s\<lparr>nodes := (nodes s)[i := n]\<rparr>) \<and> grows s (s\<lparr>nodes := (nodes s)[i := n]\<rparr>)"
      if "n_id n = n_id (nodes s ! i)" "n_incarnation (nodes s ! i) \<le> n_incarnation n" for n
    proof -
      have "map n_id ((nodes s)[i := n]) = map n_id (nodes s)"
        using that(1) i(1) by (simp add: map_update) (metis length_map list_update_id nth_map)
      moreover have "length (n_id n) = NODE_ID_LEN"
        using that(1) i assms(1) by simp
      ultimately show ?thesis
        using assms(2) that i(1) by (auto simp: table_ok_def grows_def nth_list_update dest!: set_update_subset_insert [THEN subsetD])
    qed
    show ?thesis
      using up i assms(2) by (auto simp: d Some grows_def)
  qed
  then show "table_ok (merge_node s node now)" and "grows s (merge_node s node now)"
    by simp_all
qed

lemma grows_refl [simp]: "grows s s"
  by (simp add: grows_def)

lemma grows_trans:
  assumes "grows s s'" and "grows s' s''"
  shows "grows s s''"
proof -
  have "n_id (nodes s'' ! i) = n_id (nodes s ! i) \<and> n_incarnation (nodes s ! i) \<le> n_incarnation (nodes s'' ! i)"
    if "i < length (nodes s)" for i
  proof -
    have "i < length (nodes s')" using that assms(1) by (simp add: grows_def)
    then have "n_id (nodes s'' ! i) = n_id (nodes s' ! i)" "n_incarnation (nodes s' ! i) \<le> n_incarnation (nodes s'' ! i)"
      "n_id (nodes s' ! i) = n_id (nodes s ! i)" "n_incarnation (nodes s ! i) \<le> n_incarnation (nodes s' ! i)"
      using that assms by (simp_all add: grows_def)
    then show ?thesis by simp
  qed
  with assms show ?thesis by (simp add: grows_def)
qed

lemma merge_nodes_ok:
  "table_ok s \<Longrightarrow> \<forall>g \<in> set gns. node_info_ok g \<Longrightarrow>
     table_ok (merge_nodes s gns clock i) \<and> grows s (merge_nodes s gns clock i)"
proof (induction s gns clock i rule: merge_nodes.induct)
  case (2 s gn gns clock i)
  then have "length (n_id (gossip_node_to_cluster gn)) = NODE_ID_LEN"
    by (simp add: gossip_node_to_cluster_def node_info_ok_def)
  from merge_node_cases [OF this 2(2), of "clock i"] 2 show ?case
    by (auto intro: grows_trans)
qed simp

lemma grows_self:
  "table_ok s \<Longrightarrow> grows s s' \<Longrightarrow> n_id (nodes s' ! self_idx s') = n_id (nodes s ! self_idx s)"
  by (simp add: grows_def table_ok_def)

lemma handle_gossip_msg_ok:
  assumes ctx: "ctx_ok ctx" and msg: "msg_ok msg" "unat (g_node_count (hdr msg)) \<le> GOSSIP_MSG_MAX_NODES"
  shows "\<exists>s reply. handle_gossip_msg ctx msg a p clock = Ret (ctx\<lparr>cl_state := s\<rparr>, reply) \<and>
    table_ok s \<and> grows (cl_state ctx) s \<and>
    (reply = None \<longleftrightarrow> g_type (hdr msg) \<noteq> GOSSIP_PING \<and> g_type (hdr msg) \<noteq> GOSSIP_JOIN)"
proof -
  let ?n = "unat (g_node_count (hdr msg))"
  let ?s = "merge_node (cl_state ctx) (gossip_sender (hdr msg) a p) (clock 0)"
  let ?s' = "merge_nodes ?s (take ?n (msg_nodes msg)) clock 1"
  have "length (n_id (gossip_sender (hdr msg) a p)) = NODE_ID_LEN"
    using msg(1) by (simp add: gossip_sender_def msg_ok_def header_ok_def)
  then have s: "table_ok ?s" "grows (cl_state ctx) ?s"
    using merge_node_cases ctx by (simp_all add: ctx_ok_def)
  have "\<forall>g \<in> set (take ?n (msg_nodes msg)). node_info_ok g"
    using msg(1) by (auto simp: msg_ok_def dest: in_set_takeD)
  from merge_nodes_ok [OF s(1) this] s(2) have s': "table_ok ?s'" "grows (cl_state ctx) ?s'"
    using grows_trans by blast+
  have "\<exists>dgram rc. gossip_send_pong (cl_self ctx) (nodes ?s') 0 = Ret (dgram, rc)"
    using pong_msg_eq [of "cl_self ctx" "nodes ?s'"] ctx s'(1)
    by (auto simp: ctx_ok_def table_ok_def gossip_send_pong_def)
  with s' msg show ?thesis
    by (auto simp: handle_gossip_msg_def Let_def msg_ok_def)
qed

lemma gossip_recv_ok:
  assumes ctx: "ctx_ok ctx" and junk: "msg_ok junk"
  shows "\<exists>s reply. gossip_recv ctx junk dgram a p clock = Ret (ctx\<lparr>cl_state := s\<rparr>, reply) \<and>
    table_ok s \<and> grows (cl_state ctx) s"
proof -
  let ?buf = "take (HEADER_SIZE + GOSSIP_MSG_MAX_NODES * NODE_SIZE) dgram"
  have id: "ctx\<lparr>cl_state := cl_state ctx\<rparr> = ctx" by simp
  have keep: "\<exists>s reply. Ret (ctx, None) = Ret (ctx\<lparr>cl_state := s\<rparr>, reply :: bytes option) \<and> table_ok s \<and>
      grows (cl_state ctx) s"
    using ctx id by (intro exI [of _ "cl_state ctx"]) (auto simp: ctx_ok_def)
  show ?thesis
  proof (cases "gossip_accepts ?buf")
    case True
    let ?m = "parsed_msg ?buf junk"
    have m: "gossip_parse ?buf junk = Ret (0, ?m)" "msg_ok ?m"
      using gossip_parse_accept [OF True] parsed_msg_ok [OF True junk] junk by (simp_all add: msg_ok_def)
    have "hdr ?m = gossip_header_of_bytes (mem_read ?buf 0 HEADER_SIZE)"
      by (simp add: parsed_msg_def Let_def)
    with True have "unat (g_node_count (hdr ?m)) \<le> GOSSIP_MSG_MAX_NODES" "?buf \<noteq> []"
      by (auto simp: gossip_accepts_def Let_def HEADER_SIZE_def)
    moreover from this have "gossip_recv ctx junk dgram a p clock = handle_gossip_msg ctx ?m a p clock"
      using m(1) by (simp add: gossip_recv_def Let_def)
    ultimately show ?thesis
      using handle_gossip_msg_ok [OF ctx m(2), of a p clock] by metis
  next
    case False
    then obtain out where "gossip_parse ?buf junk = Ret (-1, out)"
      using gossip_parse_reject by blast
    with keep show ?thesis
      by (simp add: gossip_recv_def Let_def)
  qed
qed

subsection \<open>Heartbeats\<close>

lemma age_nodes_eq:
  "age_nodes self i timeout now ns = map (\<lambda>(j, n). if j = self then n else age_node timeout now n) (enumerate i ns)"
  by (induction ns arbitrary: i) simp_all

lemma length_age_nodes [simp]: "length (age_nodes self i timeout now ns) = length ns"
  by (simp add: age_nodes_eq)

lemma nth_age_nodes:
  "j < length ns \<Longrightarrow> age_nodes self 0 timeout now ns ! j = (if j = self then ns ! j else age_node timeout now (ns ! j))"
  by (simp add: age_nodes_eq nth_enumerate_eq)

lemma age_node_id [simp]:
  "n_id (age_node timeout now n) = n_id n" "n_incarnation (age_node timeout now n) = n_incarnation n"
  "n_last_seen (age_node timeout now n) = n_last_seen n"
  by (simp_all add: age_node_def Let_def)

lemma map_id_age_nodes [simp]: "map n_id (age_nodes self i timeout now ns) = map n_id ns"
  by (induction ns arbitrary: i) simp_all

lemma age_nodes_member: "n \<in> set (age_nodes self i timeout now ns) \<Longrightarrow> \<exists>m \<in> set ns. n_id n = n_id m"
  by (induction ns arbitrary: i) (auto split: if_splits)

text \<open>The heartbeat's targets are the first three live members other than the node itself.\<close>

lemma ping_targets_eq:
  "ping_targets self i sent ns = take (GOSSIP_FANOUT - sent)
     (map snd (filter (\<lambda>(j, n). j \<noteq> self \<and> n_state n \<noteq> NODE_STATE_DEAD) (enumerate i ns)))"
proof (induction ns arbitrary: i sent)
  case (Cons n ns)
  show ?case
  proof (cases "sent < GOSSIP_FANOUT")
    case True
    then obtain k where "GOSSIP_FANOUT - sent = Suc k" "GOSSIP_FANOUT - Suc sent = k"
      by (metis Suc_diff_Suc)
    with True Cons show ?thesis by simp
  qed simp
qed simp

lemma heartbeat_tick_eq:
  "fst (heartbeat_tick ctx now lg) = ctx\<lparr>cl_state := (cl_state ctx)\<lparr>nodes :=
     age_nodes (self_idx (cl_state ctx)) 0 (timeout_ms (cl_cfg ctx)) now (nodes (cl_state ctx))\<rparr>\<rparr>"
  by (simp add: heartbeat_tick_def Let_def)

lemma heartbeat_tick_ok:
  assumes "ctx_ok ctx"
  shows "table_ok (cl_state (fst (heartbeat_tick ctx now lg)))"
    and "grows (cl_state ctx) (cl_state (fst (heartbeat_tick ctx now lg)))"
proof -
  show "table_ok (cl_state (fst (heartbeat_tick ctx now lg)))"
    using assms by (auto simp: heartbeat_tick_eq ctx_ok_def table_ok_def dest!: age_nodes_member)
  show "grows (cl_state ctx) (cl_state (fst (heartbeat_tick ctx now lg)))"
    by (simp add: heartbeat_tick_eq grows_def nth_age_nodes)
qed

subsection \<open>Reachable contexts\<close>

lemma get_peer_connection_ctx:
  assumes "get_peer_connection ctx n os = Ret (fd, ctx', os')"
  shows "\<exists>fds. ctx' = ctx\<lparr>peer_fds := fds\<rparr> \<and> length fds = length (peer_fds ctx) \<and>
    (\<forall>i < length fds. peer_fds ctx ! i \<ge> 0 \<longrightarrow> fds ! i = peer_fds ctx ! i)"
proof (cases "find_node_by_id (cl_state ctx) (n_id n)")
  case None
  with assms show ?thesis
    by (auto simp: get_peer_connection_def intro!: exI [of _ "peer_fds ctx"])
next
  case (Some i)
  show ?thesis
  proof (cases "i < length (peer_fds ctx) \<and> peer_fds ctx ! i < 0")
    case True
    then have "ctx' = ctx \<or> (\<exists>fd. ctx' = ctx\<lparr>peer_fds := (peer_fds ctx)[i := fd]\<rparr>)"
      using assms Some by (auto simp: get_peer_connection_def Let_def split: dial_ans.splits)
    then show ?thesis
    proof (elim disjE exE)
      assume "ctx' = ctx"
      then show ?thesis by (intro exI [of _ "peer_fds ctx"]) simp
    next
      fix fd assume "ctx' = ctx\<lparr>peer_fds := (peer_fds ctx)[i := fd]\<rparr>"
      with True show ?thesis by (intro exI [of _ "(peer_fds ctx)[i := fd]"]) (auto simp: nth_list_update)
    qed
  next
    case False
    with assms Some show ?thesis
      by (auto simp: get_peer_connection_def idx_def intro!: exI [of _ "peer_fds ctx"] split: if_splits)
  qed
qed

lemma cluster_step_ok:
  assumes "cluster_step x y" and "ctx_ok (fst x)"
  shows "ctx_ok (fst y) \<and> ctx_grows (fst x) (fst y)"
  using assms
proof (induction rule: cluster_step.induct)
  case (recv junk ctx dgram a p clock ctx' reply os)
  then have ok: "ctx_ok ctx" by simp
  from gossip_recv_ok [OF ok recv(1), of dgram a p clock] recv(2) obtain s
    where "ctx' = ctx\<lparr>cl_state := s\<rparr>" "table_ok s" "grows (cl_state ctx) s"
    by auto
  with ok grows_self [of "cl_state ctx" s] show ?case
    by (simp add: ctx_ok_def ctx_grows_def)
next
  case (tick ctx now lg ctx' lg' pings os)
  then have ok: "ctx_ok ctx" and eq: "ctx' = fst (heartbeat_tick ctx now lg)" by simp_all
  have "n_id (nodes (cl_state ctx') ! self_idx (cl_state ctx')) = n_id (nodes (cl_state ctx) ! self_idx (cl_state ctx))"
    using ok heartbeat_tick_ok(2) [OF ok, of now lg] by (intro grows_self) (simp_all add: eq ctx_ok_def)
  moreover have "cl_self ctx' = cl_self ctx \<and> cl_cfg ctx' = cl_cfg ctx \<and> peer_fds ctx' = peer_fds ctx"
    by (simp add: eq heartbeat_tick_eq)
  ultimately show ?case
    using ok heartbeat_tick_ok [OF ok, of now lg] by (simp add: ctx_ok_def ctx_grows_def eq)
next
  case (connect ctx n os fd ctx' os')
  with get_peer_connection_ctx [OF connect(1)] show ?case
    by (auto simp: ctx_ok_def ctx_grows_def)
qed

lemma ctx_grows_trans:
  assumes "ctx_grows x y" and "ctx_grows y z" and "length (peer_fds x) = length (peer_fds y)"
  shows "ctx_grows x z"
  using assms grows_trans by (auto simp: ctx_grows_def)

lemma cluster_steps_ok:
  assumes "cluster_step\<^sup>*\<^sup>* x y" and "ctx_ok (fst x)"
  shows "ctx_ok (fst y) \<and> ctx_grows (fst x) (fst y)"
  using assms
proof (induction rule: rtranclp_induct)
  case base
  then show ?case by (simp add: ctx_grows_def)
next
  case (step y z)
  then have "ctx_ok (fst y)" "ctx_grows (fst x) (fst y)" by simp_all
  moreover from this(1) have "ctx_ok (fst z)" "ctx_grows (fst y) (fst z)"
    using cluster_step_ok [OF step.hyps(2)] by simp_all
  ultimately show ?case
    using step.prems ctx_grows_trans by (fastforce simp: ctx_ok_def)
qed

lemma cluster_create_ok:
  assumes "cluster_create a b cfg addr port gen now = Some ctx" and "length gen = NODE_ID_LEN"
  shows "ctx_ok ctx"
  using assms
  by (auto simp: cluster_create_def Let_def ctx_ok_def table_ok_def length_mem_write gossip_consts CLUSTER_MAX_NODES_def
      split: if_splits option.splits)

subsection \<open>Ownership and forwarding\<close>

lemma first_owner_Some:
  "first_owner ns pid = Some n \<Longrightarrow> \<exists>i < length ns. n = ns ! i \<and> covers n pid \<and> (\<forall>j < i. \<not> covers (ns ! j) pid)"
proof (induction ns pid rule: first_owner.induct)
  case (2 m ns pid)
  show ?case
  proof (cases "covers m pid")
    case False
    with 2 obtain i where "i < length ns" "n = ns ! i" "covers n pid" "\<forall>j < i. \<not> covers (ns ! j) pid"
      by auto
    with False show ?thesis
      by (intro exI [of _ "Suc i"]) (auto simp: less_Suc_eq_0_disj)
  qed (use 2 in auto)
qed simp

lemma first_owner_None: "first_owner ns pid = None \<longleftrightarrow> (\<forall>n \<in> set ns. \<not> covers n pid)"
  by (induction ns pid rule: first_owner.induct) auto

lemma link_of_fd: "link_of ctx os i = Some (fd, w) \<Longrightarrow> 0 \<le> fd"
  by (auto simp: link_of_def split: if_splits dial_ans.splits)

lemma link_of_cached: "0 \<le> peer_fds ctx ! i \<Longrightarrow> link_of ctx os i = Some (peer_fds ctx ! i, conns os (peer_fds ctx ! i))"
  by (simp add: link_of_def)

lemma links_ok_distinct:
  "links_ok ctx os \<Longrightarrow> i < length (nodes (cl_state ctx)) \<Longrightarrow> j < length (nodes (cl_state ctx)) \<Longrightarrow> i \<noteq> j \<Longrightarrow>
     link_of ctx os i = Some (fd, w) \<Longrightarrow> link_of ctx os j = Some (fd', w') \<Longrightarrow> fd \<noteq> fd'"
  unfolding links_ok_def by blast

lemma links_ok_dial: "links_ok ctx os \<Longrightarrow> dial os k a p = dial os k' a p"
  unfolding links_ok_def by metis

lemma links_ok_peer_fds: "links_ok ctx os \<Longrightarrow> i < length (nodes (cl_state ctx)) \<Longrightarrow> i < length (peer_fds ctx)"
  unfolding links_ok_def by (simp add: ctx_ok_def table_ok_def)

lemma route_Some:
  assumes ok: "table_ok (cl_state ctx)" and r: "route ctx os pid = Some (i, fd, w)"
  shows "cluster_get_owner ctx pid = Some (nodes (cl_state ctx) ! i)" and "i < length (nodes (cl_state ctx))"
    and "link_of ctx os i = Some (fd, w)" and "0 \<le> fd"
proof -
  from r obtain n where n: "cluster_get_owner ctx pid = Some n" "find_node_by_id (cl_state ctx) (n_id n) = Some i"
    and l: "link_of ctx os i = Some (fd, w)"
    by (auto simp: route_def split: option.splits)
  from first_owner_Some [OF n(1) [unfolded cluster_get_owner_def]]
  obtain k where k: "k < length (nodes (cl_state ctx))" "n = nodes (cl_state ctx) ! k"
    by blast
  with n(2) find_node_by_id_nth [OF ok k(1)] have "i = k" by simp
  with n k l show "cluster_get_owner ctx pid = Some (nodes (cl_state ctx) ! i)" "i < length (nodes (cl_state ctx))"
    "link_of ctx os i = Some (fd, w)"
    by simp_all
  from l show "0 \<le> fd" by (rule link_of_fd)
qed

lemma get_peer_connection_link:
  assumes ok: "links_ok ctx os" and i: "i < length (nodes (cl_state ctx))" and l: "link_of ctx os i = Some (fd, w)"
  shows "\<exists>ctx' os'. get_peer_connection ctx (nodes (cl_state ctx) ! i) os = Ret (fd, ctx', os') \<and>
    ctx' = ctx\<lparr>peer_fds := (peer_fds ctx)[i := fd]\<rparr> \<and> conns os' fd = w \<and>
    dial os' = dial os \<and> (\<forall>g. g \<noteq> fd \<longrightarrow> conns os' g = conns os g)"
proof -
  have find: "find_node_by_id (cl_state ctx) (n_id (nodes (cl_state ctx) ! i)) = Some i"
    using ok i by (simp add: links_ok_def ctx_ok_def find_node_by_id_nth)
  note len = links_ok_peer_fds [OF ok i]
  show ?thesis
  proof (cases "peer_fds ctx ! i \<ge> 0")
    case True
    with l have "fd = peer_fds ctx ! i" "w = conns os fd" by (auto simp: link_of_def)
    with True len find show ?thesis
      by (simp add: get_peer_connection_def)
  next
    case False
    with l have "dial os (dials os) (n_addr (nodes (cl_state ctx) ! i)) (n_client_port (nodes (cl_state ctx) ! i))
        = Connected fd w"
      by (auto simp: link_of_def split: dial_ans.splits if_splits)
    with False len find show ?thesis
      by (simp add: get_peer_connection_def Let_def)
  qed
qed

text \<open>The descriptor is now cached, and only the owner's connection has moved on.\<close>

lemma relink_route:
  assumes ok: "links_ok ctx os" and i: "i < length (nodes (cl_state ctx))" and l: "link_of ctx os i = Some (fd, w)"
    and os': "dial os' = dial os" "\<forall>g. g \<noteq> fd \<longrightarrow> conns os' g = conns os g" "conns os' fd = w'"
  shows "links_ok (ctx\<lparr>peer_fds := (peer_fds ctx)[i := fd]\<rparr>) os'" (is "links_ok ?ctx os'")
    and "route (ctx\<lparr>peer_fds := (peer_fds ctx)[i := fd]\<rparr>) os' q = relink i w' (route ctx os q)"
proof -
  note fd = link_of_fd [OF l] and len = links_ok_peer_fds [OF ok i] and dl = links_ok_dial [OF ok]
  have lk: "link_of ?ctx os' j = (if j = i then Some (fd, w') else link_of ctx os j)"
    if j: "j < length (nodes (cl_state ctx))" for j
  proof (cases "j = i")
    case False
    have "peer_fds ctx ! j \<noteq> fd" if "0 \<le> peer_fds ctx ! j"
      using links_ok_distinct [OF ok j i False link_of_cached [OF that] l] .
    with False show ?thesis
      using os' dl [of "dials os'" _ _ "dials os"] by (simp add: link_of_def)
  qed (use fd len os' in \<open>simp add: link_of_def\<close>)
  have "g \<noteq> g'" if ab: "a < length (nodes (cl_state ctx))" "b < length (nodes (cl_state ctx))" "a \<noteq> b"
    "link_of ?ctx os' a = Some (g, v)" "link_of ?ctx os' b = Some (g', v')" for a b g g' v v'
  proof -
    obtain v1 v2 where "link_of ctx os a = Some (g, v1)" "link_of ctx os b = Some (g', v2)"
      using ab lk [OF ab(1)] lk [OF ab(2)] l by (auto split: if_splits)
    then show ?thesis by (rule links_ok_distinct [OF ok ab(1-3)])
  qed
  moreover have "ctx_ok ?ctx" using ok by (simp add: links_ok_def ctx_ok_def)
  moreover have "dial os' k a p = dial os' (dials os') a p" for k a p
    using dl os'(1) by metis
  ultimately show "links_ok ?ctx os'"
    unfolding links_ok_def by simp
  have "j < length (nodes (cl_state ctx))" if "find_node_by_id (cl_state ctx) nid = Some j" for nid j
    using that by (rule find_node_by_id_Some)
  with lk l show "route ?ctx os' q = relink i w' (route ctx os q)"
    by (auto simp: route_def relink_def cluster_get_owner_def split: option.splits)
qed

text \<open>Whatever the other end does, forwarding stays inside the tables and keeps them.\<close>

lemma ensures_get_peer_connection:
  assumes "ctx_ok ctx"
  shows "ensures (get_peer_connection ctx n os) (\<lambda>(fd, ctx', os'). \<exists>fds. ctx' = ctx\<lparr>peer_fds := fds\<rparr> \<and> length fds = CLUSTER_MAX_NODES)"
proof (cases "find_node_by_id (cl_state ctx) (n_id n)")
  case None
  with assms show ?thesis
    by (auto simp: get_peer_connection_def ctx_ok_def intro!: exI [of _ "peer_fds ctx"])
next
  case (Some i)
  then have "i < length (peer_fds ctx)" "length (peer_fds ctx) = CLUSTER_MAX_NODES"
    using assms find_node_by_id_Some(1) [OF Some] by (auto simp: ctx_ok_def table_ok_def)
  with Some show ?thesis
    by (auto simp: get_peer_connection_def Let_def split: dial_ans.split intro: exI [of _ "peer_fds ctx"])
qed

lemma ensures_forward_get:
  assumes "ctx_ok ctx"
  shows "ensures (cluster_forward_get peer ctx pid os) (\<lambda>(rc, buf, ctx', os').
    ctx_ok ctx' \<and> cl_state ctx' = cl_state ctx \<and> cl_self ctx' = cl_self ctx \<and>
    (rc = 0 \<and> length buf = PAGE_SIZE \<or> rc = -1))"
proof (cases "cluster_get_owner ctx pid")
  case None
  with assms show ?thesis by (simp add: cluster_forward_get_def)
next
  case (Some n)
  show ?thesis
    unfolding cluster_forward_get_def Some option.case
    apply (rule ensures_bindI [OF ensures_get_peer_connection [OF assms]])
    using assms apply (clarsimp simp: ctx_ok_def)
    apply (rule ensures_bindI [OF ensures_rpc_get])
    apply (auto simp: ctx_ok_def)
    done
qed

lemma ensures_forward_put:
  assumes "ctx_ok ctx"
  shows "ensures (cluster_forward_put peer ctx pid buf os) (\<lambda>(rc, ctx', os').
    ctx_ok ctx' \<and> cl_state ctx' = cl_state ctx \<and> cl_self ctx' = cl_self ctx \<and> (rc = 0 \<or> rc = -1))"
proof (cases "cluster_get_owner ctx pid")
  case None
  with assms show ?thesis by (simp add: cluster_forward_put_def)
next
  case (Some n)
  show ?thesis
    unfolding cluster_forward_put_def Some option.case
    apply (rule ensures_bindI [OF ensures_get_peer_connection [OF assms]])
    using assms apply (clarsimp simp: ctx_ok_def)
    apply (rule ensures_bindI [OF ensures_rpc_put])
    apply (auto simp: ctx_ok_def)
    done
qed

text \<open>Over lawful nodes a forwarded request does what the owner does.\<close>

context page_peer
begin

lemma forward_get_ok:
  assumes ok: "links_ok ctx os" and r: "route ctx os pid = Some (i, fd, w)"
    and w: "synced ready w" "reliable (kern w)" "pid \<in> pages (store (far w))"
  shows "\<exists>ctx' os' w'. cluster_forward_get peer ctx pid os = Ret (0, store (far w) pid, ctx', os') \<and>
    links_ok ctx' os' \<and> cl_self ctx' = cl_self ctx \<and> (\<forall>q. route ctx' os' q = relink i w' (route ctx os q)) \<and>
    synced ready w' \<and> kern w' = kern w \<and> store (far w') = store (far w) \<and>
    conns os' fd = w' \<and> (\<forall>g. g \<noteq> fd \<longrightarrow> conns os' g = conns os g)"
proof -
  have tab: "table_ok (cl_state ctx)"
    using ok by (simp add: links_ok_def ctx_ok_def)
  note o = route_Some [OF tab r]
  obtain ctx' os1 where c: "get_peer_connection ctx (nodes (cl_state ctx) ! i) os = Ret (fd, ctx', os1)"
    "ctx' = ctx\<lparr>peer_fds := (peer_fds ctx)[i := fd]\<rparr>" "conns os1 fd = w"
    "dial os1 = dial os" "\<forall>g. g \<noteq> fd \<longrightarrow> conns os1 g = conns os g"
    using get_peer_connection_link [OF ok o(2,3)] by blast
  obtain d w' where g: "dsm_rpc_get peer fd pid w = Ret (0, d, w')"
    using rpc_get_good [OF w(1,3,2) o(4)] by blast
  have w': "d = store (far w) pid" "synced ready w'" "store (far w') = store (far w)" "kern w' = kern w"
    using rpc_get_0 [OF w(1,3) g] ensures_rpc_get [of peer fd pid w] g by auto
  let ?os = "os1\<lparr>conns := (conns os1)(fd := w')\<rparr>"
  have "links_ok ctx' ?os" "\<forall>q. route ctx' ?os q = relink i w' (route ctx os q)"
    unfolding c(2) using c(4,5) by (auto intro!: relink_route [OF ok o(2,3)])
  moreover have "cluster_forward_get peer ctx pid os = Ret (0, store (far w) pid, ctx', ?os)"
    using o c g w' by (simp add: cluster_forward_get_def)
  ultimately show ?thesis
    using w' c(2,5) by (intro exI [of _ ctx'] exI [of _ ?os] exI [of _ w']) simp
qed

lemma forward_put_ok:
  assumes ok: "links_ok ctx os" and r: "route ctx os pid = Some (i, fd, w)"
    and w: "synced ready w" "reliable (kern w)" "pid \<in> pages (store (far w))" and len: "length pg = PAGE_SIZE"
  shows "\<exists>ctx' os' w'. cluster_forward_put peer ctx pid pg os = Ret (0, ctx', os') \<and>
    links_ok ctx' os' \<and> cl_self ctx' = cl_self ctx \<and> (\<forall>q. route ctx' os' q = relink i w' (route ctx os q)) \<and>
    synced ready w' \<and> kern w' = kern w \<and> store (far w') = (store (far w))(pid := pg) \<and>
    conns os' fd = w' \<and> (\<forall>g. g \<noteq> fd \<longrightarrow> conns os' g = conns os g)"
proof -
  have tab: "table_ok (cl_state ctx)"
    using ok by (simp add: links_ok_def ctx_ok_def)
  note o = route_Some [OF tab r]
  obtain ctx' os1 where c: "get_peer_connection ctx (nodes (cl_state ctx) ! i) os = Ret (fd, ctx', os1)"
    "ctx' = ctx\<lparr>peer_fds := (peer_fds ctx)[i := fd]\<rparr>" "conns os1 fd = w"
    "dial os1 = dial os" "\<forall>g. g \<noteq> fd \<longrightarrow> conns os1 g = conns os g"
    using get_peer_connection_link [OF ok o(2,3)] by blast
  obtain w' where g: "dsm_rpc_put peer fd pid pg w = Ret (0, w')"
    using rpc_put_good [OF w(1,3) len w(2) o(4)] by blast
  have w': "synced ready w'" "store (far w') = (store (far w))(pid := pg)" "kern w' = kern w"
    using rpc_put_0 [OF w(1,3) len g] ensures_rpc_put [of peer fd pid pg w] g by auto
  let ?os = "os1\<lparr>conns := (conns os1)(fd := w')\<rparr>"
  have "links_ok ctx' ?os" "\<forall>q. route ctx' ?os q = relink i w' (route ctx os q)"
    unfolding c(2) using c(4,5) by (auto intro!: relink_route [OF ok o(2,3)])
  moreover have "cluster_forward_put peer ctx pid pg os = Ret (0, ctx', ?os)"
    using o c g by (simp add: cluster_forward_put_def)
  ultimately show ?thesis
    using w' c(2,5) by (intro exI [of _ ctx'] exI [of _ ?os] exI [of _ w']) simp
qed

end

subsection \<open>How membership spreads\<close>

lemma merge_node_knows:
  assumes "length (nodes s) < CLUSTER_MAX_NODES"
  shows "n_id node \<in> known (merge_node s node now)" and "known s \<subseteq> known (merge_node s node now)"
    and "length (nodes (merge_node s node now)) \<le> Suc (length (nodes s))"
proof -
  let ?s = "merge_node s node now"
  have "n_id node \<in> known ?s \<and> known s \<subseteq> known ?s \<and> length (nodes ?s) \<le> Suc (length (nodes s))"
  proof (cases "find_node_by_id s (n_id node)")
    case None
    with assms show ?thesis
      by (auto simp: merge_node_def known_def)
  next
    case (Some i)
    note i = find_node_by_id_Some [OF Some]
    have "known (s\<lparr>nodes := (nodes s)[i := n]\<rparr>) = known s" if "n_id n = n_id (nodes s ! i)" for n
    proof -
      have "map n_id ((nodes s)[i := n]) = map n_id (nodes s)"
        using that i(1) by (simp add: map_update list_update_same_conv)
      from arg_cong [OF this, of set] show ?thesis by (simp add: known_def)
    qed
    moreover have "n_id node \<in> known s"
      using i by (auto simp: known_def intro!: image_eqI [of _ _ "nodes s ! i"])
    ultimately show ?thesis
      using Some by (simp add: merge_node_def Let_def)
  qed
  then show "n_id node \<in> known ?s" "known s \<subseteq> known ?s" "length (nodes ?s) \<le> Suc (length (nodes s))"
    by blast+
qed

lemma merge_nodes_knows:
  "length (nodes s) + length gns \<le> CLUSTER_MAX_NODES \<Longrightarrow>
     i_id ` set gns \<union> known s \<subseteq> known (merge_nodes s gns clock i)"
proof (induction s gns clock i rule: merge_nodes.induct)
  case (2 s gn gns clock i)
  let ?s = "merge_node s (gossip_node_to_cluster gn) (clock i)"
  have "length (nodes s) < CLUSTER_MAX_NODES"
    using 2(2) by simp
  note k = merge_node_knows [OF this, of "gossip_node_to_cluster gn" "clock i"]
  have "i_id gn \<in> known ?s"
    using k(1) by (simp add: gossip_node_to_cluster_def)
  moreover have "i_id ` set gns \<union> known ?s \<subseteq> known (merge_nodes ?s gns clock (Suc i))"
    using 2(2) k(3) by (intro 2(1)) simp
  ultimately show ?case
    unfolding merge_nodes.simps list.set image_insert using k(2) by blast
qed simp

lemma gossip_recv_sent:
  assumes ctx: "ctx_ok ctx" and junk: "msg_ok junk" and m: "msg_ok m" "g_magic (hdr m) = GOSSIP_MAGIC"
    and c: "unat (g_node_count (hdr m)) \<le> GOSSIP_MSG_MAX_NODES"
  shows "gossip_recv ctx junk (fst (send_msg m n)) a p clock = handle_gossip_msg ctx m a p clock"
proof -
  let ?d = "fst (send_msg m n)"
  have len: "length ?d = HEADER_SIZE + unat (g_node_count (hdr m)) * NODE_SIZE"
    using length_send_msg [OF m(1) c] .
  then have buf: "take (HEADER_SIZE + GOSSIP_MSG_MAX_NODES * NODE_SIZE) ?d = ?d" "?d \<noteq> []"
    using c by (auto simp: gossip_consts)
  obtain out where out: "gossip_parse ?d junk = Ret (0, out)" "hdr out = hdr m"
    "take (unat (g_node_count (hdr m))) (msg_nodes out) = take (unat (g_node_count (hdr m))) (msg_nodes m)"
    using parse_sent [OF m c, of junk n] junk by (auto simp: msg_ok_def)
  have "length (msg_nodes out) \<ge> unat (g_node_count (hdr m)) \<longleftrightarrow> length (msg_nodes m) \<ge> unat (g_node_count (hdr m))"
    using arg_cong [OF out(3), of length] by auto
  then have "handle_gossip_msg ctx out a p clock = handle_gossip_msg ctx m a p clock"
    unfolding handle_gossip_msg_def out(2,3) Let_def by (simp add: not_le [symmetric] linorder_not_less)
  then show ?thesis
    unfolding gossip_recv_def buf(1) Let_def using buf(2) out(1) by simp
qed

lemma handle_gossip_msg_knows:
  assumes "length (nodes (cl_state ctx)) + Suc (unat (g_node_count (hdr m))) \<le> CLUSTER_MAX_NODES"
    and "handle_gossip_msg ctx m a p clock = Ret (ctx', reply)"
  shows "{g_sender_id (hdr m)} \<union> i_id ` set (take (unat (g_node_count (hdr m))) (msg_nodes m)) \<union>
    known (cl_state ctx) \<subseteq> known (cl_state ctx')"
proof -
  let ?n = "unat (g_node_count (hdr m))" and ?g = "gossip_sender (hdr m) a p"
  let ?s = "merge_node (cl_state ctx) ?g (clock 0)"
  have "length (nodes (cl_state ctx)) < CLUSTER_MAX_NODES"
    using assms(1) by simp
  note k = merge_node_knows [OF this, of ?g "clock 0"]
  have "length (nodes ?s) + length (take ?n (msg_nodes m)) \<le> CLUSTER_MAX_NODES"
    using k(3) assms(1) by (simp add: min_def)
  note ks = merge_nodes_knows [OF this, of clock 1]
  have "g_sender_id (hdr m) \<in> known ?s"
    using k(1) by (simp add: gossip_sender_def)
  moreover have "cl_state ctx' = merge_nodes ?s (take ?n (msg_nodes m)) clock 1"
    using assms(2) by (auto simp: handle_gossip_msg_def Let_def outcome_simps split: if_splits)
  ultimately show ?thesis
    using ks k(2) by simp blast
qed

lemma handle_gossip_msg_reply:
  assumes "handle_gossip_msg ctx m a p clock = Ret (ctx', Some d)"
  shows "\<exists>q. pong_msg (cl_self ctx) (nodes (cl_state ctx')) = Ret q \<and> d = fst (send_msg q 0)"
proof -
  obtain rc where "gossip_send_pong (cl_self ctx) (nodes (cl_state ctx')) 0 = Ret (d, rc)"
    using assms by (auto simp: handle_gossip_msg_def Let_def outcome_simps split: if_splits)
  then show ?thesis
    by (auto simp: gossip_send_pong_def outcome_simps)
qed

lemma sample_ctx_ok: "ctx_ok (sample_ctx b ns)" if "distinct (b # ns)" "length ns < CLUSTER_MAX_NODES"
proof -
  have "inj sample_node"
    by (rule injI) (simp add: sample_node_def NODE_ID_LEN_def)
  moreover have "inj (\<lambda>x. n_id (sample_node x))"
    by (rule injI) (simp add: sample_node_def NODE_ID_LEN_def)
  ultimately show ?thesis
    using that by (auto simp: ctx_ok_def table_ok_def sample_ctx_def distinct_map comp_def sample_node_def
        NODE_ID_LEN_def intro: inj_on_subset)
qed

lemma sample_junk_ok: "msg_ok (fill_header 0 (sample_node b))"
  by (simp add: msg_ok_def header_ok_def fill_header_def sample_node_def zero_node_info_def node_info_ok_def)

subsection \<open>Properties\<close>



text \<open>
  C23. No datagram, however malformed, makes the receiving thread read or write out of bounds
  or leaves the table ill formed; one the parser rejects changes nothing and gets no reply.
\<close>

theorem gossip_recv_any_datagram:
  assumes "ctx_ok ctx" and "msg_ok junk"
  shows "\<exists>ctx' reply. gossip_recv ctx junk dgram a p clock = Ret (ctx', reply) \<and> ctx_ok ctx' \<and> ctx_grows ctx ctx' \<and>
    (gossip_accepts (take (HEADER_SIZE + GOSSIP_MSG_MAX_NODES * NODE_SIZE) dgram) \<or> ctx' = ctx \<and> reply = None)"
proof -
  let ?buf = "take (HEADER_SIZE + GOSSIP_MSG_MAX_NODES * NODE_SIZE) dgram"
  obtain s reply where r: "gossip_recv ctx junk dgram a p clock = Ret (ctx\<lparr>cl_state := s\<rparr>, reply)"
    using gossip_recv_ok [OF assms] by blast
  let ?os = "undefined :: unit os"
  have "cluster_step (ctx, ?os) (ctx\<lparr>cl_state := s\<rparr>, ?os)"
    using cluster_step.recv [OF assms(2) r] .
  from cluster_step_ok [OF this] assms(1) have "ctx_ok (ctx\<lparr>cl_state := s\<rparr>) \<and> ctx_grows ctx (ctx\<lparr>cl_state := s\<rparr>)"
    by simp
  moreover have "ctx\<lparr>cl_state := s\<rparr> = ctx \<and> reply = None" if n: "\<not> gossip_accepts ?buf"
  proof -
    obtain out where "gossip_parse ?buf junk = Ret (-1, out)"
      using gossip_parse_reject [OF n] by blast
    with r show ?thesis by (auto simp: gossip_recv_def Let_def split: if_splits)
  qed
  ultimately show ?thesis
    using r by blast
qed

theorem gossip_recv_any_datagram_witness:
  "\<exists>ctx' reply. gossip_recv (sample_ctx 1 [2]) (fill_header 0 (sample_node 0)) [0x47, 0x4D, 0x53] 9 9 (\<lambda>_. 7)
     = Ret (ctx', reply) \<and> ctx_ok ctx' \<and> ctx_grows (sample_ctx 1 [2]) ctx'"
proof -
  have "ctx_ok (sample_ctx 1 [2])"
    by (rule sample_ctx_ok) (simp_all add: CLUSTER_MAX_NODES_def)
  from gossip_recv_any_datagram [OF this sample_junk_ok [of 0], of "[0x47, 0x4D, 0x53]" 9 9 "\<lambda>_. 7"]
  show ?thesis by blast
qed

text \<open>
  C18. Joining works: a node's JOIN makes the seed answer with a PONG, and when the node has
  received it, the seed knows the node, the node knows the seed and the seed's first sixteen
  members, and neither has forgotten anybody, as long as their tables have room.
\<close>

theorem join_exchange:
  assumes "ctx_ok new" and "ctx_ok seed" and "msg_ok junk" and "msg_ok junk'"
    and "length (nodes (cl_state seed)) + 2 \<le> CLUSTER_MAX_NODES"
    and "length (nodes (cl_state new)) + 17 \<le> CLUSTER_MAX_NODES"
  shows "\<exists>join rc seed' pong new'. gossip_send_join (cl_self new) n = Ret (join, rc) \<and>
    gossip_recv seed junk join a p clock = Ret (seed', Some pong) \<and>
    gossip_recv new junk' pong a' p' clock' = Ret (new', None) \<and>
    insert (n_id (cl_self new)) (known (cl_state seed)) \<subseteq> known (cl_state seed') \<and>
    {n_id (cl_self seed)} \<union> n_id ` set (take 16 (nodes (cl_state seed'))) \<union> known (cl_state new)
      \<subseteq> known (cl_state new')"
proof -
  have ids: "length (n_id (cl_self new)) = NODE_ID_LEN" "length (n_id (cl_self seed)) = NODE_ID_LEN"
    using assms(1,2) by (simp_all add: ctx_ok_def)
  obtain m where m: "gossip_send_join (cl_self new) n = Ret (send_msg m n)" "msg_ok m" "g_magic (hdr m) = GOSSIP_MAGIC"
    "hdr m = (hdr (fill_header GOSSIP_JOIN (cl_self new)))\<lparr>g_node_count := 1\<rparr>"
    using join_msg_eq [OF ids(1), of n] by blast
  have h: "g_type (hdr m) = GOSSIP_JOIN" "unat (g_node_count (hdr m)) = 1" "g_sender_id (hdr m) = n_id (cl_self new)"
    using m(4) by (simp_all add: fill_header_def)
  have r1: "gossip_recv seed junk (fst (send_msg m n)) a p clock = handle_gossip_msg seed m a p clock"
    using h(2) by (intro gossip_recv_sent [OF assms(2,3) m(2,3)]) (simp add: GOSSIP_MSG_MAX_NODES_def)
  obtain s reply where s: "handle_gossip_msg seed m a p clock = Ret (seed\<lparr>cl_state := s\<rparr>, reply)" "table_ok s" "reply \<noteq> None"
    using handle_gossip_msg_ok [OF assms(2) m(2), of a p clock] h by (auto simp: GOSSIP_MSG_MAX_NODES_def)
  have "length (nodes (cl_state seed)) + Suc (unat (g_node_count (hdr m))) \<le> CLUSTER_MAX_NODES"
    using assms(5) h(2) by simp
  note k1 = handle_gossip_msg_knows [OF this s(1)]
  have "\<forall>x \<in> set (nodes s). length (n_id x) = NODE_ID_LEN"
    using s(2) by (simp add: table_ok_def)
  from pong_msg_eq [OF ids(2) this] obtain q where q: "pong_msg (cl_self seed) (nodes s) = Ret q" "msg_ok q"
    "g_magic (hdr q) = GOSSIP_MAGIC" "unat (g_node_count (hdr q)) = min GOSSIP_MSG_MAX_NODES (length (nodes s))"
    "take (unat (g_node_count (hdr q))) (msg_nodes q) = map cluster_node_to_gossip (take GOSSIP_MSG_MAX_NODES (nodes s))"
    "g_type (hdr q) = GOSSIP_PONG" "g_sender_id (hdr q) = n_id (cl_self seed)"
    by (auto simp: fill_header_def)
  have reply: "reply = Some (fst (send_msg q 0))"
  proof -
    obtain d where d: "reply = Some d" using s(3) by blast
    from handle_gossip_msg_reply [OF s(1) [unfolded d]] q(1) d show ?thesis by simp
  qed
  have qn: "unat (g_node_count (hdr q)) \<le> GOSSIP_MSG_MAX_NODES"
    using q(4) by simp
  obtain s' r' where s': "handle_gossip_msg new q a' p' clock' = Ret (new\<lparr>cl_state := s'\<rparr>, r')" "r' = None"
    using handle_gossip_msg_ok [OF assms(1) q(2) qn, of a' p' clock'] q(6)
    by (auto simp: GOSSIP_PONG_def GOSSIP_PING_def GOSSIP_JOIN_def)
  have "length (nodes (cl_state new)) + Suc (unat (g_node_count (hdr q))) \<le> CLUSTER_MAX_NODES"
    using assms(6) qn by (simp add: GOSSIP_MSG_MAX_NODES_def)
  note k2 = handle_gossip_msg_knows [OF this s'(1)]
  have "i_id ` set (take (unat (g_node_count (hdr q))) (msg_nodes q)) = n_id ` set (take 16 (nodes s))"
    unfolding q(5) by (simp add: image_image cluster_node_to_gossip_def GOSSIP_MSG_MAX_NODES_def)
  with k1 k2 h(3) q(7) s s' m(1) r1 gossip_recv_sent [OF assms(1,4) q(2,3) qn, of 0 a' p' clock'] reply show ?thesis
    by (intro exI [of _ "fst (send_msg m n)"] exI [of _ "snd (send_msg m n)"] exI [of _ "seed\<lparr>cl_state := s\<rparr>"]
        exI [of _ "fst (send_msg q 0)"] exI [of _ "new\<lparr>cl_state := s'\<rparr>"]) simp
qed

theorem join_exchange_witness:
  "\<exists>join rc seed' pong new'. gossip_send_join (cl_self (sample_ctx 3 [])) 76 = Ret (join, rc) \<and>
     gossip_recv (sample_ctx 1 [2]) (fill_header 0 (sample_node 0)) join 3 5556 (\<lambda>_. 7) = Ret (seed', Some pong) \<and>
     gossip_recv (sample_ctx 3 []) (fill_header 0 (sample_node 0)) pong 1 5556 (\<lambda>_. 8) = Ret (new', None) \<and>
     n_id (sample_node 1) \<in> known (cl_state new')"
proof -
  have c: "ctx_ok (sample_ctx 3 [])" "ctx_ok (sample_ctx 1 [2])"
    by (rule sample_ctx_ok; simp add: CLUSTER_MAX_NODES_def)+
  have "length (nodes (cl_state (sample_ctx 1 [2]))) + 2 \<le> CLUSTER_MAX_NODES"
    "length (nodes (cl_state (sample_ctx 3 []))) + 17 \<le> CLUSTER_MAX_NODES" "cl_self (sample_ctx 1 [2]) = sample_node 1"
    by (simp_all add: sample_ctx_def CLUSTER_MAX_NODES_def)
  with join_exchange [OF c sample_junk_ok [of 0] sample_junk_ok [of 0], of 76 3 5556 "\<lambda>_. 7" 1 5556 "\<lambda>_. 8"]
  obtain join rc seed' pong new' where "gossip_send_join (cl_self (sample_ctx 3 [])) 76 = Ret (join, rc)"
    "gossip_recv (sample_ctx 1 [2]) (fill_header 0 (sample_node 0)) join 3 5556 (\<lambda>_. 7) = Ret (seed', Some pong)"
    "gossip_recv (sample_ctx 3 []) (fill_header 0 (sample_node 0)) pong 1 5556 (\<lambda>_. 8) = Ret (new', None)"
    "n_id (sample_node 1) \<in> known (cl_state new')"
    by auto
  then show ?thesis by blast
qed

text \<open>
  C20. A member that stays silent is dropped: if more than the timeout has passed since it was
  last heard of, two rounds of the heartbeat make it DEAD, after which it owns no page and is
  not pinged. The node never does this to itself.
\<close>

theorem silent_member_dies:
  assumes "ctx_ok ctx" and "i < length (nodes (cl_state ctx))" and "i \<noteq> self_idx (cl_state ctx)"
    and "n_state (nodes (cl_state ctx) ! i) = NODE_STATE_ALIVE"
    and "ucast (timeout_ms (cl_cfg ctx)) < now - n_last_seen (nodes (cl_state ctx) ! i)"
    and "ucast (timeout_ms (cl_cfg ctx)) < now' - n_last_seen (nodes (cl_state ctx) ! i)"
    and "ctx' = fst (heartbeat_tick (fst (heartbeat_tick ctx now lg)) now' lg')"
  shows "n_state (nodes (cl_state ctx') ! i) = NODE_STATE_DEAD \<and>
    (\<forall>pid. cluster_get_owner ctx' pid \<noteq> Some (nodes (cl_state ctx') ! i)) \<and>
    nodes (cl_state ctx') ! i \<notin> set (ping_targets (self_idx (cl_state ctx')) 0 0 (nodes (cl_state ctx'))) \<and>
    nodes (cl_state ctx') ! self_idx (cl_state ctx') = nodes (cl_state ctx) ! self_idx (cl_state ctx)"
proof -
  let ?n = "nodes (cl_state ctx) ! i" and ?t = "timeout_ms (cl_cfg ctx)"
  have half: "(ucast (?t div 2) :: u64) \<le> ucast ?t"
    by (simp add: word_le_nat_alt unat_div unat_ucast_u64)
  then have "ucast (?t div 2) < now - n_last_seen ?n"
    using assms(5) by simp
  then have "n_state (age_node ?t now ?n) = NODE_STATE_SUSPECT"
    using assms(4) by (simp add: age_node_def Let_def)
  then have "n_state (age_node ?t now' (age_node ?t now ?n)) = NODE_STATE_DEAD"
    using assms(6) unfolding age_node_def [of _ now']
    by (simp add: Let_def NODE_STATE_SUSPECT_def NODE_STATE_ALIVE_def)
  moreover have self: "self_idx (cl_state ctx) < length (nodes (cl_state ctx))"
    using assms(1) by (simp add: ctx_ok_def table_ok_def)
  ultimately have dead: "n_state (nodes (cl_state ctx') ! i) = NODE_STATE_DEAD"
    and "nodes (cl_state ctx') ! self_idx (cl_state ctx') = nodes (cl_state ctx) ! self_idx (cl_state ctx)"
    using assms(2,3,7) by (simp_all add: heartbeat_tick_eq nth_age_nodes)
  moreover have "cluster_get_owner ctx' pid \<noteq> Some n" if "n_state n = NODE_STATE_DEAD" for n pid
    using that first_owner_Some [of "nodes (cl_state ctx')" pid n] by (auto simp: cluster_get_owner_def covers_def)
  moreover have "n \<notin> set (ping_targets k 0 0 ns)" if "n_state n = NODE_STATE_DEAD" for n k ns
    using that by (auto simp: ping_targets_eq dest!: in_set_takeD)
  ultimately show ?thesis by blast
qed

theorem silent_member_dies_witness:
  "n_state (nodes (cl_state (fst (heartbeat_tick (fst (heartbeat_tick (sample_ctx 1 [2]) 7000 0)) 7250 0))) ! 1)
     = NODE_STATE_DEAD"
proof -
  have c: "ctx_ok (sample_ctx 1 [2])"
    by (rule sample_ctx_ok) (simp_all add: CLUSTER_MAX_NODES_def)
  show ?thesis
    using silent_member_dies [OF c, of 1 7000 7250, OF _ _ _ _ _ refl, of 0 0]
    by (simp add: sample_ctx_def sample_node_def)
qed

text \<open>
  A member heard of within half the timeout is left alone by the heartbeat, provided the
  heartbeat read the clock after it was heard of.
\<close>

lemma recent_member_kept:
  assumes "i < length (nodes (cl_state ctx))" and "n_state (nodes (cl_state ctx) ! i) = NODE_STATE_ALIVE"
    and "n_last_seen (nodes (cl_state ctx) ! i) \<le> now"
    and "unat now \<le> unat (n_last_seen (nodes (cl_state ctx) ! i)) + unat (timeout_ms (cl_cfg ctx)) div 2"
  shows "nodes (cl_state (fst (heartbeat_tick ctx now lg))) ! i = nodes (cl_state ctx) ! i"
proof -
  let ?n = "nodes (cl_state ctx) ! i" and ?t = "timeout_ms (cl_cfg ctx)"
  have "\<not> ucast (?t div 2) < now - n_last_seen ?n"
    using assms(3,4) by (simp add: word_less_nat_alt unat_sub unat_div unat_ucast_u64 not_less)
  then have "age_node ?t now ?n = ?n"
    using assms(2) by (simp add: age_node_def Let_def NODE_STATE_ALIVE_def NODE_STATE_SUSPECT_def)
  with assms(1) show ?thesis
    by (simp add: heartbeat_tick_eq nth_age_nodes)
qed

text \<open>
  C35. The heartbeat reads the clock before it takes the lock, so a message handled in between
  stamps a member with a later time; the unsigned difference then wraps around and the
  member just heard of becomes SUSPECT, whatever the timeout.
\<close>

theorem heartbeat_clock_race:
  assumes "i < length (nodes (cl_state ctx))" and "i \<noteq> self_idx (cl_state ctx)"
    and "n_state (nodes (cl_state ctx) ! i) = NODE_STATE_ALIVE"
    and "now < n_last_seen (nodes (cl_state ctx) ! i)"
    and "unat (n_last_seen (nodes (cl_state ctx) ! i)) \<le> unat now + 2 ^ 32"
  shows "n_state (nodes (cl_state (fst (heartbeat_tick ctx now lg))) ! i) = NODE_STATE_SUSPECT"
proof -
  let ?n = "nodes (cl_state ctx) ! i" and ?t = "timeout_ms (cl_cfg ctx)"
  let ?l = "n_last_seen ?n"
  have l: "unat ?l < 2 ^ 64" "unat now < unat ?l"
    using unsigned_less [of ?l] assms(4) by (simp_all add: word_less_nat_alt)
  have "unat (now - ?l) = 2 ^ 64 - (unat ?l - unat now)"
    using l by (simp add: unat_sub_if_size size_word.rep_eq word_le_nat_alt)
  then have "2 ^ 32 < unat (now - ?l)"
    using l assms(5) by simp
  moreover have "unat ?t div 2 < 2 ^ 32"
    using unat_u32_less [of ?t] by simp
  ultimately have "ucast (?t div 2) < now - ?l"
    by (simp add: word_less_nat_alt unat_div unat_ucast_u64)
  with assms(1-3) show ?thesis
    by (simp add: heartbeat_tick_eq nth_age_nodes age_node_def Let_def)
qed

theorem heartbeat_clock_race_witness:
  "n_state (nodes (cl_state (fst (heartbeat_tick (sample_ctx 1 [2]) 999 0))) ! 1) = NODE_STATE_SUSPECT"
  using heartbeat_clock_race [of 1 "sample_ctx 1 [2]" 999 0] by (simp add: sample_ctx_def sample_node_def)

text \<open>
  One round of pings goes to the first three members in table order that are neither the
  node itself nor DEAD; no other member is ever chosen while these three live.
\<close>

lemma heartbeat_pings_first_three:
  "snd (snd (heartbeat_tick ctx now lg)) =
     (if ucast (gossip_ms (cl_cfg ctx)) \<le> now - lg
      then let s = cl_state (fst (heartbeat_tick ctx now lg));
               live = filter (\<lambda>(j, n). j \<noteq> self_idx s \<and> n_state n \<noteq> NODE_STATE_DEAD) (enumerate 0 (nodes s))
           in map (\<lambda>(j, n). (n_addr n, n_cluster_port n, fst (gossip_send_ping (cl_self ctx) 0))) (take 3 live)
      else [])"
  by (auto simp: heartbeat_tick_def Let_def ping_targets_eq GOSSIP_FANOUT_def take_map)

text \<open>
  While the ranges of the members that are not DEAD do not overlap, the owner of a page
  is the one member whose range holds it; there is none exactly when no range does.
\<close>

lemma owner_is_unique:
  assumes "\<forall>n \<in> set (nodes (cl_state ctx)). \<forall>m \<in> set (nodes (cl_state ctx)). covers n pid \<and> covers m pid \<longrightarrow> n = m"
  shows "cluster_get_owner ctx pid = Some n \<longleftrightarrow> n \<in> set (nodes (cl_state ctx)) \<and> covers n pid"
proof
  assume "cluster_get_owner ctx pid = Some n"
  then show "n \<in> set (nodes (cl_state ctx)) \<and> covers n pid"
    using first_owner_Some [of "nodes (cl_state ctx)" pid n] by (auto simp: cluster_get_owner_def)
next
  assume n: "n \<in> set (nodes (cl_state ctx)) \<and> covers n pid"
  then obtain m where m: "cluster_get_owner ctx pid = Some m"
    using first_owner_None [of "nodes (cl_state ctx)" pid] by (auto simp: cluster_get_owner_def)
  moreover have "m \<in> set (nodes (cl_state ctx)) \<and> covers m pid"
    using m first_owner_Some [of "nodes (cl_state ctx)" pid m] by (auto simp: cluster_get_owner_def)
  ultimately show "cluster_get_owner ctx pid = Some n"
    using assms n by blast
qed

text \<open>
  C36. A node that restarts under its configured id is not recognised: \<open>cluster_create\<close>
  always starts with incarnation 1, and a member that already has an entry for the id with
  incarnation 1 keeps the address, the ports and the page range of the first start, however
  the new process announces itself.
\<close>

theorem restarted_node_keeps_old_entry:
  assumes "cluster_create calloc_ok lock_ok cfg addr port gen now = Some new"
    and "find_node_by_id s (n_id (cl_self new)) = Some i" and "n_incarnation (nodes s ! i) = 1"
    and "h = hdr (fill_header typ (cl_self new))"
  shows "\<exists>n. nodes (merge_node s (gossip_sender h from_addr from_port) t) ! i = n \<and>
    n_addr n = n_addr (nodes s ! i) \<and> n_client_port n = n_client_port (nodes s ! i) \<and>
    n_cluster_port n = n_cluster_port (nodes s ! i) \<and> n_range_start n = n_range_start (nodes s ! i) \<and>
    n_range_end n = n_range_end (nodes s ! i) \<and> n_state n = NODE_STATE_ALIVE"
proof -
  have "n_incarnation (cl_self new) = 1"
    using assms(1) by (auto simp: cluster_create_def Let_def split: if_splits)
  then show ?thesis
    using assms(2-4) find_node_by_id_Some(1) [OF assms(2)]
    by (simp add: merge_node_def gossip_sender_def fill_header_def Let_def)
qed

theorem restarted_node_keeps_old_entry_witness:
  "\<exists>new. cluster_create True True (cl_cfg (sample_ctx 2 [])) 99 7777 (replicate 16 2) 10 = Some new \<and>
     n_addr (nodes (merge_node (cl_state (sample_ctx 1 [2])) (gossip_sender (hdr (fill_header GOSSIP_JOIN (cl_self new))) 99 5556)
       3000) ! 1) = 2"
proof -
  obtain new where new: "cluster_create True True (cl_cfg (sample_ctx 2 [])) 99 7777 (replicate 16 2) 10 = Some new"
    "n_id (cl_self new) = replicate 16 2"
    by (simp add: cluster_create_def Let_def sample_ctx_def)
  have "find_node_by_id (cl_state (sample_ctx 1 [2])) (n_id (cl_self new)) = Some 1"
    "n_incarnation (nodes (cl_state (sample_ctx 1 [2])) ! 1) = 1" "n_addr (nodes (cl_state (sample_ctx 1 [2])) ! 1) = 2"
    by (simp_all add: new(2) find_node_by_id_def sample_ctx_def sample_node_def NODE_ID_LEN_def)
  with restarted_node_keeps_old_entry [OF new(1) _ _ refl, of "cl_state (sample_ctx 1 [2])" 1 GOSSIP_JOIN 99 5556 3000] new(1)
  show ?thesis by auto
qed

text \<open>
  A third party's word brings a DEAD member back: an entry of any PONG that still lists
  the member as ALIVE with the same incarnation makes it ALIVE again and stamps it as just
  seen, although nothing was heard from the member itself.
\<close>

lemma secondhand_gossip_revives:
  assumes "find_node_by_id s (i_id g) = Some i" and "i_incarnation g = n_incarnation (nodes s ! i)"
    and "i_state g = NODE_STATE_ALIVE"
  shows "nodes (merge_node s (gossip_node_to_cluster g) now) ! i =
    (nodes s ! i)\<lparr>n_state := NODE_STATE_ALIVE, n_last_seen := now\<rparr>"
  using assms find_node_by_id_Some(1) [OF assms(1)]
  by (simp add: merge_node_def gossip_node_to_cluster_def Let_def)

end
