(* ===== verification/DSM_Config.thy ===== *)
theory DSM_Config
  imports DSM_Cluster
begin

section \<open>Configuration (dsm\_config.c, dsm\_config.h)\<close>

text \<open>
  Checked parsing of numbers from the environment and the command line, the default
  configurations, and how environment variables override them. A C string is its list of
  characters without the terminator, the environment a function from names to values, and
  a pointer into a string the rest of the string. \<open>strtol\<close> is the C library's, for base 10
  and a 64-bit \<open>long\<close>: it skips white space, takes an optional sign and the longest run of
  digits, and saturates with \<open>ERANGE\<close>. \<open>exit(1)\<close> is \<open>None\<close>. Log and usage output is not
  modelled.
\<close>

subsection \<open>Definitions\<close>

definition LONG_MAX :: int where "LONG_MAX = 9223372036854775807"

definition LONG_MIN :: int where "LONG_MIN = -9223372036854775808"

definition UINT32_MAX :: int where "UINT32_MAX = 4294967295"

definition char_code :: "char \<Rightarrow> nat" where
  "char_code ch = of_char ch"

definition is_space :: "char \<Rightarrow> bool" where
  "is_space ch \<longleftrightarrow> char_code ch = 32 \<or> (9 \<le> char_code ch \<and> char_code ch \<le> 13)"

definition is_digit :: "char \<Rightarrow> bool" where
  "is_digit ch \<longleftrightarrow> 48 \<le> char_code ch \<and> char_code ch \<le> 57"

fun digits_value :: "int \<Rightarrow> string \<Rightarrow> int" where
  "digits_value acc [] = acc"
| "digits_value acc (ch # cs) = digits_value (10 * acc + (int (char_code ch) - 48)) cs"

text \<open>The sign and the digits of a number after white space, and what follows them.\<close>

definition scan_number :: "string \<Rightarrow> bool \<times> string \<times> string" where
  "scan_number s =
     (let t = dropWhile is_space s;
          neg = (t \<noteq> [] \<and> char_code (hd t) = 45);
          u = (if t \<noteq> [] \<and> (char_code (hd t) = 43 \<or> char_code (hd t) = 45) then tl t else t)
      in (neg, takeWhile is_digit u, dropWhile is_digit u))"

definition strtol :: "string \<Rightarrow> int \<times> string \<times> bool" where
  "strtol s =
     (let (neg, ds, rest) = scan_number s in
      if ds = [] then (0, s, False)
      else let v = (if neg then - digits_value 0 ds else digits_value 0 ds)
           in (max LONG_MIN (min LONG_MAX v), rest, v < LONG_MIN \<or> v > LONG_MAX))"

definition dsm_env_long :: "(string \<Rightarrow> string option) \<Rightarrow> string \<Rightarrow> int \<Rightarrow> int \<Rightarrow> int \<Rightarrow> int" where
  "dsm_env_long env name dflt mn mx =
     (case env name of None \<Rightarrow> dflt
      | Some val \<Rightarrow>
          (let (n, end_ptr, erange) = strtol val in
           if erange \<or> end_ptr = val \<or> end_ptr \<noteq> [] \<or> n < mn \<or> n > mx then dflt else n))"

definition dsm_env_str :: "(string \<Rightarrow> string option) \<Rightarrow> string \<Rightarrow> string option \<Rightarrow> string option" where
  "dsm_env_str env name dflt = (case env name of None \<Rightarrow> dflt | Some val \<Rightarrow> Some val)"

definition dsm_parse_long :: "string \<Rightarrow> int \<Rightarrow> int \<Rightarrow> int option" where
  "dsm_parse_long arg mn mx =
     (let (n, end_ptr, erange) = strtol arg in
      if erange \<or> end_ptr = arg \<or> end_ptr \<noteq> [] \<or> n < mn \<or> n > mx then None else Some n)"

paragraph \<open>Configurations\<close>

record dsm_client_config =
  cc_host :: "string option"
  cc_port :: u16
  cc_num_pages :: u32
  cc_num_virtual_pages :: u32
  cc_num_iterations :: u32
  cc_locality_percent :: u8
  cc_write_percent :: u8
  cc_verbose :: bool
  cc_verify_mode :: bool

record dsm_server_config =
  sc_port :: u16
  sc_num_virtual_pages :: u32
  sc_verbose :: bool
  sc_bind_addr :: "string option"

definition DEFAULT_PORT :: int where [simp]: "DEFAULT_PORT = 9999"

definition DEFAULT_HOST :: string where [simp]: "DEFAULT_HOST = ''127.0.0.1''"

definition CLUSTER_PORT_OFFSET :: int where [simp]: "CLUSTER_PORT_OFFSET = 1000"

definition HEARTBEAT_INTERVAL_MS :: u32 where [simp]: "HEARTBEAT_INTERVAL_MS = 1000"

definition HEARTBEAT_TIMEOUT_MS :: u32 where [simp]: "HEARTBEAT_TIMEOUT_MS = 3000"

definition GOSSIP_INTERVAL_MS :: u32 where [simp]: "GOSSIP_INTERVAL_MS = 500"

definition dsm_client_config_default :: dsm_client_config where
  "dsm_client_config_default =
     \<lparr>cc_host = Some DEFAULT_HOST, cc_port = word_of_int DEFAULT_PORT, cc_num_pages = 256, cc_num_virtual_pages = 1024,
      cc_num_iterations = 100000, cc_locality_percent = 80, cc_write_percent = 10, cc_verbose = False,
      cc_verify_mode = False\<rparr>"

definition dsm_server_config_default :: dsm_server_config where
  "dsm_server_config_default =
     \<lparr>sc_port = word_of_int DEFAULT_PORT, sc_num_virtual_pages = 1024, sc_verbose = False, sc_bind_addr = Some ''0.0.0.0''\<rparr>"

definition cluster_config_default :: cluster_config where
  "cluster_config_default =
     \<lparr>seed_addr = None, seed_port = word_of_int (DEFAULT_PORT + CLUSTER_PORT_OFFSET), cfg_node_id = None,
      cluster_port = word_of_int (DEFAULT_PORT + CLUSTER_PORT_OFFSET), heartbeat_ms = HEARTBEAT_INTERVAL_MS,
      gossip_ms = GOSSIP_INTERVAL_MS, timeout_ms = HEARTBEAT_TIMEOUT_MS, page_range_start = 0, page_range_end = 0\<rparr>"

definition dsm_client_config_from_env ::
  "(string \<Rightarrow> string option) \<Rightarrow> dsm_client_config \<Rightarrow> dsm_client_config" where
  "dsm_client_config_from_env env cfg =
     (let cfg = cfg\<lparr>cc_host := dsm_env_str env ''DSM_HOST'' (cc_host cfg)\<rparr>;
          cfg = cfg\<lparr>cc_port := word_of_int (dsm_env_long env ''DSM_PORT'' (uint (cc_port cfg)) 1 65535)\<rparr>;
          cfg = cfg\<lparr>cc_num_pages :=
            word_of_int (dsm_env_long env ''DSM_NUM_PAGES'' (uint (cc_num_pages cfg)) 1 UINT32_MAX)\<rparr>;
          cfg = cfg\<lparr>cc_num_virtual_pages :=
            word_of_int (dsm_env_long env ''DSM_NUM_VIRTUAL_PAGES'' (uint (cc_num_virtual_pages cfg)) 1 UINT32_MAX)\<rparr>;
          cfg = cfg\<lparr>cc_num_iterations :=
            word_of_int (dsm_env_long env ''DSM_NUM_ITERATIONS'' (uint (cc_num_iterations cfg)) 0 UINT32_MAX)\<rparr>;
          cfg = cfg\<lparr>cc_locality_percent :=
            word_of_int (dsm_env_long env ''DSM_LOCALITY_PERCENT'' (uint (cc_locality_percent cfg)) 0 100)\<rparr>;
          cfg = cfg\<lparr>cc_write_percent :=
            word_of_int (dsm_env_long env ''DSM_WRITE_PERCENT'' (uint (cc_write_percent cfg)) 0 100)\<rparr>;
          cfg = (if env ''DSM_VERBOSE'' = Some ''1'' then cfg\<lparr>cc_verbose := True\<rparr> else cfg)
      in if env ''DSM_VERIFY'' = Some ''1'' then cfg\<lparr>cc_verify_mode := True\<rparr> else cfg)"

definition dsm_server_config_from_env ::
  "(string \<Rightarrow> string option) \<Rightarrow> dsm_server_config \<Rightarrow> dsm_server_config" where
  "dsm_server_config_from_env env cfg =
     (let cfg = cfg\<lparr>sc_port := word_of_int (dsm_env_long env ''DSM_PORT'' (uint (sc_port cfg)) 1 65535)\<rparr>;
          cfg = cfg\<lparr>sc_num_virtual_pages :=
            word_of_int (dsm_env_long env ''DSM_NUM_VIRTUAL_PAGES'' (uint (sc_num_virtual_pages cfg)) 1 UINT32_MAX)\<rparr>;
          cfg = (if env ''DSM_VERBOSE'' = Some ''1'' then cfg\<lparr>sc_verbose := True\<rparr> else cfg)
      in cfg\<lparr>sc_bind_addr := dsm_env_str env ''DSM_BIND_ADDR'' (sc_bind_addr cfg)\<rparr>)"

definition cluster_config_from_env :: "(string \<Rightarrow> string option) \<Rightarrow> cluster_config \<Rightarrow> cluster_config" where
  "cluster_config_from_env env cfg =
     (let cfg = cfg\<lparr>seed_addr := dsm_env_str env ''DSM_SEED_ADDR'' (seed_addr cfg)\<rparr>;
          cfg = cfg\<lparr>seed_port := word_of_int (dsm_env_long env ''DSM_SEED_PORT'' (uint (seed_port cfg)) 1 65535)\<rparr>;
          cfg = cfg\<lparr>cfg_node_id := dsm_env_str env ''DSM_NODE_ID'' (cfg_node_id cfg)\<rparr>;
          cfg = cfg\<lparr>cluster_port := word_of_int (dsm_env_long env ''DSM_CLUSTER_PORT'' (uint (cluster_port cfg)) 1 65535)\<rparr>;
          cfg = cfg\<lparr>heartbeat_ms :=
            word_of_int (dsm_env_long env ''DSM_HEARTBEAT_MS'' (uint (heartbeat_ms cfg)) 1 UINT32_MAX)\<rparr>;
          cfg = cfg\<lparr>gossip_ms := word_of_int (dsm_env_long env ''DSM_GOSSIP_MS'' (uint (gossip_ms cfg)) 1 UINT32_MAX)\<rparr>;
          cfg = cfg\<lparr>timeout_ms := word_of_int (dsm_env_long env ''DSM_TIMEOUT_MS'' (uint (timeout_ms cfg)) 1 UINT32_MAX)\<rparr>;
          cfg = cfg\<lparr>page_range_start :=
            word_of_int (dsm_env_long env ''DSM_PAGE_RANGE_START'' (uint (page_range_start cfg)) 0 UINT32_MAX)\<rparr>
      in cfg\<lparr>page_range_end :=
            word_of_int (dsm_env_long env ''DSM_PAGE_RANGE_END'' (uint (page_range_end cfg)) 0 UINT32_MAX)\<rparr>)"

paragraph \<open>Command lines\<close>

text \<open>
  \<open>getopt_long\<close> is the C library's; its results, option letters with their arguments in the
  order of the command line, are the input. \<open>Inl\<close> is the exit status of a \<open>main\<close> that ends
  here, \<open>Inr\<close> the configuration it goes on with.
\<close>

type_synonym option_list = "(char \<times> string) list"

definition checked :: "int option \<Rightarrow> (int \<Rightarrow> 'c) \<Rightarrow> int + 'c" where
  "checked r f = (case r of None \<Rightarrow> Inl 1 | Some n \<Rightarrow> Inr (f n))"

definition client_option :: "char \<Rightarrow> string \<Rightarrow> dsm_client_config \<Rightarrow> int + dsm_client_config" where
  "client_option opt optarg cfg =
     (if opt = CHR ''H'' then Inr (cfg\<lparr>cc_host := Some optarg\<rparr>)
      else if opt = CHR ''p'' then checked (dsm_parse_long optarg 1 65535) (\<lambda>n. cfg\<lparr>cc_port := word_of_int n\<rparr>)
      else if opt = CHR ''n'' then checked (dsm_parse_long optarg 1 UINT32_MAX) (\<lambda>n. cfg\<lparr>cc_num_pages := word_of_int n\<rparr>)
      else if opt = CHR ''N'' then checked (dsm_parse_long optarg 1 UINT32_MAX) (\<lambda>n. cfg\<lparr>cc_num_virtual_pages := word_of_int n\<rparr>)
      else if opt = CHR ''i'' then checked (dsm_parse_long optarg 0 UINT32_MAX) (\<lambda>n. cfg\<lparr>cc_num_iterations := word_of_int n\<rparr>)
      else if opt = CHR ''l'' then checked (dsm_parse_long optarg 0 100) (\<lambda>n. cfg\<lparr>cc_locality_percent := word_of_int n\<rparr>)
      else if opt = CHR ''w'' then checked (dsm_parse_long optarg 0 100) (\<lambda>n. cfg\<lparr>cc_write_percent := word_of_int n\<rparr>)
      else if opt = CHR ''v'' then Inr (cfg\<lparr>cc_verbose := True\<rparr>)
      else if opt = CHR ''t'' then Inr (cfg\<lparr>cc_verify_mode := True\<rparr>)
      else if opt = CHR ''h'' then Inl 0
      else Inl 1)"

fun client_options :: "option_list \<Rightarrow> dsm_client_config \<Rightarrow> int + dsm_client_config" where
  "client_options [] cfg = Inr cfg"
| "client_options ((opt, optarg) # rest) cfg =
     (case client_option opt optarg cfg of Inl status \<Rightarrow> Inl status | Inr cfg \<Rightarrow> client_options rest cfg)"

text \<open>The checks \<open>main\<close> of the client makes before it connects.\<close>

definition client_validate :: "dsm_client_config \<Rightarrow> int + dsm_client_config" where
  "client_validate cfg =
     (let cfg = (if cc_verify_mode cfg then cfg\<lparr>cc_num_virtual_pages := 4 * cc_num_pages cfg\<rparr> else cfg) in
      if cc_locality_percent cfg > 100 then Inl 1
      else if cc_write_percent cfg > 100 then Inl 1
      else if cc_num_pages cfg = 0 \<or> cc_num_virtual_pages cfg = 0 then Inl 1
      else if cc_num_pages cfg > cc_num_virtual_pages cfg then Inl 1
      else Inr cfg)"

text \<open>
  \<open>sscanf(arg, "%u:%u")\<close> of the server's \<open>-r\<close> option: a conversion saturates at the
  64-bit \<open>ULONG_MAX\<close>, negates modulo \<open>2^64\<close>, and is then stored in 32 bits.
\<close>

definition ULONG_MAX :: int where "ULONG_MAX = 18446744073709551615"

definition scan_u32 :: "string \<Rightarrow> (u32 \<times> string) option" where
  "scan_u32 s =
     (let (neg, ds, rest) = scan_number s in
      if ds = [] then None
      else let v = digits_value 0 ds; v = (if v > ULONG_MAX then ULONG_MAX else if neg then - v else v)
           in Some (word_of_int v, rest))"

definition scan_range :: "string \<Rightarrow> (u32 \<times> u32) option" where
  "scan_range s =
     (case scan_u32 s of None \<Rightarrow> None
      | Some (a, rest) \<Rightarrow>
          (if rest \<noteq> [] \<and> hd rest = CHR '':''
           then (case scan_u32 (tl rest) of None \<Rightarrow> None | Some (b, _) \<Rightarrow> Some (a, b)) else None))"

definition server_option ::
  "char \<Rightarrow> string \<Rightarrow> dsm_server_config \<times> cluster_config \<Rightarrow> int + dsm_server_config \<times> cluster_config" where
  "server_option opt optarg c =
     (let (cfg, ccfg) = c in
      if opt = CHR ''p'' then checked (dsm_parse_long optarg 1 65535) (\<lambda>n. (cfg\<lparr>sc_port := word_of_int n\<rparr>, ccfg))
      else if opt = CHR ''b'' then Inr (cfg\<lparr>sc_bind_addr := Some optarg\<rparr>, ccfg)
      else if opt = CHR ''n'' then checked (dsm_parse_long optarg 1 UINT32_MAX) (\<lambda>n. (cfg\<lparr>sc_num_virtual_pages := word_of_int n\<rparr>, ccfg))
      else if opt = CHR ''v'' then Inr (cfg\<lparr>sc_verbose := True\<rparr>, ccfg)
      else if opt = CHR ''s'' then Inr (cfg, ccfg\<lparr>seed_addr := Some optarg\<rparr>)
      else if opt = CHR ''S'' then checked (dsm_parse_long optarg 1 65535) (\<lambda>n. (cfg, ccfg\<lparr>seed_port := word_of_int n\<rparr>))
      else if opt = CHR ''c'' then checked (dsm_parse_long optarg 1 65535) (\<lambda>n. (cfg, ccfg\<lparr>cluster_port := word_of_int n\<rparr>))
      else if opt = CHR ''r'' then (case scan_range optarg of None \<Rightarrow> Inl 1
        | Some (a, b) \<Rightarrow> Inr (cfg, ccfg\<lparr>page_range_start := a, page_range_end := b\<rparr>))
      else if opt = CHR ''i'' then Inr (cfg, ccfg\<lparr>cfg_node_id := Some optarg\<rparr>)
      else if opt = CHR ''h'' then Inl 0
      else Inl 1)"

fun server_options ::
  "option_list \<Rightarrow> dsm_server_config \<times> cluster_config \<Rightarrow> int + dsm_server_config \<times> cluster_config" where
  "server_options [] c = Inr c"
| "server_options ((opt, optarg) # rest) c =
     (case server_option opt optarg c of Inl status \<Rightarrow> Inl status | Inr c \<Rightarrow> server_options rest c)"

text \<open>What every configuration the programs run with satisfies.\<close>

definition client_config_ok :: "dsm_client_config \<Rightarrow> bool" where
  "client_config_ok cfg \<longleftrightarrow> cc_port cfg \<noteq> 0 \<and> cc_num_pages cfg \<noteq> 0 \<and> cc_num_virtual_pages cfg \<noteq> 0 \<and>
     cc_locality_percent cfg \<le> 100 \<and> cc_write_percent cfg \<le> 100"

definition server_config_ok :: "dsm_server_config \<times> cluster_config \<Rightarrow> bool" where
  "server_config_ok c \<longleftrightarrow> sc_port (fst c) \<noteq> 0 \<and> sc_num_virtual_pages (fst c) \<noteq> 0 \<and> seed_port (snd c) \<noteq> 0 \<and>
     cluster_port (snd c) \<noteq> 0 \<and> heartbeat_ms (snd c) \<noteq> 0 \<and> gossip_ms (snd c) \<noteq> 0 \<and> timeout_ms (snd c) \<noteq> 0"

paragraph \<open>Decimal notation\<close>

text \<open>A reference for the parser: the decimal notation of a number.\<close>

fun nat_digits :: "nat \<Rightarrow> string" where
  "nat_digits n = (if n < 10 then [char_of (48 + n)] else nat_digits (n div 10) @ [char_of (48 + n mod 10)])"

definition decimal :: "int \<Rightarrow> string" where
  "decimal n = (if n < 0 then CHR ''-'' # nat_digits (nat (- n)) else nat_digits (nat n))"

subsection \<open>Reading back decimal notation\<close>

declare nat_digits.simps [simp del]

lemma char_code_digit [simp]: "(k :: nat) < 10 \<Longrightarrow> char_code (char_of (48 + k)) = 48 + k"
  by (simp add: char_code_def of_char_of)

lemma is_digit_digit [simp]: "(k :: nat) < 10 \<Longrightarrow> is_digit (char_of (48 + k))"
  by (simp add: is_digit_def)

lemma digits_value_append: "digits_value acc (xs @ ys) = digits_value (digits_value acc xs) ys"
  by (induction acc xs rule: digits_value.induct) simp_all

lemma nat_digits_digits: "\<forall>ch \<in> set (nat_digits n). is_digit ch"
proof (induction n rule: nat_digits.induct)
  case (1 n)
  then show ?case by (subst nat_digits.simps) auto
qed

lemma nat_digits_ne [simp]: "nat_digits n \<noteq> []"
  by (subst nat_digits.simps) simp

lemma digits_value_nat: "digits_value 0 (nat_digits n) = int n"
proof (induction n rule: nat_digits.induct)
  case (1 n)
  have "10 * int (n div 10) + int (n mod 10) = int n"
    by presburger
  with 1 show ?case
    by (subst nat_digits.simps) (simp add: digits_value_append)
qed

lemma is_digit_not_space: "is_digit ch \<Longrightarrow> \<not> is_space ch \<and> char_code ch \<noteq> 43 \<and> char_code ch \<noteq> 45"
  by (auto simp: is_digit_def is_space_def)

lemma scan_digits:
  assumes "\<forall>ch \<in> set ds. is_digit ch" and "ds \<noteq> []"
  shows "scan_number ds = (False, ds, [])" and "scan_number (CHR ''-'' # ds) = (True, ds, [])"
proof -
  have "\<not> is_space (hd ds)" "char_code (hd ds) \<noteq> 43" "char_code (hd ds) \<noteq> 45"
    using is_digit_not_space [of "hd ds"] assms by simp_all
  moreover from this have "dropWhile is_space ds = ds"
    using assms(2) by (cases ds) simp_all
  moreover have "takeWhile is_digit ds = ds" "dropWhile is_digit ds = []"
    using assms(1) by (simp_all add: takeWhile_eq_all_conv dropWhile_eq_Nil_conv)
  ultimately show "scan_number ds = (False, ds, [])" "scan_number (CHR ''-'' # ds) = (True, ds, [])"
    by (simp_all add: scan_number_def Let_def is_space_def char_code_def)
qed

lemma strtol_decimal:
  assumes "LONG_MIN \<le> n" and "n \<le> LONG_MAX"
  shows "strtol (decimal n) = (n, [], False)"
proof (cases "n < 0")
  case True
  then show ?thesis
    using assms scan_digits(2) [OF nat_digits_digits nat_digits_ne, of "nat (- n)"]
    by (simp add: strtol_def decimal_def digits_value_nat Let_def max_def min_def)
next
  case False
  then show ?thesis
    using assms scan_digits(1) [OF nat_digits_digits nat_digits_ne, of "nat n"]
    by (simp add: strtol_def decimal_def digits_value_nat Let_def max_def min_def)
qed

lemma decimal_ne [simp]: "decimal n \<noteq> []"
  by (simp add: decimal_def)

subsection \<open>What the parsers accept\<close>

lemma scan_number_split:
  assumes "scan_number s = (neg, ds, rest)"
  shows "\<exists>sp sgn. s = sp @ sgn @ ds @ rest \<and> (\<forall>ch \<in> set sp. is_space ch) \<and> (\<forall>ch \<in> set ds. is_digit ch) \<and>
    (sgn = [] \<and> \<not> neg \<or> sgn = ''+'' \<and> \<not> neg \<or> sgn = ''-'' \<and> neg)"
proof -
  let ?t = "dropWhile is_space s"
  let ?sgn = "if ?t \<noteq> [] \<and> (char_code (hd ?t) = 43 \<or> char_code (hd ?t) = 45) then [hd ?t] else []"
  let ?u = "if ?t \<noteq> [] \<and> (char_code (hd ?t) = 43 \<or> char_code (hd ?t) = 45) then tl ?t else ?t"
  have eq: "ds = takeWhile is_digit ?u" "rest = dropWhile is_digit ?u" "neg = (?t \<noteq> [] \<and> char_code (hd ?t) = 45)"
    using assms by (auto simp: scan_number_def Let_def)
  have "?t = ?sgn @ ?u" by simp
  then have "s = takeWhile is_space s @ ?sgn @ ds @ rest"
    unfolding eq using takeWhile_dropWhile_id [of is_space s] by simp
  moreover have "\<forall>ch \<in> set (takeWhile is_space s). is_space ch" "\<forall>ch \<in> set ds. is_digit ch"
    unfolding eq by (auto dest: set_takeWhileD)
  moreover have "char_code ch = 43 \<longleftrightarrow> ch = CHR ''+''" "char_code ch = 45 \<longleftrightarrow> ch = CHR ''-''" for ch
    using of_char_eq_iff [of ch "CHR ''+''", where 'a = nat] of_char_eq_iff [of ch "CHR ''-''", where 'a = nat]
    by (simp_all add: char_code_def)
  then have "?sgn = [] \<and> \<not> neg \<or> ?sgn = ''+'' \<and> \<not> neg \<or> ?sgn = ''-'' \<and> neg"
    unfolding eq by auto
  ultimately show ?thesis by blast
qed

lemma env_long_range:
  "mn \<le> dflt \<Longrightarrow> dflt \<le> mx \<Longrightarrow> mn \<le> dsm_env_long env name dflt mn mx \<and> dsm_env_long env name dflt mn mx \<le> mx"
  by (auto simp: dsm_env_long_def Let_def case_prod_unfold split: option.split)

lemma parse_long_range: "dsm_parse_long arg mn mx = Some n \<Longrightarrow> mn \<le> n \<and> n \<le> mx"
  by (auto simp: dsm_parse_long_def Let_def case_prod_unfold split: if_splits)

text \<open>A checked number fits the field it is stored in.\<close>

lemma stored_u16: "1 \<le> n \<Longrightarrow> n \<le> 65535 \<Longrightarrow> (word_of_int n :: u16) \<noteq> 0"
  using word_of_int_range [of "word_of_int n :: u16" n] by auto

lemma stored_u32: "1 \<le> n \<Longrightarrow> n \<le> UINT32_MAX \<Longrightarrow> (word_of_int n :: u32) \<noteq> 0"
  using word_of_int_range [of "word_of_int n :: u32" n] by (auto simp: UINT32_MAX_def)

lemma stored_percent: "0 \<le> n \<Longrightarrow> n \<le> 100 \<Longrightarrow> (word_of_int n :: u8) \<le> 100"
  using word_of_int_range [of "word_of_int n :: u8" n] by (simp add: word_le_def)

lemma uint_pos: "(w :: 'a::len word) \<noteq> 0 \<Longrightarrow> 1 \<le> uint w"
  using uint_0_iff [of w] uint_ge_0 [of w] by linarith

lemma uint_u16_max: "uint (w :: u16) \<le> 65535"
proof -
  have "uint w < 2 ^ LENGTH(16)" by (rule unsigned_less)
  then show ?thesis by simp
qed

lemma uint_u32_max: "uint (w :: u32) \<le> UINT32_MAX"
proof -
  have "uint w < 2 ^ LENGTH(32)" by (rule unsigned_less)
  then show ?thesis by (simp add: UINT32_MAX_def)
qed

lemma env_u16: "(w :: u16) \<noteq> 0 \<Longrightarrow> (word_of_int (dsm_env_long env name (uint w) 1 65535) :: u16) \<noteq> 0"
  using env_long_range [OF uint_pos uint_u16_max] by (intro stored_u16) auto

lemma env_u32: "(w :: u32) \<noteq> 0 \<Longrightarrow> (word_of_int (dsm_env_long env name (uint w) 1 UINT32_MAX) :: u32) \<noteq> 0"
  using env_long_range [OF uint_pos uint_u32_max] by (intro stored_u32) auto

lemma env_percent: "(w :: u8) \<le> 100 \<Longrightarrow> (word_of_int (dsm_env_long env name (uint w) 0 100) :: u8) \<le> 100"
  using env_long_range [of 0 "uint w" 100 env name] uint_ge_0 [of w] by (intro stored_percent) (auto simp: word_le_def)

lemma client_from_env_ok: "client_config_ok cfg \<Longrightarrow> client_config_ok (dsm_client_config_from_env env cfg)"
  by (simp add: client_config_ok_def dsm_client_config_from_env_def Let_def env_u16 env_u32 env_percent)

lemma server_from_env_ok:
  "server_config_ok (cfg, ccfg) \<Longrightarrow> server_config_ok (dsm_server_config_from_env env cfg, cluster_config_from_env env ccfg)"
  by (simp add: server_config_ok_def dsm_server_config_from_env_def cluster_config_from_env_def Let_def env_u16 env_u32)

lemma checked_Inr: "checked (dsm_parse_long arg mn mx) f = Inr c \<Longrightarrow> \<exists>n. mn \<le> n \<and> n \<le> mx \<and> c = f n"
  by (auto simp: checked_def dest: parse_long_range split: option.splits)

lemma client_option_ok: "client_option opt arg cfg = Inr cfg' \<Longrightarrow> client_config_ok cfg \<Longrightarrow> client_config_ok cfg'"
  by (auto simp: client_option_def client_config_ok_def stored_u16 stored_u32 stored_percent
      dest!: checked_Inr split: if_splits)

lemma client_options_ok: "client_options opts cfg = Inr cfg' \<Longrightarrow> client_config_ok cfg \<Longrightarrow> client_config_ok cfg'"
  by (induction opts cfg rule: client_options.induct) (auto dest: client_option_ok split: sum.splits)

lemma server_option_ok: "server_option opt arg c = Inr c' \<Longrightarrow> server_config_ok c \<Longrightarrow> server_config_ok c'"
  by (auto simp: server_option_def server_config_ok_def stored_u16 stored_u32 Let_def case_prod_unfold
      dest!: checked_Inr split: if_splits option.splits)

lemma server_options_ok: "server_options opts c = Inr c' \<Longrightarrow> server_config_ok c \<Longrightarrow> server_config_ok c'"
  by (induction opts c rule: server_options.induct) (auto dest: server_option_ok split: sum.splits)

lemma defaults_ok:
  "client_config_ok dsm_client_config_default" "server_config_ok (dsm_server_config_default, cluster_config_default)"
  by (simp_all add: client_config_ok_def dsm_client_config_default_def server_config_ok_def
      dsm_server_config_default_def cluster_config_default_def)

lemmas scan_defs = scan_number_def is_space_def is_digit_def char_code_def Let_def
lemmas parse_defs = dsm_parse_long_def strtol_def scan_defs LONG_MAX_def LONG_MIN_def UINT32_MAX_def

subsection \<open>Properties\<close>

text \<open>
  What a command-line number means: an accepted argument is white space, an optional
  sign and at least one digit and nothing else, the result is the number it denotes, and it
  lies in the range the option allows.
\<close>

lemma parse_long_sound:
  assumes "dsm_parse_long arg mn mx = Some n"
  shows "mn \<le> n \<and> n \<le> mx \<and> (\<exists>sp sgn ds. arg = sp @ sgn @ ds \<and> (\<forall>ch \<in> set sp. is_space ch) \<and> ds \<noteq> [] \<and>
    (\<forall>ch \<in> set ds. is_digit ch) \<and> (sgn = [] \<or> sgn = ''+'' \<or> sgn = ''-'') \<and>
    n = (if sgn = ''-'' then - digits_value 0 ds else digits_value 0 ds))"
proof -
  obtain neg ds rest where sc: "scan_number arg = (neg, ds, rest)" by (cases "scan_number arg")
  with assms have r: "ds \<noteq> []" "rest = []" "n = (if neg then - digits_value 0 ds else digits_value 0 ds)"
    by (auto simp: dsm_parse_long_def strtol_def Let_def max_def min_def split: if_splits)
  obtain sp sgn where s: "arg = sp @ sgn @ ds @ rest" "\<forall>ch \<in> set sp. is_space ch" "\<forall>ch \<in> set ds. is_digit ch"
    "sgn = [] \<and> \<not> neg \<or> sgn = ''+'' \<and> \<not> neg \<or> sgn = ''-'' \<and> neg"
    using scan_number_split [OF sc] by blast
  have "n = (if sgn = ''-'' then - digits_value 0 ds else digits_value 0 ds)" "sgn = [] \<or> sgn = ''+'' \<or> sgn = ''-''"
    using r(3) s(4) by auto
  then show ?thesis
    using parse_long_range [OF assms] r(1,2) s(1-3)
    by (intro conjI exI [of _ sp] exI [of _ sgn] exI [of _ ds]) simp_all
qed

text \<open>
  Every number of a 64-bit \<open>long\<close> can be passed: its decimal notation is accepted
  unchanged by the command line and by the environment if and only if it is in range;
  out of range, the command line exits and the environment falls back to the default.
\<close>

lemma decimal_roundtrip:
  assumes "LONG_MIN \<le> n" and "n \<le> LONG_MAX" and "env name = Some (decimal n)"
  shows "dsm_parse_long (decimal n) mn mx = (if mn \<le> n \<and> n \<le> mx then Some n else None) \<and>
    dsm_env_long env name dflt mn mx = (if mn \<le> n \<and> n \<le> mx then n else dflt)"
  using strtol_decimal [OF assms(1,2)] assms(3)
  by (simp add: dsm_parse_long_def dsm_env_long_def not_le) (metis decimal_ne not_le)

text \<open>
  C37. Whatever the environment and the command line hold, a client and a server that get
  past their options run with non-zero ports, page counts and intervals and with
  percentages of at most 100: no value is silently truncated into a bad one.
\<close>

theorem configs_checked:
  assumes "client_options copts (dsm_client_config_from_env env dsm_client_config_default) = Inr ccfg"
    and "server_options sopts (dsm_server_config_from_env env dsm_server_config_default,
      cluster_config_from_env env cluster_config_default) = Inr scfg"
  shows "client_config_ok ccfg \<and> server_config_ok scfg"
  using client_options_ok [OF assms(1)] server_options_ok [OF assms(2)] client_from_env_ok server_from_env_ok defaults_ok
  by simp

theorem configs_checked_witness:
  "\<exists>ccfg scfg. client_options [(CHR ''n'', ''16'')] (dsm_client_config_from_env (\<lambda>_. None) dsm_client_config_default) = Inr ccfg \<and>
     server_options [(CHR ''p'', ''80'')] (dsm_server_config_from_env (\<lambda>_. None) dsm_server_config_default,
      cluster_config_from_env (\<lambda>_. None) cluster_config_default) = Inr scfg \<and>
     client_config_ok ccfg \<and> server_config_ok scfg"
proof -
  have "dsm_parse_long ''16'' 1 UINT32_MAX = Some 16" "dsm_parse_long ''80'' 1 65535 = Some 80"
    by (simp_all add: parse_defs)
  then have "\<exists>ccfg. client_options [(CHR ''n'', ''16'')] (dsm_client_config_from_env (\<lambda>_. None) dsm_client_config_default) = Inr ccfg"
    "\<exists>scfg. server_options [(CHR ''p'', ''80'')] (dsm_server_config_from_env (\<lambda>_. None) dsm_server_config_default,
      cluster_config_from_env (\<lambda>_. None) cluster_config_default) = Inr scfg"
    by (simp_all add: client_option_def server_option_def checked_def)
  then obtain ccfg scfg where
    "client_options [(CHR ''n'', ''16'')] (dsm_client_config_from_env (\<lambda>_. None) dsm_client_config_default) = Inr ccfg"
    "server_options [(CHR ''p'', ''80'')] (dsm_server_config_from_env (\<lambda>_. None) dsm_server_config_default,
      cluster_config_from_env (\<lambda>_. None) cluster_config_default) = Inr scfg"
    by blast
  with configs_checked [OF this] show ?thesis by blast
qed

text \<open>
  The page range of \<open>-r\<close> is the exception: it is read with \<open>sscanf\<close>, so a bound beyond 32
  bits wraps, a negative one is accepted, and an empty range is not rejected.
\<close>

lemma range_option_unchecked:
  "server_option CHR ''r'' ''4294967296:-1'' (cfg, ccfg) = Inr (cfg, ccfg\<lparr>page_range_start := 0, page_range_end := 0xFFFFFFFF\<rparr>) \<and>
   server_option CHR ''r'' ''9:3junk'' (cfg, ccfg) = Inr (cfg, ccfg\<lparr>page_range_start := 9, page_range_end := 3\<rparr>)"
proof -
  have "scan_range ''4294967296:-1'' = Some (0, 0xFFFFFFFF)" "scan_range ''9:3junk'' = Some (9, 3)"
    by (simp_all add: scan_range_def scan_u32_def scan_defs ULONG_MAX_def)
  then show ?thesis by (simp add: server_option_def)
qed

end
