(* ===== verification/DSM_Server.thy ===== *)
theory DSM_Server
  imports DSM_Config "HOL-Library.Multiset"
begin

section \<open>The page server (dsm\_server.c)\<close>

text \<open>
  The thread that serves one client connection, the accept loop with its table of client
  threads, and the server as the other end of a client's connection. The globals of the
  program are the fields of \<open>server\<close>; the thread's counters are a record of their own.
\<close>

subsection \<open>Definitions\<close>

record 's server =
  running :: bool
  g_cluster :: "cluster_ctx option"
  g_storage :: bytes
  g_storage_pages :: u32
  g_os :: "'s os"

record counters =
  pages_served :: u64
  pages_written :: u64
  pages_forwarded :: u64

definition handle_signal :: "'s server \<Rightarrow> 's server" where
  "handle_signal srv = srv\<lparr>running := False\<rparr>"

definition zero_page :: bytes where
  "zero_page = replicate PAGE_SIZE 0"

definition is_local :: "'s server \<Rightarrow> u32 \<Rightarrow> bool" where
  "is_local srv pid \<longleftrightarrow> (case g_cluster srv of None \<Rightarrow> True | Some ctx \<Rightarrow> cluster_is_local ctx pid)"

definition storage_offset :: "u32 \<Rightarrow> nat" where
  "storage_offset pid = unat pid * PAGE_SIZE"

definition storage_read :: "'s server \<Rightarrow> u32 \<Rightarrow> bytes outcome" where
  "storage_read srv pid =
     (if storage_offset pid + PAGE_SIZE \<le> length (g_storage srv)
      then Ret (mem_read (g_storage srv) (storage_offset pid) PAGE_SIZE) else Undef)"

definition storage_write :: "'s server \<Rightarrow> u32 \<Rightarrow> bytes \<Rightarrow> 's server outcome" where
  "storage_write srv pid pg =
     (if storage_offset pid + length pg \<le> length (g_storage srv)
      then Ret (srv\<lparr>g_storage := mem_write (g_storage srv) (storage_offset pid) pg\<rparr>) else Undef)"

text \<open>
  One round of the loop of \<open>handle_client_thread\<close>. The first result says whether the loop
  goes on (\<open>False\<close> is \<open>break\<close>). \<open>cp\<close> is the client, \<open>np\<close> the other nodes of the cluster.
\<close>

type_synonym ('c, 's) served = "(bool \<times> counters \<times> 's server \<times> 'c net) outcome"

definition reply :: "int \<Rightarrow> bytes \<Rightarrow> counters \<Rightarrow> counters \<Rightarrow> 's server \<Rightarrow> 'c net \<Rightarrow> ('c, 's) served" where
  "reply fd bs failed sent srv w =
     bind_oc (dsm_send_full fd bs 0 w) (\<lambda>(rc, w).
     if rc < 0 then Ret (False, failed, srv, w) else Ret (True, sent, srv, w))"

definition handle_get :: "'s peer \<Rightarrow> int \<Rightarrow> u32 \<Rightarrow> counters \<Rightarrow> 's server \<Rightarrow> 'c net \<Rightarrow> ('c, 's) served" where
  "handle_get np fd pid st srv w =
     (if is_local srv pid \<and> pid < g_storage_pages srv
      then bind_oc (storage_read srv pid) (\<lambda>data.
           reply fd data st (st\<lparr>pages_served := pages_served st + 1\<rparr>) srv w)
      else case g_cluster srv of
        Some ctx \<Rightarrow>
          bind_oc (cluster_forward_get np ctx pid (g_os srv)) (\<lambda>(rc, page_buf, ctx, os).
          let srv = srv\<lparr>g_cluster := Some ctx, g_os := os\<rparr> in
          if rc = 0
          then let st = st\<lparr>pages_forwarded := pages_forwarded st + 1\<rparr> in reply fd page_buf st st srv w
          else reply fd zero_page st st srv w)
      | None \<Rightarrow> reply fd zero_page st st srv w)"

definition handle_put ::
  "'c peer \<Rightarrow> 's peer \<Rightarrow> int \<Rightarrow> u32 \<Rightarrow> counters \<Rightarrow> 's server \<Rightarrow> 'c net \<Rightarrow> ('c, 's) served" where
  "handle_put cp np fd pid st srv w =
     bind_oc (dsm_recv_full cp fd PAGE_SIZE w) (\<lambda>(rc, page_buf, w).
     if rc < 0 then Ret (False, st, srv, w)
     else bind_oc
       (if is_local srv pid \<and> pid < g_storage_pages srv
        then bind_oc (storage_write srv pid page_buf) (\<lambda>srv.
             Ret (True, st\<lparr>pages_written := pages_written st + 1\<rparr>, srv))
        else case g_cluster srv of
          Some ctx \<Rightarrow>
            bind_oc (cluster_forward_put np ctx pid page_buf (g_os srv)) (\<lambda>(rc, ctx, os).
            let srv = srv\<lparr>g_cluster := Some ctx, g_os := os\<rparr> in
            if rc < 0 then Ret (False, st, srv)
            else Ret (True, st\<lparr>pages_forwarded := pages_forwarded st + 1\<rparr>, srv))
        | None \<Rightarrow> Ret (False, st, srv))
       (\<lambda>(ok, st, srv).
         if \<not> ok then Ret (False, st, srv, w)
         else reply fd (header_bytes (dsm_rpc_make_header OP_ACK pid)) st st srv w))"

definition handle_request ::
  "'c peer \<Rightarrow> 's peer \<Rightarrow> int \<Rightarrow> counters \<Rightarrow> 's server \<Rightarrow> 'c net \<Rightarrow> ('c, 's) served" where
  "handle_request cp np fd st srv w =
     bind_oc (dsm_recv_full cp fd HDR_SIZE w) (\<lambda>(rc, bs, w).
     if rc < 0 then Ret (False, st, srv, w)
     else let req = header_of_bytes bs in
       if h_op req = OP_GET_PAGE then handle_get np fd (h_page_id req) st srv w
       else if h_op req = OP_PUT_PAGE then handle_put cp np fd (h_page_id req) st srv w
       else Ret (True, st, srv, w))"

text \<open>The whole thread; it may serve its client for ever, so it takes fuel.\<close>

primrec handle_client_thread ::
  "nat \<Rightarrow> 'c peer \<Rightarrow> 's peer \<Rightarrow> int \<Rightarrow> counters \<Rightarrow> 's server \<Rightarrow> 'c net \<Rightarrow> (counters \<times> 's server \<times> 'c net) outcome" where
  "handle_client_thread 0 cp np fd st srv w = Diverges"
| "handle_client_thread (Suc fuel) cp np fd st srv w =
     (if \<not> running srv then Ret (st, srv, w)
      else bind_oc (handle_request cp np fd st srv w) (\<lambda>(go, st, srv, w).
           if go then handle_client_thread fuel cp np fd st srv w else Ret (st, srv, w)))"

paragraph \<open>Well-formed servers and the pages they serve\<close>

definition server_ok :: "'s server \<Rightarrow> bool" where
  "server_ok srv \<longleftrightarrow> length (g_storage srv) = unat (g_storage_pages srv) * PAGE_SIZE \<and>
     (case g_cluster srv of None \<Rightarrow> True | Some ctx \<Rightarrow> links_ok ctx (g_os srv))"

text \<open>
  A page is served from the storage, or by the node it is routed to if the connection to
  that node is in order and the node has the page.
\<close>

definition server_store ::
  "('s \<Rightarrow> bool) \<Rightarrow> ('s \<Rightarrow> u32 \<Rightarrow> bytes) \<Rightarrow> 's server \<Rightarrow> u32 \<Rightarrow> bytes" where
  "server_store nready nstore srv pid =
     (if is_local srv pid \<and> pid < g_storage_pages srv
      then mem_read (g_storage srv) (storage_offset pid) PAGE_SIZE
      else case g_cluster srv of None \<Rightarrow> []
        | Some ctx \<Rightarrow>
            (case route ctx (g_os srv) pid of None \<Rightarrow> []
             | Some (i, fd, w) \<Rightarrow> if synced nready w \<and> reliable (kern w) then nstore (far w) pid else []))"

paragraph \<open>Starting up\<close>

text \<open>
  \<open>get_local_addr\<close> takes the interface list of \<open>getifaddrs\<close> (\<open>None\<close> if it fails): name, address
  family and IPv4 address of every interface that has an address. \<open>start_server\<close> takes what
  \<open>socket\<close> returns and which of the later calls succeed, and returns the listening
  descriptor with the descriptors it closed.
\<close>

definition AF_INET :: nat where "AF_INET = 2"

definition INADDR_LOOPBACK_BE :: u32 where "INADDR_LOOPBACK_BE = 0x0100007F"

fun first_address :: "(string \<times> (nat \<times> u32) option) list \<Rightarrow> u32 \<Rightarrow> u32" where
  "first_address [] addr = addr"
| "first_address ((name, a) # rest) addr =
     (case a of None \<Rightarrow> first_address rest addr
      | Some (family, s_addr) \<Rightarrow>
          if family \<noteq> AF_INET then first_address rest addr
          else if name = ''lo'' then first_address rest addr
          else s_addr)"

definition get_local_addr :: "(string \<times> (nat \<times> u32) option) list option \<Rightarrow> u32" where
  "get_local_addr ifs =
     (let addr = INADDR_LOOPBACK_BE in case ifs of None \<Rightarrow> addr | Some ifa \<Rightarrow> first_address ifa addr)"

definition start_server :: "int \<Rightarrow> bool \<Rightarrow> bool \<Rightarrow> bool \<Rightarrow> bool \<Rightarrow> int \<times> int list" where
  "start_server listen_fd reuse_ok addr_ok bind_ok listen_ok =
     (if listen_fd < 0 then (-1, [])
      else if \<not> reuse_ok then (-1, [listen_fd])
      else if \<not> addr_ok then (-1, [listen_fd])
      else if \<not> bind_ok then (-1, [listen_fd])
      else if \<not> listen_ok then (-1, [listen_fd])
      else (listen_fd, []))"

text \<open>
  What the system answers while \<open>main\<close> starts up, and the first half of \<open>main\<close>: \<open>Inl\<close> is an
  exit status, \<open>Inr\<close> the server, the JOIN message sent and the listening descriptor.
\<close>

record 's startup =
  mmap_ok :: bool
  calloc_ok :: bool
  lock_ok :: bool
  interfaces :: "(string \<times> (nat \<times> u32) option) list option"
  generated_id :: bytes
  created_at :: u64
  udp_socket :: int
  udp_bind_ok :: bool
  gossip_thread_ok :: bool
  heartbeat_thread_ok :: bool
  seed_address :: "(u32 \<times> u16) option"
  member_counts :: "nat \<Rightarrow> nat"
  tcp_socket :: int
  reuse_ok :: bool
  addr_ok :: bool
  tcp_bind_ok :: bool
  listen_ok :: bool
  slots_ok :: bool
  system :: "'s os"

type_synonym join_msg = "((u32 \<times> u16) \<times> bytes) option"

definition server_cluster ::
  "'s startup \<Rightarrow> dsm_server_config \<Rightarrow> cluster_config \<Rightarrow> (int + (cluster_ctx option \<times> join_msg)) outcome" where
  "server_cluster e cfg ccfg =
     (if page_range_end ccfg > 0
      then case cluster_create (calloc_ok e) (lock_ok e) ccfg (get_local_addr (interfaces e)) (sc_port cfg)
                  (generated_id e) (created_at e) of
        None \<Rightarrow> Ret (Inl 1)
      | Some ctx \<Rightarrow>
          (let (rc, ctx, closed) = cluster_start ctx (udp_socket e) (udp_bind_ok e) (gossip_thread_ok e) (heartbeat_thread_ok e)
           in if rc < 0 then Ret (Inl 1)
              else if seed_addr ccfg \<noteq> None
              then bind_oc (cluster_join ctx (seed_address e) (member_counts e)) (\<lambda>(rc, sent). Ret (Inr (Some ctx, sent)))
              else Ret (Inr (Some ctx, None)))
      else Ret (Inr (None, None)))"

definition server_init ::
  "'s startup \<Rightarrow> dsm_server_config \<Rightarrow> cluster_config \<Rightarrow> (int + ('s server \<times> join_msg \<times> int)) outcome" where
  "server_init e cfg ccfg =
     (let pages = sc_num_virtual_pages cfg; storage_size = unat pages * PAGE_SIZE in
      if \<not> mmap_ok e \<or> storage_size = 0 then Ret (Inl 1)
      else bind_oc (server_cluster e cfg ccfg) (\<lambda>r.
        case r of Inl status \<Rightarrow> Ret (Inl status)
        | Inr (cluster, sent) \<Rightarrow>
            (let (listen_fd, closed) = start_server (tcp_socket e) (reuse_ok e) (addr_ok e) (tcp_bind_ok e) (listen_ok e) in
             if listen_fd < 0 then Ret (Inl 1)
             else if \<not> slots_ok e then Ret (Inl 1)
             else Ret (Inr (\<lparr>running = True, g_cluster = cluster, g_storage = replicate storage_size 0,
                             g_storage_pages = pages, g_os = system e\<rparr>, sent, listen_fd)))))"

paragraph \<open>Accepting clients\<close>

text \<open>
  The table of client threads is an array of thread id and descriptor with room for
  \<open>slot_cap\<close> entries, of which the first \<open>slot_count\<close> are in use. \<open>opened\<close> and \<open>closed\<close> record
  the client descriptors that \<open>accept\<close> returned and that were closed. One round of the loop
  gets what the system answers in it: the result of \<open>accept\<close>, whether \<open>malloc\<close> and \<open>realloc\<close>
  succeed, which threads \<open>pthread_tryjoin_np\<close> finds finished, the id of the new thread
  (\<open>None\<close> if \<open>pthread_create\<close> fails), and what the memory gained by \<open>realloc\<close> holds.
\<close>

definition MAX_CLIENTS :: nat where "MAX_CLIENTS = 256"

type_synonym client_slot = "nat \<times> int"

record slot_table =
  slots :: "client_slot list"
  slot_count :: nat
  slot_cap :: nat
  opened :: "int list"
  closed :: "int list"

datatype accept_ans = Accepted int | Interrupted | Accept_failed

record round =
  accept_ans :: accept_ans
  arg_ok :: bool
  finished :: "nat \<Rightarrow> bool"
  realloc_ok :: bool
  new_cells :: client_slot
  created :: "nat option"

fun reap_loop :: "(nat \<Rightarrow> bool) \<Rightarrow> nat list \<Rightarrow> nat \<Rightarrow> slot_table \<Rightarrow> (nat \<times> slot_table) outcome" where
  "reap_loop fin [] kept t = Ret (kept, t)"
| "reap_loop fin (i # is) kept t =
     bind_oc (idx (slots t) i) (\<lambda>s.
     if fin (fst s) then reap_loop fin is kept (t\<lparr>closed := closed t @ [snd s]\<rparr>)
     else bind_oc (upd (slots t) kept s) (\<lambda>arr. reap_loop fin is (Suc kept) (t\<lparr>slots := arr\<rparr>)))"

definition make_room :: "round \<Rightarrow> slot_table \<Rightarrow> (bool \<times> slot_table) outcome" where
  "make_room r t =
     (if slot_count t = slot_cap t
      then bind_oc (reap_loop (finished r) [0..<slot_count t] 0 t) (\<lambda>(kept, t).
        let t = t\<lparr>slot_count := kept\<rparr> in
        if slot_count t = slot_cap t
        then if \<not> realloc_ok r then Ret (False, t)
             else Ret (True, t\<lparr>slots := slots t @ replicate (slot_cap t) (new_cells r), slot_cap := 2 * slot_cap t\<rparr>)
        else Ret (True, t))
      else Ret (True, t))"

definition accept_round :: "round \<Rightarrow> slot_table \<Rightarrow> (bool \<times> slot_table) outcome" where
  "accept_round r t =
     (case accept_ans r of
        Interrupted \<Rightarrow> Ret (True, t)
      | Accept_failed \<Rightarrow> Ret (False, t)
      | Accepted client_fd \<Rightarrow>
          (let t = t\<lparr>opened := opened t @ [client_fd]\<rparr> in
           if \<not> arg_ok r then Ret (True, t\<lparr>closed := closed t @ [client_fd]\<rparr>)
           else bind_oc (make_room r t) (\<lambda>(ok, t).
             if \<not> ok then Ret (True, t\<lparr>closed := closed t @ [client_fd]\<rparr>)
             else case created r of
               None \<Rightarrow> Ret (True, t\<lparr>closed := closed t @ [client_fd]\<rparr>)
             | Some tid \<Rightarrow>
                 bind_oc (upd (slots t) (slot_count t) (tid, client_fd)) (\<lambda>arr.
                 Ret (True, t\<lparr>slots := arr, slot_count := Suc (slot_count t)\<rparr>)))))"

text \<open>The loop, up to the end of the rounds that happen before a signal clears \<open>running\<close>.\<close>

fun accept_loop :: "round list \<Rightarrow> slot_table \<Rightarrow> slot_table outcome" where
  "accept_loop [] t = Ret t"
| "accept_loop (r # rs) t =
     bind_oc (accept_round r t) (\<lambda>(go, t). if go then accept_loop rs t else Ret t)"

fun close_slots :: "nat list \<Rightarrow> slot_table \<Rightarrow> slot_table outcome" where
  "close_slots [] t = Ret t"
| "close_slots (i # is) t =
     bind_oc (idx (slots t) i) (\<lambda>s. close_slots is (t\<lparr>closed := closed t @ [snd s]\<rparr>))"

definition empty_slots :: "client_slot \<Rightarrow> slot_table" where
  "empty_slots junk = \<lparr>slots = replicate MAX_CLIENTS junk, slot_count = 0, slot_cap = MAX_CLIENTS, opened = [], closed = []\<rparr>"

text \<open>
  The whole of \<open>main\<close>: the exit status, the slot table and the descriptors \<open>cluster_destroy\<close>
  closes. The work of the client threads is \<open>handle_client_thread\<close>; what they do to the
  cluster context is not threaded through here.
\<close>

definition server_main ::
  "(string \<Rightarrow> string option) \<Rightarrow> option_list \<Rightarrow> 's startup \<Rightarrow> round list \<Rightarrow> client_slot \<Rightarrow>
     (int \<times> slot_table \<times> int list) outcome" where
  "server_main env opts e rounds junk =
     (case server_options opts (dsm_server_config_from_env env dsm_server_config_default,
                                cluster_config_from_env env cluster_config_default) of
        Inl status \<Rightarrow> Ret (status, empty_slots junk, [])
      | Inr (cfg, ccfg) \<Rightarrow>
          bind_oc (server_init e cfg ccfg) (\<lambda>r.
          case r of Inl status \<Rightarrow> Ret (status, empty_slots junk, [])
          | Inr (srv, sent, listen_fd) \<Rightarrow>
              bind_oc (accept_loop rounds (empty_slots junk)) (\<lambda>t.
              bind_oc (close_slots [0..<slot_count t] t) (\<lambda>t.
              Ret (0, t, case g_cluster srv of None \<Rightarrow> [] | Some ctx \<Rightarrow> snd (cluster_destroy ctx))))))"

text \<open>A system that grants everything.\<close>

definition sample_startup :: "unit startup" where
  "sample_startup =
     \<lparr>mmap_ok = True, calloc_ok = True, lock_ok = True, interfaces = None, generated_id = replicate NODE_ID_LEN 9,
      created_at = 0, udp_socket = 5, udp_bind_ok = True, gossip_thread_ok = True, heartbeat_thread_ok = True,
      seed_address = None, member_counts = \<lambda>_. 1, tcp_socket = 3, reuse_ok = True, addr_ok = True, tcp_bind_ok = True,
      listen_ok = True, slots_ok = True,
      system = \<lparr>conns = \<lambda>_. \<lparr>tx = [], rx = [], far = (), kern = \<lambda>_. [], calls = 0\<rparr>, dial = \<lambda>_ _ _. Refused, dials = 0\<rparr>\<rparr>"

paragraph \<open>What keeps a server safe\<close>

definition server_shape :: "'s server \<Rightarrow> bool" where
  "server_shape srv \<longleftrightarrow> length (g_storage srv) = unat (g_storage_pages srv) * PAGE_SIZE \<and>
     (case g_cluster srv of None \<Rightarrow> True | Some ctx \<Rightarrow> ctx_ok ctx)"

definition unharmed :: "'s server \<Rightarrow> 's server \<Rightarrow> bool" where
  "unharmed srv srv' \<longleftrightarrow> server_shape srv' \<and> running srv' = running srv \<and> g_storage_pages srv' = g_storage_pages srv"

definition live_slots :: "slot_table \<Rightarrow> client_slot list" where
  "live_slots t = take (slot_count t) (slots t)"

text \<open>\<open>pending\<close> are the accepted descriptors that are in no slot yet.\<close>

definition slots_inv :: "int multiset \<Rightarrow> slot_table \<Rightarrow> bool" where
  "slots_inv pending t \<longleftrightarrow> length (slots t) = slot_cap t \<and> slot_count t \<le> slot_cap t \<and> 0 < slot_cap t \<and>
     mset (opened t) = mset (closed t) + mset (map snd (live_slots t)) + pending"

subsection \<open>Storage\<close>

lemma storage_bound:
  assumes "server_ok srv" and "pid < g_storage_pages srv"
  shows "storage_offset pid + PAGE_SIZE \<le> length (g_storage srv)"
  using assms slot_bound [of "unat pid" "unat (g_storage_pages srv)" PAGE_SIZE]
  by (simp add: storage_offset_def server_ok_def word_less_nat_alt)

lemma storage_disjoint:
  "p \<noteq> q \<Longrightarrow> storage_offset p + PAGE_SIZE \<le> storage_offset q \<or> storage_offset q + PAGE_SIZE \<le> storage_offset p"
  unfolding storage_offset_def by (rule slots_disjoint) simp

lemma storage_write_ok:
  assumes ok: "server_ok srv" and loc: "is_local srv pid" "pid < g_storage_pages srv" and len: "length pg = PAGE_SIZE"
  shows "\<exists>srv'. storage_write srv pid pg = Ret srv' \<and> server_ok srv' \<and> running srv' = running srv \<and>
    server_store nr ns srv' = (server_store nr ns srv)(pid := pg)"
proof -
  let ?srv = "srv\<lparr>g_storage := mem_write (g_storage srv) (storage_offset pid) pg\<rparr>"
  note b = storage_bound [OF ok]
  have "server_store nr ns ?srv q = ((server_store nr ns srv)(pid := pg)) q" for q
  proof (cases "q = pid")
    case True
    with loc b [OF loc(2)] len show ?thesis
      using mem_read_write_same [of "storage_offset pid" pg "g_storage srv"]
      by (simp add: server_store_def is_local_def)
  next
    case False
    have "mem_read (g_storage ?srv) (storage_offset q) PAGE_SIZE = mem_read (g_storage srv) (storage_offset q) PAGE_SIZE"
      if "q < g_storage_pages srv"
      using mem_read_write_other [of "storage_offset pid" pg "g_storage srv" "storage_offset q" PAGE_SIZE]
        b [OF that] b [OF loc(2)] len storage_disjoint [OF False] by auto
    with False show ?thesis
      by (simp add: server_store_def is_local_def cong: option.case_cong)
  qed
  moreover have "server_ok ?srv"
    using ok b [OF loc(2)] len by (simp add: server_ok_def length_mem_write cong: option.case_cong)
  ultimately show ?thesis
    using b [OF loc(2)] len by (auto simp: storage_write_def)
qed

subsection \<open>The table of client threads\<close>

text \<open>
  Reaping compacts the array in place: what is left at the front are the slots of the
  threads still running, in order, and the descriptors of the others have been closed.
\<close>

lemma reap_loop_spec:
  assumes "kept \<le> i" and "i \<le> n" and "n \<le> length (slots t)"
  shows "\<exists>arr. reap_loop fin [i..<n] kept t =
      Ret (kept + length (filter (\<lambda>s. \<not> fin (fst s)) (drop i (take n (slots t)))),
        t\<lparr>slots := arr, closed := closed t @ map snd (filter (\<lambda>s. fin (fst s)) (drop i (take n (slots t))))\<rparr>) \<and>
    length arr = length (slots t) \<and>
    take (kept + length (filter (\<lambda>s. \<not> fin (fst s)) (drop i (take n (slots t))))) arr =
      take kept (slots t) @ filter (\<lambda>s. \<not> fin (fst s)) (drop i (take n (slots t)))"
  using assms
proof (induction "n - i" arbitrary: i kept t)
  case 0
  then show ?case
    by (intro exI [of _ "slots t"]) simp
next
  case (Suc m)
  let ?a = "slots t"
  have i: "i < n" "i < length ?a"
    using Suc by linarith+
  then have upt: "[i..<n] = i # [Suc i..<n]" and d: "drop i (take n ?a) = ?a ! i # drop (Suc i) (take n ?a)"
    by (simp_all add: upt_conv_Cons) (simp add: Cons_nth_drop_Suc [symmetric])
  show ?case
  proof (cases "fin (fst (?a ! i))")
    case True
    let ?t = "t\<lparr>closed := closed t @ [snd (?a ! i)]\<rparr>"
    have "m = n - Suc i" "kept \<le> Suc i" "Suc i \<le> n" "n \<le> length (slots ?t)"
      using Suc i by simp_all
    from Suc.hyps(1) [OF this] True i show ?thesis
      unfolding upt d by (simp add: idx_def)
  next
    case False
    let ?t = "t\<lparr>slots := ?a[kept := ?a ! i]\<rparr>"
    have "m = n - Suc i" "Suc kept \<le> Suc i" "Suc i \<le> n" "n \<le> length (slots ?t)"
      using Suc i by simp_all
    moreover have "drop (Suc i) (take n (slots ?t)) = drop (Suc i) (take n ?a)"
      using Suc.prems(1) by (simp add: take_update_swap)
    moreover have "take (Suc kept) (slots ?t) = take kept ?a @ [?a ! i]"
      using Suc.prems(1) i by (simp add: take_Suc_conv_app_nth)
    ultimately show ?thesis
      using Suc.hyps(1) [of "Suc i" "Suc kept" ?t] False i Suc.prems(1)
      unfolding upt d by (simp add: idx_def upd_def)
  qed
qed

lemma mset_map_partition:
  "mset (map f xs) = mset (map f (filter P xs)) + mset (map f (filter (\<lambda>x. \<not> P x) xs))"
  by (induction xs) simp_all

lemma ex_bool [simp]: "\<exists>b. b" "\<exists>b. \<not> b"
  by auto

lemma make_room_spec:
  assumes "slots_inv F t"
  shows "\<exists>ok t'. make_room r t = Ret (ok, t') \<and> slots_inv F t' \<and> (ok \<longrightarrow> slot_count t' < slot_cap t')"
proof (cases "slot_count t = slot_cap t")
  case False
  with assms show ?thesis
    by (auto simp: make_room_def slots_inv_def)
next
  case True
  have t: "length (slots t) = slot_cap t" "live_slots t = slots t" "0 < slot_cap t"
    using assms True by (simp_all add: slots_inv_def live_slots_def)
  let ?k = "filter (\<lambda>s. \<not> finished r (fst s)) (slots t)" and ?f = "filter (\<lambda>s. finished r (fst s)) (slots t)"
  obtain arr where r: "reap_loop (finished r) [0..<slot_count t] 0 t
      = Ret (length ?k, t\<lparr>slots := arr, closed := closed t @ map snd ?f\<rparr>)"
    and arr: "length arr = length (slots t)" "take (length ?k) arr = ?k"
    using reap_loop_spec [of 0 0 "slot_count t" t "finished r"] t True by auto
  have le: "length ?k \<le> slot_cap t"
    using t(1) length_filter_le [of _ "slots t"] by simp
  have m: "mset (opened t) = mset (closed t @ map snd ?f) + mset (map snd ?k) + F"
    using assms t(2) mset_map_partition [of snd "slots t" "\<lambda>s. finished r (fst s)"] by (simp add: slots_inv_def)
  have "take (length ?k) (arr @ x) = ?k" for x
    using arr le t(1) by simp
  then show ?thesis
    using True r arr le m t
    by (cases "realloc_ok r"; cases "length ?k = slot_cap t")
      (simp_all add: make_room_def Let_def live_slots_def slots_inv_def)
qed

lemma accept_round_inv:
  assumes "slots_inv {#} t"
  shows "\<exists>go t'. accept_round r t = Ret (go, t') \<and> slots_inv {#} t'"
proof (cases "accept_ans r")
  case (Accepted fd)
  let ?t = "t\<lparr>opened := opened t @ [fd]\<rparr>"
  have inv: "slots_inv {#fd#} ?t"
    using assms by (simp add: slots_inv_def live_slots_def)
  have close: "slots_inv {#} (t'\<lparr>closed := closed t' @ [fd]\<rparr>)" if "slots_inv {#fd#} t'" for t'
    using that by (simp add: slots_inv_def live_slots_def)
  obtain ok t' where m: "make_room r ?t = Ret (ok, t')" "slots_inv {#fd#} t'" "ok \<longrightarrow> slot_count t' < slot_cap t'"
    using make_room_spec [OF inv] by blast
  have add: "\<exists>arr. upd (slots t') (slot_count t') (tid, fd) = Ret arr \<and>
      slots_inv {#} (t'\<lparr>slots := arr, slot_count := Suc (slot_count t')\<rparr>)" if ok for tid
    using m(2,3) that by (simp add: upd_def slots_inv_def live_slots_def take_Suc_conv_app_nth)
  show ?thesis
  proof (cases "arg_ok r \<and> ok \<and> created r \<noteq> None")
    case True
    then obtain tid where "created r = Some tid" by blast
    with True add [of tid] m(1) Accepted show ?thesis by (auto simp: accept_round_def Let_def)
  next
    case False
    with close [OF inv] close [OF m(2)] m(1) Accepted show ?thesis
      by (auto simp: accept_round_def Let_def split: option.splits)
  qed
qed (use assms in \<open>simp_all add: accept_round_def\<close>)

lemma accept_loop_inv:
  "slots_inv {#} t \<Longrightarrow> \<exists>t'. accept_loop rs t = Ret t' \<and> slots_inv {#} t'"
proof (induction rs arbitrary: t)
  case (Cons r rs)
  from accept_round_inv [OF Cons.prems, of r] obtain go t' where
    "accept_round r t = Ret (go, t')" "slots_inv {#} t'" by blast
  with Cons.IH [of t'] show ?case by (cases go) auto
qed simp

lemma close_slots_spec:
  assumes "i \<le> n" and "n \<le> length (slots t)"
  shows "close_slots [i..<n] t = Ret (t\<lparr>closed := closed t @ map snd (drop i (take n (slots t)))\<rparr>)"
  using assms
proof (induction "n - i" arbitrary: i t)
  case (Suc m)
  then have i: "i < n" "i < length (slots t)" by linarith+
  then have "[i..<n] = i # [Suc i..<n]" "drop i (take n (slots t)) = slots t ! i # drop (Suc i) (take n (slots t))"
    by (simp_all add: upt_conv_Cons) (simp add: Cons_nth_drop_Suc [symmetric])
  with Suc.hyps(1) [of "Suc i" "t\<lparr>closed := closed t @ [snd (slots t ! i)]\<rparr>"] Suc.hyps(2) Suc.prems i show ?case
    by (simp add: idx_def)
qed simp

lemma empty_slots_inv: "slots_inv {#} (empty_slots junk)"
  by (simp add: slots_inv_def live_slots_def empty_slots_def MAX_CLIENTS_def)

subsection \<open>No request harms the server\<close>

lemma storage_fits:
  assumes "server_shape srv" and "pid < g_storage_pages srv"
  shows "storage_offset pid + PAGE_SIZE \<le> length (g_storage srv)"
  using assms slot_bound [of "unat pid" "unat (g_storage_pages srv)" PAGE_SIZE]
  by (simp add: storage_offset_def server_shape_def word_less_nat_alt)

lemma ensures_reply:
  "unharmed srv0 srv \<Longrightarrow> ensures (reply fd bs st st' srv w) (\<lambda>(go, st, srv', w'). unharmed srv0 srv')"
  unfolding reply_def by (rule ensures_bindI [OF ensures_send_full]) auto

lemma unharmed_refl: "server_shape srv \<Longrightarrow> unharmed srv srv"
  by (simp add: unharmed_def)

lemma unharmed_trans: "unharmed a b \<Longrightarrow> unharmed b c \<Longrightarrow> unharmed a c"
  by (simp add: unharmed_def)

lemma unharmed_cluster:
  "server_shape srv \<Longrightarrow> ctx_ok ctx \<Longrightarrow> unharmed srv (srv\<lparr>g_cluster := Some ctx, g_os := os\<rparr>)"
  by (simp add: unharmed_def server_shape_def)

lemma ensures_handle_get:
  assumes s: "server_shape srv"
  shows "ensures (handle_get np fd pid st srv w) (\<lambda>(go, st', srv', w'). unharmed srv srv')"
proof (cases "is_local srv pid \<and> pid < g_storage_pages srv")
  case True
  then show ?thesis
    using storage_fits [OF s] ensures_reply [OF unharmed_refl [OF s]] by (simp add: handle_get_def storage_read_def)
next
  case False
  show ?thesis
  proof (cases "g_cluster srv")
    case None
    with False show ?thesis
      using ensures_reply [OF unharmed_refl [OF s]] by (simp add: handle_get_def if_not_P [OF False])
  next
    case (Some ctx)
    then have "ctx_ok ctx" using s by (simp add: server_shape_def)
    then show ?thesis
      unfolding handle_get_def if_not_P [OF False] Some option.case
      by (rule ensures_bindI [OF ensures_forward_get])
        (auto simp: Let_def s intro!: ensures_reply unharmed_cluster)
  qed
qed

lemma ensures_handle_put:
  assumes s: "server_shape srv"
  shows "ensures (handle_put cp np fd pid st srv w) (\<lambda>(go, st', srv', w'). unharmed srv srv')"
proof -
  have store: "ensures
       (if is_local srv pid \<and> pid < g_storage_pages srv
        then bind_oc (storage_write srv pid buf) (\<lambda>srv. Ret (True, st\<lparr>pages_written := pages_written st + 1\<rparr>, srv))
        else case g_cluster srv of
          Some ctx \<Rightarrow>
            bind_oc (cluster_forward_put np ctx pid buf (g_os srv)) (\<lambda>(rc, ctx, os).
            let srv = srv\<lparr>g_cluster := Some ctx, g_os := os\<rparr> in
            if rc < 0 then Ret (False, st, srv)
            else Ret (True, st\<lparr>pages_forwarded := pages_forwarded st + 1\<rparr>, srv))
        | None \<Rightarrow> Ret (False, st, srv)) (\<lambda>(ok, st, srv'). unharmed srv srv')"
    if len: "length buf = PAGE_SIZE" for buf
  proof (cases "is_local srv pid \<and> pid < g_storage_pages srv")
    case True
    then show ?thesis
      using storage_fits [OF s] s len
      by (simp add: storage_write_def unharmed_def server_shape_def length_mem_write cong: option.case_cong)
  next
    case False
    show ?thesis
    proof (cases "g_cluster srv")
      case None
      then show ?thesis
        unfolding if_not_P [OF False] using unharmed_refl [OF s] by simp
    next
      case (Some ctx)
      then have "ctx_ok ctx" using s by (simp add: server_shape_def)
      then show ?thesis
        unfolding if_not_P [OF False] Some option.case
        by (rule ensures_bindI [OF ensures_forward_put]) (auto simp: Let_def s intro!: unharmed_cluster)
    qed
  qed
  show ?thesis
    unfolding handle_put_def
  proof (rule ensures_bindI [OF ensures_recv_full], clarify, goal_cases)
    case (1 rc buf w')
    then show ?case
    proof (cases "rc < 0")
      case False
      with 1 have len: "length buf = PAGE_SIZE" by auto
      show ?thesis
        unfolding if_not_P [OF False]
        by (rule ensures_bindI [OF store [OF len]]) (auto intro: ensures_reply)
    qed (simp add: unharmed_refl [OF s])
  qed
qed

lemma ensures_handle_request:
  assumes s: "server_shape srv"
  shows "ensures (handle_request cp np fd st srv w) (\<lambda>(go, st', srv', w'). unharmed srv srv')"
  unfolding handle_request_def
  by (rule ensures_bindI [OF ensures_recv_full])
    (auto simp: Let_def ensures_handle_get [OF s] ensures_handle_put [OF s] unharmed_refl [OF s])

lemma client_thread_shape:
  assumes "server_shape srv"
  shows "handle_client_thread fuel cp np fd st srv w \<noteq> Undef \<and>
    (\<forall>st' srv' w'. handle_client_thread fuel cp np fd st srv w = Ret (st', srv', w') \<longrightarrow> unharmed srv srv')"
  using assms
proof (induction fuel arbitrary: st srv w)
  case (Suc fuel)
  show ?case
  proof (cases "running srv")
    case True
    note e = ensures_handle_request [OF Suc.prems, of cp np fd st w]
    show ?thesis
    proof (cases "handle_request cp np fd st srv w")
      case (Ret r)
      obtain go st1 srv1 w1 where r: "r = (go, st1, srv1, w1)" by (cases r)
      have u: "unharmed srv srv1"
        using e Ret r by simp
      then have "server_shape srv1"
        by (simp add: unharmed_def)
      from Suc.IH [OF this, of st1 w1] u True Ret r show ?thesis
        by (cases go) (auto intro: unharmed_trans)
    qed (use True e in auto)
  qed (use unharmed_refl [OF Suc.prems] in simp)
qed simp

subsection \<open>Starting up\<close>

lemma gossip_send_join_returns: "\<exists>d rc. gossip_send_join self n = Ret (d, rc)"
  by (simp add: gossip_send_join_def set_node_count_def fill_header_def upd_def GOSSIP_MSG_MAX_NODES_def Let_def
      flip: split_paired_Ex)

lemma cluster_start_ctx: "cluster_start ctx sock a b c = (rc, ctx', cl) \<Longrightarrow> \<exists>fd run. ctx' = ctx\<lparr>udp_fd := fd, cl_running := run\<rparr>"
  by (auto simp: cluster_start_def Let_def split: if_splits)
    (metis cluster_ctx.surjective cluster_ctx.update_convs(4,5))+

lemma server_cluster_returns:
  "\<exists>r. server_cluster e cfg ccfg = Ret r \<and>
    (\<forall>ctx sent. r = Inr (Some ctx, sent) \<longrightarrow> length (generated_id e) = NODE_ID_LEN \<longrightarrow> ctx_ok ctx)"
proof (cases "page_range_end ccfg > 0")
  case True
  show ?thesis
  proof (cases "cluster_create (calloc_ok e) (lock_ok e) ccfg (get_local_addr (interfaces e)) (sc_port cfg)
      (generated_id e) (created_at e)")
    case None
    with True show ?thesis by (simp add: server_cluster_def)
  next
    case (Some ctx)
    obtain rc ctx' cl where st: "cluster_start ctx (udp_socket e) (udp_bind_ok e) (gossip_thread_ok e)
        (heartbeat_thread_ok e) = (rc, ctx', cl)"
      by (rule prod_cases3)
    obtain fd run where "ctx' = ctx\<lparr>udp_fd := fd, cl_running := run\<rparr>"
      using cluster_start_ctx [OF st] by blast
    then have ok: "ctx_ok ctx'" if "length (generated_id e) = NODE_ID_LEN"
      using cluster_create_ok [OF Some that] by (simp add: ctx_ok_def)
    have "\<exists>rc' sent. cluster_join ctx' (seed_address e) (member_counts e) = Ret (rc', sent)"
      using gossip_send_join_returns [of "cl_self ctx'" 0]
      by (auto simp: cluster_join_def split: option.splits)
    then show ?thesis
      using True Some st ok by (cases "rc < 0"; cases "seed_addr ccfg = None") (auto simp: server_cluster_def)
  qed
qed (simp add: server_cluster_def)

lemma server_init_returns:
  "\<exists>r. server_init e cfg ccfg = Ret r \<and>
    (\<forall>srv sent lfd. r = Inr (srv, sent, lfd) \<longrightarrow> running srv \<and> g_storage_pages srv = sc_num_virtual_pages cfg \<and>
       g_storage srv = replicate (unat (sc_num_virtual_pages cfg) * PAGE_SIZE) 0 \<and>
       (length (generated_id e) = NODE_ID_LEN \<longrightarrow> server_shape srv))"
proof -
  obtain r where r: "server_cluster e cfg ccfg = Ret r"
    "\<forall>ctx sent. r = Inr (Some ctx, sent) \<longrightarrow> length (generated_id e) = NODE_ID_LEN \<longrightarrow> ctx_ok ctx"
    using server_cluster_returns [of e cfg ccfg] by blast
  obtain lfd cl where l: "start_server (tcp_socket e) (reuse_ok e) (addr_ok e) (tcp_bind_ok e) (listen_ok e) = (lfd, cl)"
    by (cases "start_server (tcp_socket e) (reuse_ok e) (addr_ok e) (tcp_bind_ok e) (listen_ok e)")
  show ?thesis
  proof (cases r)
    case (Inl status)
    with r(1) show ?thesis by (simp add: server_init_def Let_def)
  next
    case (Inr p)
    obtain cluster sent where p: "p = (cluster, sent)" by (cases p)
    have "case cluster of None \<Rightarrow> True | Some ctx \<Rightarrow> ctx_ok ctx" if "length (generated_id e) = NODE_ID_LEN"
      using r(2) Inr p that by (auto split: option.splits)
    with r(1) Inr p l show ?thesis
      by (simp add: server_init_def Let_def server_shape_def)
  qed
qed

subsection \<open>Properties\<close>

text \<open>
  C7. No client can crash the server: whatever bytes a client sends, whatever the other nodes
  answer and however long the thread runs, serving the connection never reads or writes
  outside the storage, and leaves the storage at its size, the cluster context well formed
  and the server running.
\<close>

theorem client_thread_safe:
  assumes "server_shape srv"
  shows "handle_client_thread fuel cp np fd st srv w \<noteq> Undef \<and>
    (\<forall>st' srv' w'. handle_client_thread fuel cp np fd st srv w = Ret (st', srv', w') \<longrightarrow> unharmed srv srv')"
  using client_thread_shape [OF assms] .

theorem client_thread_safe_witness:
  "handle_client_thread 5 (\<lambda>s bs. (s, [])) (\<lambda>s bs. (s, [])) 4 \<lparr>pages_served = 0, pages_written = 0, pages_forwarded = 0\<rparr>
     \<lparr>running = True, g_cluster = None, g_storage = replicate 4096 0, g_storage_pages = 1,
      g_os = \<lparr>conns = \<lambda>_. \<lparr>tx = [], rx = [], far = (), kern = \<lambda>_. [], calls = 0\<rparr>, dial = \<lambda>_ _ _. Refused, dials = 0\<rparr>\<rparr>
     \<lparr>tx = [], rx = [1, 0, 0, 0, 255, 255, 255, 255], far = (), kern = \<lambda>_. [Xfer 5000], calls = 0\<rparr> \<noteq> Undef"
  by (rule client_thread_safe [THEN conjunct1]) (simp add: server_shape_def PAGE_SIZE_def)

text \<open>
  A server that has started is in order: it runs, its storage has exactly the configured
  number of pages and all of them are zero, and its cluster context, if it is in a cluster,
  is well formed. Starting never goes out of bounds, whichever system call fails.
\<close>

lemma server_init_ok:
  assumes "length (generated_id e) = NODE_ID_LEN"
  shows "\<exists>r. server_init e cfg ccfg = Ret r \<and>
    (\<forall>srv sent lfd. r = Inr (srv, sent, lfd) \<longrightarrow> running srv \<and> server_shape srv \<and>
       g_storage_pages srv = sc_num_virtual_pages cfg \<and>
       (\<forall>pid < g_storage_pages srv. storage_read srv pid = Ret zero_page))"
proof -
  obtain r where r: "server_init e cfg ccfg = Ret r"
    "\<forall>srv sent lfd. r = Inr (srv, sent, lfd) \<longrightarrow> running srv \<and> g_storage_pages srv = sc_num_virtual_pages cfg \<and>
       g_storage srv = replicate (unat (sc_num_virtual_pages cfg) * PAGE_SIZE) 0 \<and> server_shape srv"
    using server_init_returns [of e cfg ccfg] assms by auto
  have z: "\<forall>pid < g_storage_pages srv. storage_read srv pid = Ret zero_page" if eq: "r = Inr (srv, sent, lfd)" for srv sent lfd
  proof (intro allI impI)
    fix pid assume p: "pid < g_storage_pages srv"
    obtain n where s: "server_shape srv" "pid < g_storage_pages srv" "g_storage srv = replicate n 0"
      using r(2) eq p by blast
    have "storage_offset pid + PAGE_SIZE \<le> n"
      using storage_fits [OF s(1,2)] s(3) by simp
    then show "storage_read srv pid = Ret zero_page"
      using s(3) by (simp add: storage_read_def mem_read_def zero_page_def)
  qed
  show ?thesis
    using r z by (intro exI [of _ r]) blast
qed

text \<open>
  C19. \<open>main\<close> loses no client descriptor: for any environment, any options and any behaviour of
  the system, every descriptor that \<open>accept\<close> returned has been closed exactly once when
  \<open>main\<close> returns, and the slot table, which is compacted in place and grown on demand, is
  never indexed out of bounds.
\<close>

theorem server_main_closes_clients:
  "\<exists>status t cl. server_main env opts e rounds junk = Ret (status, t, cl) \<and> mset (opened t) = mset (closed t)"
proof -
  obtain t where t: "accept_loop rounds (empty_slots junk) = Ret t" "slots_inv {#} t"
    using accept_loop_inv [OF empty_slots_inv] by blast
  have "close_slots [0..<slot_count t] t = Ret (t\<lparr>closed := closed t @ map snd (live_slots t)\<rparr>)"
    using close_slots_spec [of 0 "slot_count t" t] t(2) by (simp add: slots_inv_def live_slots_def)
  moreover have "mset (opened t) = mset (closed t @ map snd (live_slots t))"
    using t(2) by (simp add: slots_inv_def)
  ultimately have run: "\<exists>status t cl. bind_oc (accept_loop rounds (empty_slots junk)) (\<lambda>t.
      bind_oc (close_slots [0..<slot_count t] t) (\<lambda>t. Ret (st :: int, t, ds :: int list))) = Ret (status, t, cl) \<and>
      mset (opened t) = mset (closed t)" for st ds
    using t(1) by simp
  have none: "\<exists>st t cl. Ret (status :: int, empty_slots junk, [] :: int list) = Ret (st, t, cl) \<and> mset (opened t) = mset (closed t)" for status
    by (simp add: empty_slots_def)
  let ?o = "server_options opts (dsm_server_config_from_env env dsm_server_config_default,
    cluster_config_from_env env cluster_config_default)"
  show ?thesis
  proof (cases ?o)
    case (Inr c)
    obtain cfg ccfg where c: "c = (cfg, ccfg)" by (cases c)
    obtain r where "server_init e cfg ccfg = Ret r"
      using server_init_returns [of e cfg ccfg] by blast
    then show ?thesis
      unfolding server_main_def Inr c using none run by (cases r) auto
  qed (use none in \<open>simp add: server_main_def\<close>)
qed

text \<open>
  A server on its own answers a GET of a page beyond its storage with a page of zeros and
  drops a PUT of such a page: nothing is stored, nothing is acknowledged, and the thread
  ends.
\<close>

lemma out_of_range_requests:
  assumes "g_cluster srv = None" and "g_storage_pages srv \<le> pid"
  shows "handle_get np fd pid st srv w = reply fd zero_page st st srv w \<and>
    ensures (handle_put cp np fd pid st srv w) (\<lambda>(go, st', srv', w'). \<not> go \<and> st' = st \<and> srv' = srv)"
proof -
  have n: "\<not> (is_local srv pid \<and> pid < g_storage_pages srv)"
    using assms(2) by (simp add: not_less)
  show ?thesis
    unfolding handle_get_def handle_put_def if_not_P [OF n] assms(1) option.case
    by (auto intro!: ensures_bindI [OF ensures_recv_full])
qed

end
