(* ===== verification/DSM_Paging.thy ===== *)
theory DSM_Paging
  imports DSM_Common
begin

section \<open>The client's page cache (dsm\_paging.c, dsm\_paging.h)\<close>

text \<open>
  The context is a record with the fields of \<open>dsm_context_t\<close>; the arrays are lists and every
  access is checked against their length, so that \<open>Undef\<close> is an access out of bounds.
  \<open>local_memory\<close> is one flat byte buffer and a page pointer is an offset into it; \<open>NULL\<close> is
  \<open>None\<close>. The connection behind \<open>sock_fd\<close> is passed along as a \<open>net\<close>.
\<close>

subsection \<open>Definitions\<close>

definition DSM_NO_FRAME :: u32 where "DSM_NO_FRAME = 0xFFFFFFFF"

definition DSM_NO_PAGE :: u32 where "DSM_NO_PAGE = 0xFFFFFFFF"

definition DSM_PREFETCH_MAX :: nat where "DSM_PREFETCH_MAX = 8"

definition LOC_LOCAL :: u8 where "LOC_LOCAL = 0"

definition LOC_REMOTE :: u8 where "LOC_REMOTE = 1"

record page_table_entry =
  frame_number :: u32
  valid :: u8
  reference_bit :: u8
  dirty :: u8
  location :: u8

record frame_entry =
  page_number :: u32
  occupied :: u8

record dsm_context =
  sock_fd :: int
  local_memory :: bytes
  page_table :: "page_table_entry list"
  frame_table :: "frame_entry list"
  free_list :: "u32 list"
  free_list_top :: u32
  clock_hand :: u32
  num_pages :: u32
  num_virtual_pages :: u32
  next_alloc_page :: u32
  last_page_id :: u32
  prefetch_count :: u8
  local_hits :: u64
  remote_fetches :: u64
  evictions :: u64

definition frame_to_ptr :: "u32 \<Rightarrow> nat" where
  "frame_to_ptr frame = unat frame * PAGE_SIZE"

definition load_page :: "dsm_context \<Rightarrow> nat \<Rightarrow> bytes outcome" where
  "load_page c ptr =
     (if ptr + PAGE_SIZE \<le> length (local_memory c) then Ret (mem_read (local_memory c) ptr PAGE_SIZE)
      else Undef)"

definition store_bytes :: "dsm_context \<Rightarrow> nat \<Rightarrow> bytes \<Rightarrow> dsm_context outcome" where
  "store_bytes c ptr bs =
     (if ptr + length bs \<le> length (local_memory c)
      then Ret (c\<lparr>local_memory := mem_write (local_memory c) ptr bs\<rparr>) else Undef)"

definition set_pte :: "u32 \<Rightarrow> page_table_entry \<Rightarrow> dsm_context \<Rightarrow> dsm_context" where
  "set_pte p e c = c\<lparr>page_table := (page_table c)[unat p := e]\<rparr>"

definition set_fte :: "u32 \<Rightarrow> frame_entry \<Rightarrow> dsm_context \<Rightarrow> dsm_context" where
  "set_fte f e c = c\<lparr>frame_table := (frame_table c)[unat f := e]\<rparr>"

definition get_free_frame :: "dsm_context \<Rightarrow> (u32 \<times> dsm_context) outcome" where
  "get_free_frame c =
     (if free_list_top c > 0
      then let c = c\<lparr>free_list_top := free_list_top c - 1\<rparr>
           in bind_oc (idx (free_list c) (unat (free_list_top c))) (\<lambda>frame. Ret (frame, c))
      else Ret (DSM_NO_FRAME, c))"

definition push_free_frame :: "u32 \<Rightarrow> dsm_context \<Rightarrow> dsm_context outcome" where
  "push_free_frame frame c =
     bind_oc (upd (free_list c) (unat (free_list_top c)) frame)
       (\<lambda>fl. Ret (c\<lparr>free_list := fl, free_list_top := free_list_top c + 1\<rparr>))"

definition next_hand :: "dsm_context \<Rightarrow> dsm_context" where
  "next_hand c = c\<lparr>clock_hand := (clock_hand c + 1) mod num_pages c\<rparr>"

text \<open>
  The clock loop of \<open>evict_page\<close>. The fuel is twice the number of frames and one: after one
  round every reference bit the hand passed is clear, so a second round finds a victim if
  any frame is occupied.
\<close>

primrec evict_loop ::
  "'s peer \<Rightarrow> nat \<Rightarrow> dsm_context \<Rightarrow> 's net \<Rightarrow> (u32 \<times> dsm_context \<times> 's net) outcome" where
  "evict_loop peer 0 c w = Diverges"
| "evict_loop peer (Suc fuel) c w =
     bind_oc (idx (frame_table c) (unat (clock_hand c))) (\<lambda>frame.
     if occupied frame \<noteq> 0
     then bind_oc (idx (page_table c) (unat (page_number frame))) (\<lambda>page.
       if reference_bit page \<noteq> 0
       then evict_loop peer fuel (next_hand (set_pte (page_number frame) (page\<lparr>reference_bit := 0\<rparr>) c)) w
       else let victim = clock_hand c in
         bind_oc
           (if dirty page \<noteq> 0 \<and> location page = LOC_REMOTE
            then bind_oc (load_page c (frame_to_ptr victim))
                   (\<lambda>data. dsm_rpc_put peer (sock_fd c) (page_number frame) data w)
            else Ret (0, w))
           (\<lambda>(rc, w).
             if rc < 0 then Ret (DSM_NO_FRAME, c, w)
             else let c1 = set_pte (page_number frame) (page\<lparr>valid := 0, dirty := 0\<rparr>) c;
                      c2 = next_hand (set_fte victim (frame\<lparr>occupied := 0\<rparr>) c1);
                      c3 = c2\<lparr>evictions := evictions c2 + 1\<rparr>
                  in bind_oc (push_free_frame victim c3) (\<lambda>c4.
                     bind_oc (get_free_frame c4) (\<lambda>(fr, c5). Ret (fr, c5, w)))))
     else evict_loop peer fuel (next_hand c) w)"

definition evict_page ::
  "'s peer \<Rightarrow> dsm_context \<Rightarrow> 's net \<Rightarrow> (u32 \<times> dsm_context \<times> 's net) outcome" where
  "evict_page peer c w = evict_loop peer (2 * unat (num_pages c) + 1) c w"

definition dsm_context_set_socket :: "dsm_context \<Rightarrow> int \<Rightarrow> dsm_context" where
  "dsm_context_set_socket c fd = c\<lparr>sock_fd := fd\<rparr>"

definition dsm_context_get_stats :: "dsm_context \<Rightarrow> u64 \<times> u64 \<times> u64" where
  "dsm_context_get_stats c = (local_hits c, remote_fetches c, evictions c)"

paragraph \<open>Prefetching\<close>

fun prefetch_collect ::
  "u32 \<Rightarrow> nat list \<Rightarrow> dsm_context \<Rightarrow> (u32 \<times> u32) list \<Rightarrow> (dsm_context \<times> (u32 \<times> u32) list) outcome" where
  "prefetch_collect start [] c batch = Ret (c, batch)"
| "prefetch_collect start (i # is) c batch =
     (if \<not> length batch < DSM_PREFETCH_MAX then Ret (c, batch)
      else let pid = start + of_nat i in
        if pid \<ge> num_virtual_pages c then Ret (c, batch)
        else bind_oc (idx (page_table c) (unat pid)) (\<lambda>entry.
          if valid entry \<noteq> 0 \<or> location entry \<noteq> LOC_REMOTE then prefetch_collect start is c batch
          else bind_oc (get_free_frame c) (\<lambda>(frame, c).
            if frame = DSM_NO_FRAME then Ret (c, batch)
            else prefetch_collect start is c (batch @ [(pid, frame)]))))"

fun push_frames :: "u32 list \<Rightarrow> dsm_context \<Rightarrow> dsm_context outcome" where
  "push_frames [] c = Ret c"
| "push_frames (f # fs) c = bind_oc (push_free_frame f c) (push_frames fs)"

fun prefetch_install :: "(u32 \<times> u32) list \<Rightarrow> bytes \<Rightarrow> dsm_context \<Rightarrow> dsm_context outcome" where
  "prefetch_install [] bufs c = Ret c"
| "prefetch_install ((pid, frame) # batch) bufs c =
     bind_oc (idx (page_table c) (unat pid)) (\<lambda>entry.
     bind_oc (store_bytes c (frame_to_ptr frame) (take PAGE_SIZE bufs)) (\<lambda>c.
     let c = set_pte pid (entry\<lparr>frame_number := frame, valid := 1, reference_bit := 0, dirty := 0\<rparr>) c in
     bind_oc (idx (frame_table c) (unat frame)) (\<lambda>fe.
     let c = set_fte frame (fe\<lparr>page_number := pid, occupied := 1\<rparr>) c in
     prefetch_install batch (drop PAGE_SIZE bufs) (c\<lparr>remote_fetches := remote_fetches c + 1\<rparr>))))"

definition dsm_prefetch_pages ::
  "'s peer \<Rightarrow> dsm_context \<Rightarrow> u32 \<Rightarrow> u8 \<Rightarrow> 's net \<Rightarrow> (dsm_context \<times> 's net) outcome" where
  "dsm_prefetch_pages peer c start_page count w =
     bind_oc (prefetch_collect start_page [0..<unat count] c []) (\<lambda>(c, batch).
     if batch = [] then Ret (c, w)
     else bind_oc (dsm_rpc_get_batch peer (sock_fd c) (map fst batch) w) (\<lambda>(rc, bufs, w).
       if rc < 0 then bind_oc (push_frames (map snd batch) c) (\<lambda>c. Ret (c, w))
       else bind_oc (prefetch_install batch bufs c) (\<lambda>c. Ret (c, w))))"

paragraph \<open>Accessing a page\<close>

definition dsm_access_page_slow ::
  "'s peer \<Rightarrow> dsm_context \<Rightarrow> u32 \<Rightarrow> 32 word \<Rightarrow> u32 \<Rightarrow> 's net \<Rightarrow> (nat option \<times> dsm_context \<times> 's net) outcome" where
  "dsm_access_page_slow peer c pid wr entry w =
     bind_oc (get_free_frame c) (\<lambda>(frame, c).
     bind_oc (if frame = DSM_NO_FRAME then evict_page peer c w else Ret (frame, c, w)) (\<lambda>(frame, c, w).
     if frame = DSM_NO_FRAME then Ret (None, c, w)
     else let frame_ptr = frame_to_ptr frame; should_fetch = (sock_fd c \<ge> 0) in
     bind_oc (if should_fetch then dsm_rpc_get peer (sock_fd c) pid w else Ret (0, [], w)) (\<lambda>(rc, buf, w).
     bind_oc (store_bytes c frame_ptr buf) (\<lambda>c.
     if rc < 0 then bind_oc (push_free_frame frame c) (\<lambda>c. Ret (None, c, w))
     else let c = (if should_fetch then c\<lparr>remote_fetches := remote_fetches c + 1\<rparr> else c) in
     bind_oc (idx (page_table c) (unat entry)) (\<lambda>e.
     let c = set_pte entry (e\<lparr>frame_number := frame, valid := 1, reference_bit := 1, dirty := ucast wr,
                             location := if should_fetch then LOC_REMOTE else LOC_LOCAL\<rparr>) c in
     bind_oc (idx (frame_table c) (unat frame)) (\<lambda>fe.
     let c = set_fte frame (fe\<lparr>page_number := pid, occupied := 1\<rparr>) c in
     bind_oc (if pid = last_page_id c + 1
              then dsm_prefetch_pages peer c (pid + 1) (prefetch_count c) w else Ret (c, w)) (\<lambda>(c, w).
     Ret (Some frame_ptr, c\<lparr>last_page_id := pid\<rparr>, w))))))))"

definition dsm_access_page ::
  "'s peer \<Rightarrow> dsm_context \<Rightarrow> u32 \<Rightarrow> 32 word \<Rightarrow> 's net \<Rightarrow> (nat option \<times> dsm_context \<times> 's net) outcome" where
  "dsm_access_page peer c pid wr w =
     bind_oc (idx (page_table c) (unat pid)) (\<lambda>entry.
     if valid entry \<noteq> 0
     then let c = c\<lparr>local_hits := local_hits c + 1\<rparr>;
              c = set_pte pid (entry\<lparr>reference_bit := 1, dirty := or (dirty entry) (ucast wr)\<rparr>) c
          in Ret (Some (frame_to_ptr (frame_number entry)), c, w)
     else dsm_access_page_slow peer c pid wr pid w)"

text \<open>The inline copy of the hit path in the header, which computes the pointer itself.\<close>

definition dsm_access_page_fast ::
  "'s peer \<Rightarrow> dsm_context \<Rightarrow> u32 \<Rightarrow> 32 word \<Rightarrow> 's net \<Rightarrow> (nat option \<times> dsm_context \<times> 's net) outcome" where
  "dsm_access_page_fast peer c pid wr w =
     bind_oc (idx (page_table c) (unat pid)) (\<lambda>entry.
     if valid entry \<noteq> 0
     then let c = c\<lparr>local_hits := local_hits c + 1\<rparr>;
              entry = entry\<lparr>reference_bit := 1\<rparr>;
              entry = entry\<lparr>dirty := or (dirty entry) (ucast wr)\<rparr>
          in Ret (Some (unat (frame_number entry) * PAGE_SIZE), set_pte pid entry c, w)
     else dsm_access_page_slow peer c pid wr pid w)"

paragraph \<open>Creating and destroying a context\<close>

text \<open>
  The blocks a context owns. \<open>ok r\<close> says whether the allocator grants the block; the
  second result is the set of blocks still held on return. \<open>mmap\<close> of length \<open>0\<close> fails.
\<close>

datatype block = B_ctx | B_memory | B_page_table | B_frame_table | B_free_list

definition fresh_context :: "u32 \<Rightarrow> u32 \<Rightarrow> dsm_context" where
  "fresh_context np nv =
     \<lparr>sock_fd = -1,
      local_memory = replicate (unat np * PAGE_SIZE) 0,
      page_table = replicate (unat nv)
        \<lparr>frame_number = 0, valid = 0, reference_bit = 0, dirty = 0, location = 0\<rparr>,
      frame_table = replicate (unat np) \<lparr>page_number = 0, occupied = 0\<rparr>,
      free_list = map (\<lambda>i. np - 1 - of_nat i) [0..<unat np],
      free_list_top = np, clock_hand = 0, num_pages = np, num_virtual_pages = nv,
      next_alloc_page = 0, last_page_id = DSM_NO_PAGE, prefetch_count = 4,
      local_hits = 0, remote_fetches = 0, evictions = 0\<rparr>"

definition dsm_create_context :: "(block \<Rightarrow> bool) \<Rightarrow> u32 \<Rightarrow> u32 \<Rightarrow> dsm_context option \<times> block set" where
  "dsm_create_context ok np nv =
     (if \<not> ok B_ctx then (None, {})
      else if \<not> ok B_memory \<or> np = 0 then (None, {B_ctx} - {B_ctx})
      else let tables = {b \<in> {B_page_table, B_frame_table, B_free_list}. ok b};
               held = {B_ctx, B_memory} \<union> tables
           in if tables \<noteq> {B_page_table, B_frame_table, B_free_list}
              then (None, held - {B_memory} - {B_page_table, B_frame_table, B_free_list} - {B_ctx})
              else (Some (fresh_context np nv), held))"

definition dsm_destroy_context :: "dsm_context option \<Rightarrow> block set \<Rightarrow> block set" where
  "dsm_destroy_context ctx held =
     (case ctx of None \<Rightarrow> held
      | Some c \<Rightarrow> held - {B_memory} - {B_page_table} - {B_frame_table} - {B_free_list} - {B_ctx})"

paragraph \<open>The invariant of a context\<close>

abbreviation pte :: "dsm_context \<Rightarrow> u32 \<Rightarrow> page_table_entry" where
  "pte c p \<equiv> page_table c ! unat p"

abbreviation fte :: "dsm_context \<Rightarrow> u32 \<Rightarrow> frame_entry" where
  "fte c f \<equiv> frame_table c ! unat f"

definition free_frames :: "dsm_context \<Rightarrow> u32 list" where
  "free_frames c = take (unat (free_list_top c)) (free_list c)"

definition shape_ok :: "dsm_context \<Rightarrow> bool" where
  "shape_ok c \<longleftrightarrow>
     length (local_memory c) = unat (num_pages c) * PAGE_SIZE \<and>
     length (page_table c) = unat (num_virtual_pages c) \<and>
     length (frame_table c) = unat (num_pages c) \<and>
     length (free_list c) = unat (num_pages c) \<and>
     free_list_top c \<le> num_pages c \<and> clock_hand c < num_pages c"

text \<open>
  The unoccupied frames are those on the free list and those in \<open>H\<close>, the frames an
  operation has taken off the list and not yet given to a page.
\<close>

definition frames_ok :: "u32 set \<Rightarrow> dsm_context \<Rightarrow> bool" where
  "frames_ok H c \<longleftrightarrow>
     distinct (free_frames c) \<and> set (free_frames c) \<inter> H = {} \<and>
     (\<forall>f. f \<in> set (free_frames c) \<union> H \<longleftrightarrow> f < num_pages c \<and> occupied (fte c f) = 0)"

text \<open>Page table and frame table are inverse to each other.\<close>

definition maps_ok :: "dsm_context \<Rightarrow> bool" where
  "maps_ok c \<longleftrightarrow>
     (\<forall>f < num_pages c. occupied (fte c f) \<noteq> 0 \<longrightarrow>
        page_number (fte c f) < num_virtual_pages c \<and> valid (pte c (page_number (fte c f))) \<noteq> 0 \<and>
        frame_number (pte c (page_number (fte c f))) = f) \<and>
     (\<forall>p < num_virtual_pages c. valid (pte c p) \<noteq> 0 \<longrightarrow>
        frame_number (pte c p) < num_pages c \<and> occupied (fte c (frame_number (pte c p))) \<noteq> 0 \<and>
        page_number (fte c (frame_number (pte c p))) = p)"

definition pager_inv :: "u32 set \<Rightarrow> dsm_context \<Rightarrow> bool" where
  "pager_inv H c \<longleftrightarrow> shape_ok c \<and> frames_ok H c \<and> maps_ok c"

paragraph \<open>The address space a client sees\<close>

text \<open>
  A cached page is what its frame holds, any other page what the server stores (\<open>S\<close>).
  \<open>represents c S V\<close>: the client sees the pages \<open>V\<close>, and every page that differs from the
  server's copy is marked for writeback.
\<close>

definition frame_data :: "dsm_context \<Rightarrow> u32 \<Rightarrow> bytes" where
  "frame_data c f = mem_read (local_memory c) (frame_to_ptr f) PAGE_SIZE"

definition view :: "dsm_context \<Rightarrow> (u32 \<Rightarrow> bytes) \<Rightarrow> u32 \<Rightarrow> bytes" where
  "view c S p = (if valid (pte c p) \<noteq> 0 then frame_data c (frame_number (pte c p)) else S p)"

definition coherent :: "dsm_context \<Rightarrow> (u32 \<Rightarrow> bytes) \<Rightarrow> bool" where
  "coherent c S \<longleftrightarrow>
     (\<forall>p < num_virtual_pages c. valid (pte c p) \<noteq> 0 \<longrightarrow>
        location (pte c p) = LOC_REMOTE \<and> (dirty (pte c p) = 0 \<longrightarrow> frame_data c (frame_number (pte c p)) = S p))"

definition represents :: "dsm_context \<Rightarrow> (u32 \<Rightarrow> bytes) \<Rightarrow> (u32 \<Rightarrow> bytes) \<Rightarrow> bool" where
  "represents c S V \<longleftrightarrow> coherent c S \<and> (\<forall>p < num_virtual_pages c. view c S p = V p)"

definition same_dims :: "dsm_context \<Rightarrow> dsm_context \<Rightarrow> bool" where
  "same_dims c c' \<longleftrightarrow> sock_fd c' = sock_fd c \<and> num_pages c' = num_pages c \<and>
     num_virtual_pages c' = num_virtual_pages c \<and> prefetch_count c' = prefetch_count c"

paragraph \<open>What an eviction does, in one step\<close>

text \<open>
  \<open>swept c c'\<close>: the hand has moved from \<open>c\<close> to \<open>c'\<close> and cleared some reference bits.
  \<open>writeback\<close> and \<open>evict_frame\<close> act on the frame under the hand: save its page if it has to
  be saved, and hand the frame out.
\<close>

definition swept :: "dsm_context \<Rightarrow> dsm_context \<Rightarrow> bool" where
  "swept c c' \<longleftrightarrow>
     c'\<lparr>page_table := [], clock_hand := 0\<rparr> = c\<lparr>page_table := [], clock_hand := 0\<rparr> \<and>
     map (reference_bit_update (\<lambda>_. 0)) (page_table c') = map (reference_bit_update (\<lambda>_. 0)) (page_table c)"

definition victim_page :: "dsm_context \<Rightarrow> u32" where
  "victim_page c = page_number (fte c (clock_hand c))"

definition writeback :: "'s peer \<Rightarrow> dsm_context \<Rightarrow> 's net \<Rightarrow> (int \<times> 's net) outcome" where
  "writeback peer c w =
     (if dirty (pte c (victim_page c)) \<noteq> 0 \<and> location (pte c (victim_page c)) = LOC_REMOTE
      then dsm_rpc_put peer (sock_fd c) (victim_page c)
             (mem_read (local_memory c) (frame_to_ptr (clock_hand c)) PAGE_SIZE) w
      else Ret (0, w))"

definition evict_frame :: "dsm_context \<Rightarrow> dsm_context" where
  "evict_frame c =
     (let v = clock_hand c; p = victim_page c;
          c = next_hand (set_fte v ((fte c v)\<lparr>occupied := 0\<rparr>)
                (set_pte p ((pte c p)\<lparr>valid := 0, dirty := 0\<rparr>) c))
      in c\<lparr>evictions := evictions c + 1, free_list := (free_list c)[0 := v]\<rparr>)"

definition full :: "dsm_context \<Rightarrow> bool" where
  "full c \<longleftrightarrow> pager_inv {} c \<and> free_list_top c = 0"

definition referenced :: "dsm_context \<Rightarrow> u32 set" where
  "referenced c = {f. f < num_pages c \<and> reference_bit (pte c (page_number (fte c f))) \<noteq> 0}"

text \<open>
  The victim of the second-chance policy: the first frame from the hand on whose page has
  not been referenced, and the frame under the hand if all have been.
\<close>

definition clock_order :: "dsm_context \<Rightarrow> nat list" where
  "clock_order c = map (\<lambda>i. (unat (clock_hand c) + i) mod unat (num_pages c)) [0..<unat (num_pages c)]"

definition frame_referenced :: "dsm_context \<Rightarrow> nat \<Rightarrow> bool" where
  "frame_referenced c f \<longleftrightarrow> reference_bit (pte c (page_number (frame_table c ! f))) \<noteq> 0"

definition clock_victim :: "dsm_context \<Rightarrow> nat" where
  "clock_victim c =
     (case find (\<lambda>f. \<not> frame_referenced c f) (clock_order c) of Some f \<Rightarrow> f | None \<Rightarrow> unat (clock_hand c))"

paragraph \<open>What a prefetch does\<close>

text \<open>
  What \<open>prefetch_collect\<close> adds to the batch: pages in range that are remote and not
  cached, each once, with distinct frames taken off the free list.
\<close>

definition batch_ok :: "u32 set \<Rightarrow> dsm_context \<Rightarrow> (u32 \<times> u32) list \<Rightarrow> bool" where
  "batch_ok H c b \<longleftrightarrow>
     distinct (map fst b) \<and> distinct (map snd b) \<and> snd ` set b \<inter> H = {} \<and>
     (\<forall>p \<in> fst ` set b. p < num_virtual_pages c \<and> valid (pte c p) = 0 \<and> location (pte c p) = LOC_REMOTE)"

text \<open>
  The loop that installs a fetched batch: each page of the batch gets its frame, whatever
  the bytes are; and if they are the server's copies, the client sees no difference.
\<close>

definition installs :: "(u32 \<times> u32) list \<Rightarrow> bytes \<Rightarrow> dsm_context \<Rightarrow> dsm_context \<Rightarrow> bool" where
  "installs b bufs c c' \<longleftrightarrow>
     same_dims c c' \<and> last_page_id c' = last_page_id c \<and>
     (\<forall>p < num_virtual_pages c. p \<notin> fst ` set b \<longrightarrow> pte c' p = pte c p) \<and>
     (\<forall>f < num_pages c. f \<notin> snd ` set b \<longrightarrow> frame_data c' f = frame_data c f) \<and>
     (\<forall>S V. represents c S V \<longrightarrow> bufs = concat (map (S \<circ> fst) b) \<longrightarrow>
        (\<forall>p \<in> fst ` set b. length (S p) = PAGE_SIZE) \<longrightarrow> represents c' S V)"

paragraph \<open>The two halves of a page fault\<close>

definition acquire_frame ::
  "'s peer \<Rightarrow> dsm_context \<Rightarrow> 's net \<Rightarrow> (u32 \<times> dsm_context \<times> 's net) outcome" where
  "acquire_frame peer c w =
     bind_oc (get_free_frame c) (\<lambda>(frame, c).
       if frame = DSM_NO_FRAME then evict_page peer c w else Ret (frame, c, w))"

definition fetch_page :: "'s peer \<Rightarrow> dsm_context \<Rightarrow> u32 \<Rightarrow> 's net \<Rightarrow> (int \<times> bytes \<times> 's net) outcome" where
  "fetch_page peer c pid w =
     (if sock_fd c \<ge> 0 then dsm_rpc_get peer (sock_fd c) pid w else Ret (0, [], w))"

definition map_frame :: "dsm_context \<Rightarrow> u32 \<Rightarrow> 32 word \<Rightarrow> u32 \<Rightarrow> bytes \<Rightarrow> dsm_context" where
  "map_frame c pid wr frame buf =
     (let c1 = c\<lparr>local_memory := mem_write (local_memory c) (frame_to_ptr frame) buf\<rparr>;
          c2 = (if sock_fd c \<ge> 0 then c1\<lparr>remote_fetches := remote_fetches c1 + 1\<rparr> else c1)
      in set_fte frame ((fte c frame)\<lparr>page_number := pid, occupied := 1\<rparr>)
           (set_pte pid ((pte c pid)\<lparr>frame_number := frame, valid := 1, reference_bit := 1, dirty := ucast wr,
              location := if sock_fd c \<ge> 0 then LOC_REMOTE else LOC_LOCAL\<rparr>) c2))"

definition finish_fault ::
  "'s peer \<Rightarrow> dsm_context \<Rightarrow> u32 \<Rightarrow> u32 \<Rightarrow> 's net \<Rightarrow> (nat option \<times> dsm_context \<times> 's net) outcome" where
  "finish_fault peer c pid frame w =
     bind_oc (if pid = last_page_id c + 1
              then dsm_prefetch_pages peer c (pid + 1) (prefetch_count c) w else Ret (c, w)) (\<lambda>(c, w).
     Ret (Some (frame_to_ptr frame), c\<lparr>last_page_id := pid\<rparr>, w))"

definition fault_tail ::
  "'s peer \<Rightarrow> dsm_context \<Rightarrow> u32 \<Rightarrow> 32 word \<Rightarrow> u32 \<Rightarrow> u32 \<Rightarrow> int \<Rightarrow> bytes \<Rightarrow> 's net \<Rightarrow>
     (nat option \<times> dsm_context \<times> 's net) outcome" where
  "fault_tail peer c pid wr entry frame rc buf w =
     (let frame_ptr = frame_to_ptr frame; should_fetch = (sock_fd c \<ge> 0) in
     bind_oc (store_bytes c frame_ptr buf) (\<lambda>c.
     if rc < 0 then bind_oc (push_free_frame frame c) (\<lambda>c. Ret (None, c, w))
     else let c = (if should_fetch then c\<lparr>remote_fetches := remote_fetches c + 1\<rparr> else c) in
     bind_oc (idx (page_table c) (unat entry)) (\<lambda>e.
     let c = set_pte entry (e\<lparr>frame_number := frame, valid := 1, reference_bit := 1, dirty := ucast wr,
                             location := if should_fetch then LOC_REMOTE else LOC_LOCAL\<rparr>) c in
     bind_oc (idx (frame_table c) (unat frame)) (\<lambda>fe.
     finish_fault peer (set_fte frame (fe\<lparr>page_number := pid, occupied := 1\<rparr>) c) pid frame w))))"

paragraph \<open>A context connected to a lawful server\<close>

text \<open>
  \<open>linked c w V\<close>: the context is well formed and connected, nothing is in flight, the
  server owns every page of the client's address space, the kernel moves bytes, and the
  client sees the pages \<open>V\<close>. Every access keeps it, returns a pointer to the page, and
  leaves \<open>V\<close> as it was, whatever it evicts, writes back and prefetches on the way.
\<close>

definition net_ok ::
  "('s \<Rightarrow> bool) \<Rightarrow> ('s \<Rightarrow> u32 \<Rightarrow> bytes) \<Rightarrow> dsm_context \<Rightarrow> 's net \<Rightarrow> (u32 \<Rightarrow> bytes) \<Rightarrow> bool" where
  "net_ok ready store c w V \<longleftrightarrow>
     0 \<le> sock_fd c \<and> (\<forall>p < num_virtual_pages c. p \<in> pages (store (far w))) \<and>
     synced ready w \<and> reliable (kern w) \<and> represents c (store (far w)) V"

definition linked ::
  "('s \<Rightarrow> bool) \<Rightarrow> ('s \<Rightarrow> u32 \<Rightarrow> bytes) \<Rightarrow> dsm_context \<Rightarrow> 's net \<Rightarrow> (u32 \<Rightarrow> bytes) \<Rightarrow> bool" where
  "linked ready store c w V \<longleftrightarrow> pager_inv {} c \<and> net_ok ready store c w V"

paragraph \<open>Two small contexts\<close>

text \<open>
  The only frame of \<open>full_example\<close> holds page 1, referenced and modified; the page is clean
  to the clock in \<open>idle_example\<close>.
\<close>

definition full_example :: dsm_context where
  "full_example = (fresh_context 1 2)
     \<lparr>free_list_top := 0, frame_table := [\<lparr>page_number = 1, occupied = 1\<rparr>],
      page_table := [\<lparr>frame_number = 0, valid = 0, reference_bit = 0, dirty = 0, location = 0\<rparr>,
        \<lparr>frame_number = 0, valid = 1, reference_bit = 1, dirty = 1, location = 1\<rparr>]\<rparr>"

definition idle_example :: dsm_context where
  "idle_example = (fresh_context 1 2)
     \<lparr>free_list_top := 0, frame_table := [\<lparr>page_number = 1, occupied = 1\<rparr>],
      page_table := [\<lparr>frame_number = 0, valid = 0, reference_bit = 0, dirty = 0, location = 0\<rparr>,
        \<lparr>frame_number = 0, valid = 1, reference_bit = 0, dirty = 1, location = 1\<rparr>]\<rparr>"

lemmas pager_inv_defs = pager_inv_def shape_ok_def frames_ok_def maps_ok_def free_frames_def
lemmas represents_defs = represents_def coherent_def view_def frame_data_def
lemmas ctx_defs = set_pte_def set_fte_def next_hand_def

subsection \<open>The free list and the two tables\<close>

lemma pager_inv_update [simp]:
  "pager_inv H (c\<lparr>local_hits := n\<rparr>) = pager_inv H c"
  "pager_inv H (c\<lparr>remote_fetches := n\<rparr>) = pager_inv H c"
  "pager_inv H (c\<lparr>evictions := n\<rparr>) = pager_inv H c"
  "pager_inv H (c\<lparr>last_page_id := p\<rparr>) = pager_inv H c"
  "pager_inv H (c\<lparr>sock_fd := fd\<rparr>) = pager_inv H c"
  by (simp_all add: pager_inv_defs)

lemma pager_inv_memory:
  "length m = length (local_memory c) \<Longrightarrow> pager_inv H (c\<lparr>local_memory := m\<rparr>) = pager_inv H c"
  by (simp add: pager_inv_defs)

lemma pager_inv_less:
  assumes "pager_inv H c"
  shows "f < num_pages c \<Longrightarrow> unat f < length (frame_table c)"
    and "p < num_virtual_pages c \<Longrightarrow> unat p < length (page_table c)"
    and "unat (clock_hand c) < length (frame_table c)"
  using assms by (simp_all add: pager_inv_defs word_less_nat_alt)

lemma frame_not_NO_FRAME: "f < (n :: u32) \<Longrightarrow> f \<noteq> DSM_NO_FRAME"
  by (auto simp: DSM_NO_FRAME_def word_less_nat_alt) (use unat_u32_less [of n] in simp)

lemma get_free_frame_empty: "free_list_top c = 0 \<Longrightarrow> get_free_frame c = Ret (DSM_NO_FRAME, c)"
  by (simp add: get_free_frame_def)

lemma get_free_frame_take:
  assumes inv: "pager_inv H c" and top: "free_list_top c \<noteq> 0"
  defines "f \<equiv> free_list c ! unat (free_list_top c - 1)"
    and "c' \<equiv> c\<lparr>free_list_top := free_list_top c - 1\<rparr>"
  shows "get_free_frame c = Ret (f, c')" and "f < num_pages c" and "f \<notin> H"
    and "pager_inv (insert f H) c'"
proof -
  have t: "unat (free_list_top c) = Suc (unat (free_list_top c - 1))"
    using top by (simp add: unat_minus_one unat_gt_0)
  have len: "unat (free_list_top c) \<le> length (free_list c)"
    using inv by (simp add: pager_inv_defs word_le_nat_alt)
  then show "get_free_frame c = Ret (f, c')"
    using top t by (simp add: get_free_frame_def f_def c'_def word_neq_0_conv)
  have ff: "free_frames c = free_frames c' @ [f]"
    using t len by (simp add: free_frames_def f_def c'_def take_Suc_conv_app_nth)
  then show "f < num_pages c" and "f \<notin> H"
    using inv by (auto simp: pager_inv_def frames_ok_def)
  have "free_list_top c' \<le> num_pages c"
    using inv t by (simp add: pager_inv_defs c'_def word_le_nat_alt)
  then show "pager_inv (insert f H) c'"
    using inv ff by (auto simp: pager_inv_def shape_ok_def frames_ok_def maps_ok_def c'_def)
qed

lemma pager_inv_held:
  assumes "pager_inv (insert f H) c"
  shows "f < num_pages c" and "occupied (fte c f) = 0"
  using assms by (auto simp: pager_inv_def frames_ok_def)

lemma push_free_frame_give:
  assumes inv: "pager_inv (insert f H) c" and f: "f \<notin> H"
  defines "c' \<equiv> c\<lparr>free_list := (free_list c)[unat (free_list_top c) := f], free_list_top := free_list_top c + 1\<rparr>"
  shows "push_free_frame f c = Ret c'" and "pager_inv H c'"
proof -
  have len: "length (free_list c) = unat (num_pages c)" "unat (free_list_top c) \<le> unat (num_pages c)"
    using inv by (simp_all add: pager_inv_defs word_le_nat_alt)
  have "distinct (f # free_frames c)" "\<forall>x \<in> set (f # free_frames c). x < num_pages c"
    using inv by (auto simp: pager_inv_def frames_ok_def)
  from length_distinct_below [OF this] have top: "unat (free_list_top c) < unat (num_pages c)"
    using len by (simp add: free_frames_def)
  then have t: "unat (free_list_top c + 1) = Suc (unat (free_list_top c))"
    using unat_u32_less [of "num_pages c"] by (simp add: unat_word_ariths)
  show "push_free_frame f c = Ret c'"
    using top len by (simp add: push_free_frame_def c'_def)
  have "free_frames c' = free_frames c @ [f]"
    using top len by (simp add: free_frames_def c'_def t take_Suc_conv_app_nth)
  moreover have "free_list_top c' \<le> num_pages c'"
    using top t by (simp add: c'_def word_le_nat_alt)
  ultimately show "pager_inv H c'"
    using inv f by (auto simp: pager_inv_def shape_ok_def frames_ok_def maps_ok_def c'_def)
qed

lemma pager_inv_bits:
  assumes inv: "pager_inv H c" and e: "valid e = valid (pte c p)" "frame_number e = frame_number (pte c p)"
  shows "pager_inv H (set_pte p e c)"
proof -
  have "valid (pte (set_pte p e c) q) = valid (pte c q)"
    "frame_number (pte (set_pte p e c) q) = frame_number (pte c q)"
    if "q < num_virtual_pages c" for q
    using e pager_inv_less(2) [OF inv that] by (auto simp: set_pte_def nth_update_word)
  with inv show ?thesis
    by (auto simp: pager_inv_defs set_pte_def)
qed

lemma pager_inv_next_hand: "pager_inv H c \<Longrightarrow> pager_inv H (next_hand c)"
proof -
  assume inv: "pager_inv H c"
  then have "num_pages c \<noteq> 0"
    by (auto simp: pager_inv_defs)
  then have "(clock_hand c + 1) mod num_pages c < num_pages c"
    by (simp add: word_mod_less_divisor word_neq_0_conv)
  with inv show ?thesis
    by (auto simp: pager_inv_defs next_hand_def)
qed

lemma pager_inv_map_page:
  assumes inv: "pager_inv (insert f H) c" and f: "f \<notin> H" and p: "p < num_virtual_pages c" "valid (pte c p) = 0"
    and e: "frame_number e = f" "valid e \<noteq> 0" and fe: "page_number fe = p" "occupied fe \<noteq> 0"
  shows "pager_inv H (set_fte f fe (set_pte p e c))"
proof -
  note fn = pager_inv_held [OF inv]
  have g: "(frame_table c)[unat f := fe] ! unat g = (if g = f then fe else fte c g)"
    "(page_table c)[unat p := e] ! unat q = (if q = p then e else pte c q)" for g q
    using pager_inv_less(1) [OF inv fn(1)] pager_inv_less(2) [OF inv p(1)] by (auto simp: nth_list_update)
  from inv have "shape_ok (set_fte f fe (set_pte p e c))"
    by (simp add: pager_inv_def shape_ok_def ctx_defs)
  moreover have "frames_ok H (set_fte f fe (set_pte p e c))"
    using inv f fe fn g(1) by (auto simp: pager_inv_def frames_ok_def free_frames_def ctx_defs)
  moreover have "maps_ok (set_fte f fe (set_pte p e c))"
    using inv p e fe fn g by (auto simp: pager_inv_def maps_ok_def ctx_defs)
  ultimately show ?thesis by (simp add: pager_inv_def)
qed

lemma pager_inv_unmap_page:
  assumes inv: "pager_inv H c" and f: "f < num_pages c" "occupied (fte c f) \<noteq> 0" "page_number (fte c f) = p"
    and e: "valid e = 0" and fe: "occupied fe = 0"
  shows "pager_inv (insert f H) (set_fte f fe (set_pte p e c))" and "f \<notin> H"
proof -
  have p: "p < num_virtual_pages c" "valid (pte c p) \<noteq> 0" "frame_number (pte c p) = f"
    using inv f by (auto simp: pager_inv_def maps_ok_def)
  have g: "(frame_table c)[unat f := fe] ! unat g = (if g = f then fe else fte c g)"
    "(page_table c)[unat p := e] ! unat q = (if q = p then e else pte c q)" for g q
    using pager_inv_less(1) [OF inv f(1)] pager_inv_less(2) [OF inv p(1)] by (auto simp: nth_list_update)
  from inv have "shape_ok (set_fte f fe (set_pte p e c))"
    by (simp add: pager_inv_def shape_ok_def ctx_defs)
  moreover have "frames_ok (insert f H) (set_fte f fe (set_pte p e c))"
    using inv f fe g(1) by (auto simp: pager_inv_def frames_ok_def free_frames_def ctx_defs)
  moreover have "maps_ok (set_fte f fe (set_pte p e c))"
    using inv p e fe f g by (auto simp: pager_inv_def maps_ok_def ctx_defs)
  ultimately show "pager_inv (insert f H) (set_fte f fe (set_pte p e c))"
    by (simp add: pager_inv_def)
  show "f \<notin> H"
    using inv f by (auto simp: pager_inv_def frames_ok_def)
qed

subsection \<open>Eviction\<close>

lemma swept_clear: "swept c (next_hand (set_pte p ((pte c p)\<lparr>reference_bit := b\<rparr>) c))"
proof -
  let ?clr = "reference_bit_update (\<lambda>_. 0)"
  have "map ?clr ((page_table c)[unat p := (pte c p)\<lparr>reference_bit := b\<rparr>]) ! i = map ?clr (page_table c) ! i"
    if "i < length (page_table c)" for i
    using that by (cases "i = unat p") simp_all
  then have "map ?clr ((page_table c)[unat p := (pte c p)\<lparr>reference_bit := b\<rparr>]) = map ?clr (page_table c)"
    by (intro nth_equalityI) simp_all
  then show ?thesis
    by (simp add: swept_def ctx_defs)
qed

lemma swept_refl [simp]: "swept c c"
  by (simp add: swept_def)

lemma swept_trans: "swept a b \<Longrightarrow> swept b c \<Longrightarrow> swept a c"
  by (simp add: swept_def)

lemma swept_sel:
  assumes "swept c c'"
  shows "sock_fd c' = sock_fd c" "local_memory c' = local_memory c" "frame_table c' = frame_table c"
    "num_pages c' = num_pages c" "num_virtual_pages c' = num_virtual_pages c"
    "free_list_top c' = free_list_top c" "evictions c' = evictions c" "local_hits c' = local_hits c"
    "remote_fetches c' = remote_fetches c" "last_page_id c' = last_page_id c" "prefetch_count c' = prefetch_count c"
  using assms by (cases c; cases c'; simp add: swept_def)+

lemma swept_length: "swept c c' \<Longrightarrow> length (page_table c') = length (page_table c)"
  unfolding swept_def using map_eq_imp_length_eq by blast

lemma swept_pte:
  assumes "swept c c'" and "unat p < length (page_table c)"
  shows "(pte c' p)\<lparr>reference_bit := 0\<rparr> = (pte c p)\<lparr>reference_bit := 0\<rparr>"
    "valid (pte c' p) = valid (pte c p)" "frame_number (pte c' p) = frame_number (pte c p)"
    "dirty (pte c' p) = dirty (pte c p)" "location (pte c' p) = location (pte c p)"
proof -
  show eq: "(pte c' p)\<lparr>reference_bit := 0\<rparr> = (pte c p)\<lparr>reference_bit := 0\<rparr>"
    using assms(1) [unfolded swept_def, THEN conjunct2, THEN arg_cong [where f = "\<lambda>xs. xs ! unat p"]]
      swept_length [OF assms(1)] assms(2) by simp
  show "valid (pte c' p) = valid (pte c p)" "frame_number (pte c' p) = frame_number (pte c p)"
    "dirty (pte c' p) = dirty (pte c p)" "location (pte c' p) = location (pte c p)"
    using eq by (cases "pte c' p"; cases "pte c p"; simp)+
qed

lemma full_occupied: "full c \<Longrightarrow> f < num_pages c \<Longrightarrow> occupied (fte c f) \<noteq> 0"
proof -
  assume "full c" and f: "f < num_pages c"
  then have "f \<in> set (free_frames c) \<union> {} \<longleftrightarrow> f < num_pages c \<and> occupied (fte c f) = 0" and "free_frames c = []"
    unfolding full_def pager_inv_def frames_ok_def free_frames_def by (blast, simp)
  with f show ?thesis by simp
qed

lemma full_victim:
  assumes "full c"
  shows "clock_hand c < num_pages c" and "unat (clock_hand c) < length (frame_table c)"
    and "occupied (fte c (clock_hand c)) \<noteq> 0" and "victim_page c < num_virtual_pages c"
    and "unat (victim_page c) < length (page_table c)" and "valid (pte c (victim_page c)) \<noteq> 0"
    and "frame_number (pte c (victim_page c)) = clock_hand c"
    and "frame_to_ptr (clock_hand c) + PAGE_SIZE \<le> length (local_memory c)"
proof -
  have inv: "pager_inv {} c"
    using assms by (simp add: full_def)
  show h: "clock_hand c < num_pages c"
    using inv by (simp add: pager_inv_defs)
  show "unat (clock_hand c) < length (frame_table c)"
    by (rule pager_inv_less(1) [OF inv h])
  show occ: "occupied (fte c (clock_hand c)) \<noteq> 0"
    by (rule full_occupied [OF assms h])
  show p: "victim_page c < num_virtual_pages c" and "valid (pte c (victim_page c)) \<noteq> 0"
    and "frame_number (pte c (victim_page c)) = clock_hand c"
    using inv h occ by (auto simp: pager_inv_def maps_ok_def victim_page_def)
  show "unat (victim_page c) < length (page_table c)"
    by (rule pager_inv_less(2) [OF inv p])
  have "(Suc (unat (clock_hand c))) * PAGE_SIZE \<le> unat (num_pages c) * PAGE_SIZE"
    using h by (intro mult_le_mono1) (simp add: word_less_nat_alt)
  then show "frame_to_ptr (clock_hand c) + PAGE_SIZE \<le> length (local_memory c)"
    using inv by (simp add: frame_to_ptr_def pager_inv_defs)
qed

lemma full_clear_bit:
  assumes "full c"
  defines "c' \<equiv> next_hand (set_pte (victim_page c) ((pte c (victim_page c))\<lparr>reference_bit := 0\<rparr>) c)"
  shows "full c'" and "swept c c'"
    and "reference_bit (pte c (victim_page c)) \<noteq> 0 \<Longrightarrow> referenced c' \<subset> referenced c"
proof -
  note v = full_victim [OF assms(1)]
  have inv: "pager_inv {} c"
    using assms by (simp add: full_def)
  show "full c'"
    unfolding full_def c'_def
    using inv assms(1) by (intro conjI pager_inv_next_hand pager_inv_bits) (simp_all add: full_def ctx_defs)
  show "swept c c'"
    unfolding c'_def by (rule swept_clear)
  assume "reference_bit (pte c (victim_page c)) \<noteq> 0"
  then have "clock_hand c \<in> referenced c"
    using v by (simp add: referenced_def victim_page_def)
  moreover have "clock_hand c \<notin> referenced c'"
    using v by (simp add: referenced_def c'_def ctx_defs victim_page_def)
  moreover have "referenced c' \<subseteq> referenced c"
  proof
    fix f assume f: "f \<in> referenced c'"
    then have "f < num_pages c"
      by (simp add: referenced_def c'_def ctx_defs)
    with full_occupied [OF assms(1) this] have "page_number (fte c f) < num_virtual_pages c"
      using inv by (auto simp: pager_inv_def maps_ok_def)
    from pager_inv_less(2) [OF inv this] show "f \<in> referenced c"
      using f by (auto simp: referenced_def c'_def ctx_defs nth_update_word split: if_splits)
  qed
  ultimately show "referenced c' \<subset> referenced c" by blast
qed

lemma push_then_get:
  assumes "length (free_list c) \<noteq> 0" and "free_list_top c = 0"
  shows "bind_oc (push_free_frame v c) get_free_frame = Ret (v, c\<lparr>free_list := (free_list c)[0 := v]\<rparr>)"
proof -
  have "push_free_frame v c = Ret (c\<lparr>free_list := (free_list c)[0 := v], free_list_top := 1\<rparr>)"
    using assms by (simp add: push_free_frame_def)
  then show ?thesis
    using assms by (simp add: get_free_frame_def)
qed

lemma evict_loop_victim:
  assumes "full c" and ref: "reference_bit (pte c (victim_page c)) = 0"
  shows "evict_loop peer (Suc fuel) c w =
    bind_oc (writeback peer c w) (\<lambda>(rc, w). if rc < 0 then Ret (DSM_NO_FRAME, c, w)
      else Ret (clock_hand c, evict_frame c, w))"
proof -
  note v = full_victim [OF assms(1)]
  have fl: "length (free_list c) \<noteq> 0" "free_list_top c = 0"
    using assms(1) v(2) by (auto simp: full_def pager_inv_def shape_ok_def)
  let ?c = "(next_hand (set_fte (clock_hand c) ((fte c (clock_hand c))\<lparr>occupied := 0\<rparr>)
      (set_pte (victim_page c) ((pte c (victim_page c))\<lparr>valid := 0, dirty := 0\<rparr>) c)))"
  let ?c3 = "?c\<lparr>evictions := evictions ?c + 1\<rparr>"
  have "bind_oc (push_free_frame (clock_hand c) ?c3) (\<lambda>c4. bind_oc (get_free_frame c4) (\<lambda>(fr, c5). Ret (fr, c5, w)))
      = Ret (clock_hand c, evict_frame c, w)" for w :: "'a net"
    using push_then_get [of ?c3 "clock_hand c"] fl
    by (simp add: bind_oc_assoc [symmetric] evict_frame_def Let_def ctx_defs)
  then show ?thesis
    using v ref by (simp add: victim_page_def Let_def writeback_def load_page_def case_prod_unfold cong: if_cong)
qed

lemma evict_loop_clear:
  assumes "full c" and ref: "reference_bit (pte c (victim_page c)) \<noteq> 0"
  shows "evict_loop peer (Suc fuel) c w =
    evict_loop peer fuel (next_hand (set_pte (victim_page c) ((pte c (victim_page c))\<lparr>reference_bit := 0\<rparr>) c)) w"
  using full_victim [OF assms(1)] ref by (simp add: victim_page_def)

text \<open>Turning the hand by one frame rotates the order in which frames are looked at.\<close>

lemma unat_next_hand:
  assumes "clock_hand c < num_pages c"
  shows "unat (clock_hand (next_hand c)) = Suc (unat (clock_hand c)) mod unat (num_pages c)"
proof -
  have "unat (clock_hand c + 1) = Suc (unat (clock_hand c))"
    using assms unat_u32_less [of "num_pages c"] by (simp add: unat_word_ariths word_less_nat_alt)
  then show ?thesis
    by (simp add: next_hand_def unat_mod)
qed

lemma clock_order_Cons:
  assumes "clock_hand c < num_pages c"
  obtains fs where "clock_order c = unat (clock_hand c) # fs" and "unat (clock_hand c) \<notin> set fs"
    and "clock_order (next_hand c) = fs @ [unat (clock_hand c)]" and "\<forall>f \<in> set fs. f < unat (num_pages c)"
proof -
  let ?h = "unat (clock_hand c)" and ?n = "unat (num_pages c)"
  let ?fs = "map (\<lambda>i. (?h + i) mod ?n) [1..<?n]"
  have h: "?h < ?n" using assms by (simp add: word_less_nat_alt)
  have "[0..<?n] = 0 # [1..<?n]" using h by (simp add: upt_conv_Cons)
  then have 1: "clock_order c = ?h # ?fs" using h by (simp add: clock_order_def)
  have ne: "(?h + i) mod ?n \<noteq> ?h" if "0 < i" "i < ?n" for i
    using that h by (cases "?h + i < ?n") (simp_all add: mod_if [of "?h + i"])
  have "clock_order (next_hand c) = map (\<lambda>i. (?h + Suc i) mod ?n) [0..<?n]"
    using unat_next_hand [OF assms] by (simp add: clock_order_def mod_simps next_hand_def)
  also have "\<dots> = map (\<lambda>i. (?h + i) mod ?n) [1..<Suc ?n]"
    by (simp add: map_Suc_upt [symmetric] del: upt_Suc)
  also have "\<dots> = ?fs @ [?h]"
    using h by simp
  finally have 2: "clock_order (next_hand c) = ?fs @ [?h]" .
  have "?h \<notin> set ?fs"
  proof
    assume "?h \<in> set ?fs"
    then obtain i where i: "i \<in> set [1..<?n]" "?h = (?h + i) mod ?n"
      unfolding set_map image_iff by blast
    with ne [of i] show False by simp
  qed
  moreover have "\<forall>f \<in> set ?fs. f < ?n" using h by auto
  ultimately show ?thesis using 1 2 by (intro that)
qed

lemma clock_victim_clear:
  assumes "full c" and ref: "reference_bit (pte c (victim_page c)) \<noteq> 0"
  defines "c' \<equiv> next_hand (set_pte (victim_page c) ((pte c (victim_page c))\<lparr>reference_bit := 0\<rparr>) c)"
  shows "clock_victim c' = clock_victim c"
proof -
  note v = full_victim [OF assms(1)]
  let ?h = "unat (clock_hand c)"
  obtain fs where fs: "clock_order c = ?h # fs" "?h \<notin> set fs" "clock_order (next_hand c) = fs @ [?h]"
    "\<forall>f \<in> set fs. f < unat (num_pages c)"
    using clock_order_Cons [OF v(1)] by blast
  have inv: "pager_inv {} c"
    using assms(1) by (simp add: full_def)
  have same: "frame_referenced c' f = frame_referenced c f" if "f \<in> set fs" for f
  proof -
    have f: "unat (word_of_nat f :: u32) = f" "f < unat (num_pages c)"
      using fs(4) that unat_u32_less [of "num_pages c"] by (auto simp: unat_of_nat_u32)
    then have w: "(word_of_nat f :: u32) < num_pages c" "word_of_nat f \<noteq> clock_hand c"
      using fs(2) that by (auto simp: word_less_nat_alt)
    with full_occupied [OF assms(1)] inv have "frame_number (pte c (page_number (fte c (word_of_nat f)))) = word_of_nat f"
      by (simp add: pager_inv_def maps_ok_def)
    with v(7) w(2) f(1) have "page_number (frame_table c ! f) \<noteq> victim_page c"
      by auto
    then show ?thesis
      by (simp add: frame_referenced_def c'_def ctx_defs)
  qed
  have "clock_order c' = fs @ [?h]"
    using fs(3) by (simp add: c'_def clock_order_def ctx_defs)
  moreover have "\<not> frame_referenced c' ?h"
    using v(5) by (simp add: frame_referenced_def c'_def ctx_defs victim_page_def)
  moreover have "frame_referenced c ?h"
    using ref by (simp add: frame_referenced_def victim_page_def)
  moreover have "find (\<lambda>f. \<not> frame_referenced c' f) fs = find (\<lambda>f. \<not> frame_referenced c f) fs"
    using same by (simp cong: find_cong)
  moreover have "find P (xs @ [x]) = (case find P xs of None \<Rightarrow> if P x then Some x else None | Some y \<Rightarrow> Some y)"
    for P and xs :: "nat list" and x
    by (induction xs) auto
  ultimately show ?thesis
    by (simp add: clock_victim_def fs(1) split: option.split)
qed

lemma clock_victim_now:
  assumes "full c" and "reference_bit (pte c (victim_page c)) = 0"
  shows "clock_victim c = unat (clock_hand c)"
proof -
  obtain fs where "clock_order c = unat (clock_hand c) # fs"
    using clock_order_Cons [OF full_victim(1) [OF assms(1)]] by blast
  with assms(2) show ?thesis
    by (simp add: clock_victim_def frame_referenced_def victim_page_def)
qed

lemma evict_loop_spec:
  assumes "full c" and "card (referenced c) < fuel"
  shows "\<exists>c1. full c1 \<and> swept c c1 \<and> unat (clock_hand c1) = clock_victim c \<and> evict_loop peer fuel c w =
    bind_oc (writeback peer c1 w) (\<lambda>(rc, w). if rc < 0 then Ret (DSM_NO_FRAME, c1, w)
      else Ret (clock_hand c1, evict_frame c1, w))"
  using assms
proof (induction fuel arbitrary: c)
  case 0
  then show ?case by simp
next
  case (Suc fuel)
  show ?case
  proof (cases "reference_bit (pte c (victim_page c)) = 0")
    case True
    then show ?thesis
      using Suc.prems(1) evict_loop_victim [OF Suc.prems(1) True, of peer fuel w] swept_refl
        clock_victim_now [OF Suc.prems(1) True]
      by (intro exI [of _ c]) simp
  next
    case False
    let ?c = "next_hand (set_pte (victim_page c) ((pte c (victim_page c))\<lparr>reference_bit := 0\<rparr>) c)"
    note clear = full_clear_bit [OF Suc.prems(1)]
    have "finite (referenced c)"
      by simp
    then have "card (referenced ?c) < fuel"
      using psubset_card_mono [OF _ clear(3) [OF False]] Suc.prems(2) by simp
    from Suc.IH [OF clear(1) this] show ?thesis
      unfolding clock_victim_clear [OF Suc.prems(1) False]
      using evict_loop_clear [OF Suc.prems(1) False, of peer fuel w] swept_trans [OF clear(2)] by auto
  qed
qed

lemma card_referenced: "card (referenced c) < unat (num_pages c) + 1"
proof -
  have "card (referenced c) \<le> card {f. f < num_pages c}"
    by (rule card_mono) (auto simp: referenced_def)
  also have "\<dots> \<le> unat (num_pages c)"
    by (rule card_words_below)
  finally show ?thesis by simp
qed

lemma evict_page_spec:
  assumes "full c"
  obtains c1 where "full c1" and "swept c c1" and "unat (clock_hand c1) = clock_victim c"
    and "evict_page peer c w = bind_oc (writeback peer c1 w) (\<lambda>(rc, w).
      if rc < 0 then Ret (DSM_NO_FRAME, c1, w) else Ret (clock_hand c1, evict_frame c1, w))"
proof -
  have "card (referenced c) < 2 * unat (num_pages c) + 1"
    using card_referenced [of c] by simp
  from evict_loop_spec [OF assms this, of peer w] show ?thesis
    using that by (auto simp: evict_page_def)
qed

lemma evict_frame_inv:
  assumes "full c"
  shows "pager_inv {clock_hand c} (evict_frame c)"
proof -
  note v = full_victim [OF assms]
  have inv: "pager_inv {} c" and top: "free_list_top c = 0"
    using assms by (simp_all add: full_def)
  let ?c = "set_fte (clock_hand c) ((fte c (clock_hand c))\<lparr>occupied := 0\<rparr>)
      (set_pte (victim_page c) ((pte c (victim_page c))\<lparr>valid := 0, dirty := 0\<rparr>) c)"
  have "pager_inv {clock_hand c} (next_hand ?c)"
    using pager_inv_unmap_page(1) [OF inv v(1,3) victim_page_def [symmetric]]
    by (intro pager_inv_next_hand) simp
  moreover have "free_list_top (next_hand ?c) = 0"
    using top by (simp add: ctx_defs)
  ultimately show ?thesis
    by (simp add: evict_frame_def Let_def ctx_defs pager_inv_defs)
qed

subsection \<open>Prefetching\<close>

lemma same_dims_refl [simp]: "same_dims c c"
  by (simp add: same_dims_def)

lemma same_dims_trans: "same_dims a b \<Longrightarrow> same_dims b c \<Longrightarrow> same_dims a c"
  by (simp add: same_dims_def)

lemma same_dims_update [simp]:
  "same_dims c (c'\<lparr>local_memory := m\<rparr>) = same_dims c c'"
  "same_dims c (c'\<lparr>free_list := fl\<rparr>) = same_dims c c'"
  "same_dims c (c'\<lparr>free_list_top := t\<rparr>) = same_dims c c'"
  "same_dims c (c'\<lparr>remote_fetches := n\<rparr>) = same_dims c c'"
  "same_dims c (c'\<lparr>local_hits := n\<rparr>) = same_dims c c'"
  "same_dims c (c'\<lparr>evictions := n\<rparr>) = same_dims c c'"
  "same_dims c (c'\<lparr>last_page_id := p\<rparr>) = same_dims c c'"
  "same_dims c (set_pte p e c') = same_dims c c'"
  "same_dims c (set_fte f fe c') = same_dims c c'"
  "same_dims c (next_hand c') = same_dims c c'"
  by (simp_all add: same_dims_def ctx_defs)

lemma same_dims_swept: "swept c c' \<Longrightarrow> same_dims c c'"
  by (simp add: same_dims_def swept_sel)

lemma same_dims_evict_frame [simp]: "same_dims c (evict_frame c') = same_dims c c'"
  by (simp add: evict_frame_def Let_def)

lemma prefetch_collect_spec:
  assumes "pager_inv H c" and "distinct is" and "\<forall>i \<in> set is. i < 256"
  shows "ensures (prefetch_collect start is c batch) (\<lambda>(c', b). \<exists>new t.
    b = batch @ new \<and> c' = c\<lparr>free_list_top := t\<rparr> \<and> pager_inv (H \<union> snd ` set new) c' \<and>
    batch_ok H c new \<and> fst ` set new \<subseteq> (\<lambda>i. start + of_nat i) ` set is)"
  using assms
proof (induction start "is" c batch arbitrary: H rule: prefetch_collect.induct)
  case (1 start c batch)
  then show ?case
    by (auto simp: batch_ok_def intro!: exI [of _ "free_list_top c"])
next
  case (2 start i "is" c batch)
  let ?pid = "start + of_nat i"
  let ?post = "\<lambda>is H c (c', b). \<exists>new t.
    b = batch @ new \<and> c' = c\<lparr>free_list_top := t\<rparr> \<and> pager_inv (H \<union> snd ` set new) c' \<and>
    batch_ok H c new \<and> fst ` set new \<subseteq> (\<lambda>i. start + of_nat i) ` set is"
  have stop: "?post (i # is) H c (c, batch)"
    using 2(3) by (auto simp: batch_ok_def intro!: exI [of _ "free_list_top c"])
  show ?case
  proof (cases "length batch < DSM_PREFETCH_MAX \<and> ?pid < num_virtual_pages c")
    case False
    then show ?thesis
      using stop by (auto simp: Let_def linorder_not_less)
  next
    case go: True
    then have pid: "unat ?pid < length (page_table c)"
      by (intro pager_inv_less(2) [OF 2(3)]) simp
    have step: "prefetch_collect start (i # is) c batch =
      (if valid (pte c ?pid) \<noteq> 0 \<or> location (pte c ?pid) \<noteq> LOC_REMOTE then prefetch_collect start is c batch
       else bind_oc (get_free_frame c) (\<lambda>(frame, c).
         if frame = DSM_NO_FRAME then Ret (c, batch) else prefetch_collect start is c (batch @ [(?pid, frame)])))"
      using go pid by (auto simp: Let_def leD)
    show ?thesis
    proof (cases "valid (pte c ?pid) \<noteq> 0 \<or> location (pte c ?pid) \<noteq> LOC_REMOTE")
      case True
      have "ensures (prefetch_collect start is c batch) (?post is H c)"
        using 2(1) [OF _ refl _ True 2(3)] go 2(4,5) by (simp add: not_le)
      then have "ensures (prefetch_collect start is c batch) (?post (i # is) H c)"
        by (rule ensures_mono) fastforce
      with True show ?thesis
        by (simp only: step if_True)
    next
      case take: False
      show ?thesis
      proof (cases "free_list_top c = 0")
        case True
        with take stop show ?thesis
          by (simp only: step if_False get_free_frame_empty bind_oc.simps prod.case simp_thms if_True ensures_Ret)
      next
        case False
        note g = get_free_frame_take [OF 2(3) False]
        let ?f = "free_list c ! unat (free_list_top c - 1)"
        let ?c = "c\<lparr>free_list_top := free_list_top c - 1\<rparr>"
        let ?q = "\<lambda>(c', b). \<exists>new t. b = (batch @ [(?pid, ?f)]) @ new \<and> c' = ?c\<lparr>free_list_top := t\<rparr> \<and>
          pager_inv (insert ?f H \<union> snd ` set new) c' \<and> batch_ok (insert ?f H) ?c new \<and>
          fst ` set new \<subseteq> (\<lambda>i. start + of_nat i) ` set is"
        have "ensures (prefetch_collect start is ?c (batch @ [(?pid, ?f)])) ?q"
          using 2(2) [OF _ refl _ take frame_not_NO_FRAME [OF g(2)] g(4)] go 2(4,5) by (simp add: not_le)
        then have "ensures (prefetch_collect start is ?c (batch @ [(?pid, ?f)])) (?post (i # is) H c)"
        proof (rule ensures_mono)
          fix r assume "?q r"
          then obtain new t where r: "r = (c\<lparr>free_list_top := t\<rparr>, batch @ (?pid, ?f) # new)"
            and new: "pager_inv (insert ?f H \<union> snd ` set new) (c\<lparr>free_list_top := t\<rparr>)"
              "batch_ok (insert ?f H) ?c new" "fst ` set new \<subseteq> (\<lambda>i. start + of_nat i) ` set is"
            by (cases r) auto
          have "?pid \<notin> fst ` set new"
          proof
            assume "?pid \<in> fst ` set new"
            with new(3) obtain j where "j \<in> set is" "(of_nat i :: u32) = of_nat j"
              by auto
            moreover from this have "i = j"
              using 2(5) unat_of_nat_u32 [of i] unat_of_nat_u32 [of j] by auto
            ultimately show False
              using 2(4) by simp
          qed
          then have "batch_ok H c ((?pid, ?f) # new)"
            using new(2) take go g(3) by (auto simp: batch_ok_def image_iff)
          then show "?post (i # is) H c r"
            using new(1,3) unfolding r prod.case
            by (intro exI [of _ "(?pid, ?f) # new"] exI [of _ t]) auto
        qed
        with take frame_not_NO_FRAME [OF g(2)] show ?thesis
          by (simp only: step g(1) if_False bind_oc.simps prod.case simp_thms)
      qed
    qed
  qed
qed

lemma get_free_frame_not_Blocked: "get_free_frame c \<noteq> Blocked"
  unfolding get_free_frame_def Let_def by (simp add: bind_oc_not_Blocked)

lemma prefetch_collect_not_Blocked: "prefetch_collect start is c batch \<noteq> Blocked"
proof (induction start "is" c batch rule: prefetch_collect.induct)
  case (2 start i "is" c batch)
  then show ?case
    by (simp add: Let_def case_prod_unfold bind_oc_not_Blocked get_free_frame_not_Blocked)
qed simp

lemma push_frames_spec:
  "pager_inv (H \<union> set fs) c \<Longrightarrow> distinct fs \<Longrightarrow> set fs \<inter> H = {} \<Longrightarrow>
     \<exists>fl t. push_frames fs c = Ret (c\<lparr>free_list := fl, free_list_top := t\<rparr>) \<and>
       pager_inv H (c\<lparr>free_list := fl, free_list_top := t\<rparr>)"
proof (induction fs arbitrary: c)
  case Nil
  then show ?case
    by (intro exI [of _ "free_list c"] exI [of _ "free_list_top c"]) simp
next
  case (Cons f fs)
  let ?c = "c\<lparr>free_list := (free_list c)[unat (free_list_top c) := f], free_list_top := free_list_top c + 1\<rparr>"
  have inv: "pager_inv (insert f (H \<union> set fs)) c" and "f \<notin> H \<union> set fs"
    using Cons.prems by auto
  from push_free_frame_give [OF this] have g: "push_free_frame f c = Ret ?c" "pager_inv (H \<union> set fs) ?c"
    by simp_all
  from Cons.IH [OF g(2)] Cons.prems obtain fl t where
    "push_frames fs ?c = Ret (?c\<lparr>free_list := fl, free_list_top := t\<rparr>)"
    "pager_inv H (?c\<lparr>free_list := fl, free_list_top := t\<rparr>)"
    by auto
  with g(1) show ?case
    by (intro exI [of _ fl] exI [of _ t]) simp
qed

subsection \<open>Frames as memory\<close>

lemma frame_ptr_bound:
  assumes "pager_inv H c" and "f < num_pages c"
  shows "frame_to_ptr f + PAGE_SIZE \<le> length (local_memory c)"
  using assms slot_bound [of "unat f" "unat (num_pages c)" PAGE_SIZE]
  by (simp add: frame_to_ptr_def pager_inv_defs word_less_nat_alt)

lemma frames_disjoint:
  "f \<noteq> g \<Longrightarrow> frame_to_ptr f + PAGE_SIZE \<le> frame_to_ptr g \<or> frame_to_ptr g + PAGE_SIZE \<le> frame_to_ptr f"
  unfolding frame_to_ptr_def by (rule slots_disjoint) simp

lemma frame_data_write:
  assumes inv: "pager_inv H c" and f: "f < num_pages c" and g: "g < num_pages c" and len: "length d = PAGE_SIZE"
  shows "frame_data (c\<lparr>local_memory := mem_write (local_memory c) (frame_to_ptr f) d\<rparr>) g
    = (if g = f then d else frame_data c g)"
proof (cases "g = f")
  case True
  then show ?thesis
    using mem_read_write_same [of "frame_to_ptr f" d "local_memory c"] frame_ptr_bound [OF inv f] len
    by (simp add: frame_data_def)
next
  case False
  then show ?thesis
    using mem_read_write_other [of "frame_to_ptr f" d "local_memory c" "frame_to_ptr g" PAGE_SIZE]
      frame_ptr_bound [OF inv f] frame_ptr_bound [OF inv g] frames_disjoint [of f g] len
    by (auto simp: frame_data_def)
qed

lemma store_bytes_frame:
  assumes "pager_inv H c" and "f < num_pages c" and "length d \<le> PAGE_SIZE"
  shows "store_bytes c (frame_to_ptr f) d = Ret (c\<lparr>local_memory := mem_write (local_memory c) (frame_to_ptr f) d\<rparr>)"
    and "pager_inv H (c\<lparr>local_memory := mem_write (local_memory c) (frame_to_ptr f) d\<rparr>)"
  using assms frame_ptr_bound [OF assms(1,2)]
  by (simp_all add: store_bytes_def pager_inv_memory length_mem_write)

lemma represents_update [simp]:
  "represents (c\<lparr>local_hits := n\<rparr>) S V = represents c S V"
  "represents (c\<lparr>remote_fetches := n\<rparr>) S V = represents c S V"
  "represents (c\<lparr>evictions := n\<rparr>) S V = represents c S V"
  "represents (c\<lparr>last_page_id := p\<rparr>) S V = represents c S V"
  "represents (c\<lparr>free_list := fl\<rparr>) S V = represents c S V"
  "represents (c\<lparr>free_list_top := t\<rparr>) S V = represents c S V"
  "represents (c\<lparr>clock_hand := h\<rparr>) S V = represents c S V"
  by (simp_all add: represents_defs)

text \<open>Mapping a page to a frame that holds the server's copy keeps what the client sees.\<close>

lemma represents_map_page:
  assumes inv: "pager_inv (insert f H) c" and f: "f \<notin> H"
    and p: "p < num_virtual_pages c" "valid (pte c p) = 0"
    and rep: "represents c S V" and d: "d = S p" "length d = PAGE_SIZE"
    and e: "frame_number e = f" "valid e \<noteq> 0" "location e = LOC_REMOTE"
  shows "represents (set_fte f fe (set_pte p e (c\<lparr>local_memory := mem_write (local_memory c) (frame_to_ptr f) d\<rparr>))) S V"
    (is "represents ?c S V")
proof -
  note fn = pager_inv_held [OF inv]
  have pt: "pte ?c q = (if q = p then e else pte c q)" for q
    using pager_inv_less(2) [OF inv p(1)] by (cases "q = p") (simp_all add: ctx_defs)
  have same: "frame_data ?c (frame_number (pte c q)) = frame_data c (frame_number (pte c q))"
    if q: "q < num_virtual_pages c" "valid (pte c q) \<noteq> 0" for q
  proof -
    have "frame_number (pte c q) < num_pages c" "frame_number (pte c q) \<noteq> f"
      using inv q fn(2) by (auto simp: pager_inv_def maps_ok_def)
    then show ?thesis
      using frame_data_write [OF inv fn(1) _ d(2)] by (simp add: frame_data_def ctx_defs)
  qed
  have new: "frame_data ?c f = S p"
    using frame_data_write [OF inv fn(1) fn(1) d(2)] d(1) by (simp add: frame_data_def ctx_defs)
  have nv: "num_virtual_pages ?c = num_virtual_pages c"
    by (simp add: ctx_defs)
  have "coherent ?c S"
    using rep e new same by (auto simp: represents_def coherent_def pt nv)
  moreover have "view ?c S q = V q" if "q < num_virtual_pages c" for q
    using rep e new same [OF that] p that by (auto simp: represents_def view_def pt)
  ultimately show ?thesis
    by (simp add: represents_def nv)
qed

lemma represents_swept:
  assumes inv: "pager_inv H c" and sw: "swept c c'" and rep: "represents c S V"
  shows "represents c' S V"
proof -
  note [simp] = swept_sel [OF sw]
  have "valid (pte c' p) = valid (pte c p) \<and> frame_number (pte c' p) = frame_number (pte c p) \<and>
    dirty (pte c' p) = dirty (pte c p) \<and> location (pte c' p) = location (pte c p)"
    if "p < num_virtual_pages c" for p
    using swept_pte [OF sw] pager_inv_less(2) [OF inv that] by simp
  with rep show ?thesis
    by (auto simp: represents_defs)
qed

text \<open>
  Evicting the page under the hand keeps what the client sees if the server's copy \<open>S'\<close> of
  that page is now what the frame held.
\<close>

lemma represents_evict_frame:
  assumes "full c" and rep: "represents c S V" and S': "S' = S(victim_page c := frame_data c (clock_hand c))"
  shows "represents (evict_frame c) S' V"
proof -
  note v = full_victim [OF assms(1)]
  let ?c = "evict_frame c"
  have pt: "pte ?c q = (if q = victim_page c then (pte c q)\<lparr>valid := 0, dirty := 0\<rparr> else pte c q)" for q
    using v(5) by (cases "q = victim_page c") (simp_all add: evict_frame_def Let_def ctx_defs)
  have fd: "frame_data ?c f = frame_data c f" and nv: "num_virtual_pages ?c = num_virtual_pages c" for f
    by (simp_all add: evict_frame_def Let_def ctx_defs frame_data_def)
  have V: "V (victim_page c) = frame_data c (clock_hand c)"
    using rep v by (auto simp: represents_def view_def)
  have "coherent ?c S'"
    using rep by (auto simp: represents_def coherent_def pt fd nv S')
  moreover have "view ?c S' q = V q" if "q < num_virtual_pages c" for q
    using rep that V by (auto simp: represents_def view_def pt fd S')
  ultimately show ?thesis
    by (simp add: represents_def nv)
qed

lemma represents_clean_victim:
  assumes "full c" and "represents c S V" and "dirty (pte c (victim_page c)) = 0"
  shows "S = S(victim_page c := frame_data c (clock_hand c))"
  using assms full_victim [OF assms(1)] by (auto simp: represents_def coherent_def fun_eq_iff)

lemma prefetch_install_step:
  assumes inv: "pager_inv (insert f H) c" and f: "f \<notin> H" and p: "p < num_virtual_pages c" "valid (pte c p) = 0"
    and len: "PAGE_SIZE \<le> length bufs"
  defines "c1 \<equiv> set_fte f ((fte c f)\<lparr>page_number := p, occupied := 1\<rparr>)
      (set_pte p ((pte c p)\<lparr>frame_number := f, valid := 1, reference_bit := 0, dirty := 0\<rparr>)
        (c\<lparr>local_memory := mem_write (local_memory c) (frame_to_ptr f) (take PAGE_SIZE bufs)\<rparr>))"
  shows "prefetch_install ((p, f) # b) bufs c
      = prefetch_install b (drop PAGE_SIZE bufs) (c1\<lparr>remote_fetches := remote_fetches c1 + 1\<rparr>)"
    and "pager_inv H c1"
proof -
  note fn = pager_inv_held(1) [OF inv]
  have d: "length (take PAGE_SIZE bufs) \<le> PAGE_SIZE"
    by simp
  note st = store_bytes_frame [OF inv fn d]
  show "prefetch_install ((p, f) # b) bufs c
      = prefetch_install b (drop PAGE_SIZE bufs) (c1\<lparr>remote_fetches := remote_fetches c1 + 1\<rparr>)"
    using pager_inv_less(1) [OF inv fn] pager_inv_less(2) [OF inv p(1)]
    by (simp add: st(1) Let_def c1_def ctx_defs)
  show "pager_inv H c1"
    unfolding c1_def by (rule pager_inv_map_page [OF st(2) f]) (use p in simp_all)
qed

lemma prefetch_install_spec:
  assumes "pager_inv (H \<union> snd ` set b) c" and "batch_ok H c b" and "length bufs = length b * PAGE_SIZE"
  shows "\<exists>c'. prefetch_install b bufs c = Ret c' \<and> pager_inv H c' \<and> installs b bufs c c'"
  using assms
proof (induction b arbitrary: c bufs)
  case Nil
  then show ?case by (simp add: installs_def)
next
  case (Cons pf b)
  obtain p f where pf: "pf = (p, f)"
    by (cases pf)
  let ?H = "H \<union> snd ` set b"
  let ?d = "take PAGE_SIZE bufs"
  let ?c1 = "set_fte f ((fte c f)\<lparr>page_number := p, occupied := 1\<rparr>)
      (set_pte p ((pte c p)\<lparr>frame_number := f, valid := 1, reference_bit := 0, dirty := 0\<rparr>)
        (c\<lparr>local_memory := mem_write (local_memory c) (frame_to_ptr f) ?d\<rparr>))"
  let ?c2 = "?c1\<lparr>remote_fetches := remote_fetches ?c1 + 1\<rparr>"
  have inv: "pager_inv (insert f ?H) c" and f: "f \<notin> ?H"
    and p: "p < num_virtual_pages c" "valid (pte c p) = 0" "location (pte c p) = LOC_REMOTE" "p \<notin> fst ` set b"
    using Cons.prems by (auto simp: pf batch_ok_def)
  have len: "PAGE_SIZE \<le> length bufs" "length ?d = PAGE_SIZE"
    using Cons.prems(3) by simp_all
  note step = prefetch_install_step [OF inv f p(1,2) len(1)]
  have pt: "pte ?c2 q = pte c q" if "q \<noteq> p" for q
    using that by (simp add: ctx_defs)
  have fd: "frame_data ?c2 g = frame_data c g" if "g < num_pages c" "g \<noteq> f" for g
    using frame_data_write [OF inv pager_inv_held(1) [OF inv] that(1) len(2)] that(2)
    by (simp add: frame_data_def ctx_defs)
  have dims: "same_dims c ?c2" "last_page_id ?c2 = last_page_id c"
    by (simp_all add: same_dims_def ctx_defs)
  have "batch_ok H ?c2 b"
    using Cons.prems(2) p(4) pt by (auto simp: batch_ok_def pf ctx_defs nth_update_word image_iff)
  then have "\<exists>c'. prefetch_install b (drop PAGE_SIZE bufs) ?c2 = Ret c' \<and> pager_inv H c' \<and>
      installs b (drop PAGE_SIZE bufs) ?c2 c'"
    using step(2) Cons.prems(3) by (intro Cons.IH) simp_all
  then obtain c' where c': "prefetch_install b (drop PAGE_SIZE bufs) ?c2 = Ret c'" "pager_inv H c'"
    "installs b (drop PAGE_SIZE bufs) ?c2 c'"
    by blast
  have rep: "represents c' S V" if "represents c S V" and "bufs = concat (map (S \<circ> fst) (pf # b))"
    and "\<forall>p \<in> fst ` set (pf # b). length (S p) = PAGE_SIZE" for S V
  proof -
    have "?d = S p" "drop PAGE_SIZE bufs = concat (map (S \<circ> fst) b)"
      using that(2,3) by (simp_all add: pf)
    moreover have "represents ?c2 S V"
      using represents_map_page [OF inv f p(1,2) that(1) \<open>?d = S p\<close> len(2)] p(3) by simp
    moreover have "\<forall>p \<in> fst ` set b. length (S p) = PAGE_SIZE"
      using that(3) by simp
    ultimately show ?thesis
      using c'(3) unfolding installs_def by blast
  qed
  have "pte c' q = pte c q" if "q < num_virtual_pages c" "q \<notin> fst ` set (pf # b)" for q
    using c'(3) pt that dims(1) unfolding installs_def by (simp add: pf same_dims_def)
  moreover have "frame_data c' g = frame_data c g" if "g < num_pages c" "g \<notin> snd ` set (pf # b)" for g
    using c'(3) fd that dims(1) unfolding installs_def by (simp add: pf same_dims_def)
  moreover have "same_dims c c'" "last_page_id c' = last_page_id c"
    using c'(3) dims same_dims_trans unfolding installs_def by (blast, simp)
  ultimately have "installs (pf # b) bufs c c'"
    using rep unfolding installs_def by blast
  then show ?case
    using c'(1,2) step(1) [of b] by (intro exI [of _ c']) (simp add: pf)
qed

lemma ensures_prefetch:
  assumes inv: "pager_inv {} c"
  shows "ensures (dsm_prefetch_pages peer c start n w) (\<lambda>(c', w').
    pager_inv {} c' \<and> same_dims c c' \<and> kern w' = kern w \<and>
    (\<forall>p < num_virtual_pages c. valid (pte c p) \<noteq> 0 \<longrightarrow>
      pte c' p = pte c p \<and> frame_data c' (frame_number (pte c p)) = frame_data c (frame_number (pte c p))))"
proof -
  let ?post = "\<lambda>(c', w'). pager_inv {} c' \<and> same_dims c c' \<and> kern w' = kern w \<and>
    (\<forall>p < num_virtual_pages c. valid (pte c p) \<noteq> 0 \<longrightarrow>
      pte c' p = pte c p \<and> frame_data c' (frame_number (pte c p)) = frame_data c (frame_number (pte c p)))"
  have fetch: "ensures (bind_oc (dsm_rpc_get_batch peer fd (map fst b) w) (\<lambda>(rc, bufs, w).
       if rc < 0 then bind_oc (push_frames (map snd b) c1) (\<lambda>c. Ret (c, w))
       else bind_oc (prefetch_install b bufs c1) (\<lambda>c. Ret (c, w)))) ?post"
    if c1: "c1 = c\<lparr>free_list_top := t\<rparr>" "pager_inv (snd ` set b) c1" "batch_ok {} c b" for c1 t b fd
  proof (rule ensures_bindI [OF ensures_rpc_get_batch], clarify)
    fix rc :: int and bufs :: bytes and w' :: "'a net"
    assume "kern w' = kern w" and len: "rc = 0 \<and> length bufs = length (map fst b) * PAGE_SIZE \<or> rc = -1"
    have free: "frame_number (pte c p) < num_pages c" "frame_number (pte c p) \<notin> snd ` set b"
      if "p < num_virtual_pages c" "valid (pte c p) \<noteq> 0" for p
    proof -
      have "valid (pte c1 p) \<noteq> 0"
        using that c1(1) by simp
      then have "frame_number (pte c1 p) < num_pages c1" "occupied (fte c1 (frame_number (pte c1 p))) \<noteq> 0"
        using that c1 by (auto simp: pager_inv_def maps_ok_def)
      then show "frame_number (pte c p) < num_pages c" "frame_number (pte c p) \<notin> snd ` set b"
        using c1 by (auto simp: pager_inv_def frames_ok_def)
    qed
    show "ensures (if rc < 0 then bind_oc (push_frames (map snd b) c1) (\<lambda>c. Ret (c, w'))
       else bind_oc (prefetch_install b bufs c1) (\<lambda>c. Ret (c, w'))) ?post"
    proof (cases "rc < 0")
      case True
      have "pager_inv ({} \<union> set (map snd b)) c1" "distinct (map snd b)"
        using c1 by (simp_all add: batch_ok_def)
      then obtain fl t' where "push_frames (map snd b) c1 = Ret (c1\<lparr>free_list := fl, free_list_top := t'\<rparr>)"
        "pager_inv {} (c1\<lparr>free_list := fl, free_list_top := t'\<rparr>)"
        using push_frames_spec [of "{}" "map snd b" c1] by auto
      then show ?thesis
        using True c1(1) \<open>kern w' = kern w\<close> by (simp add: frame_data_def)
    next
      case False
      have "\<exists>c'. prefetch_install b bufs c1 = Ret c' \<and> pager_inv {} c' \<and> installs b bufs c1 c'"
        using c1 len False by (intro prefetch_install_spec) (auto simp: batch_ok_def)
      then obtain c' where c': "prefetch_install b bufs c1 = Ret c'" "pager_inv {} c'" "installs b bufs c1 c'"
        by blast
      have "p \<notin> fst ` set b" if "valid (pte c p) \<noteq> 0" for p
        using c1(3) that by (auto simp: batch_ok_def)
      then show ?thesis
        using False c' c1(1) free \<open>kern w' = kern w\<close>
        by (auto simp: installs_def same_dims_def frame_data_def)
    qed
  qed
  show ?thesis
    unfolding dsm_prefetch_pages_def
  proof (rule ensures_bindI [OF prefetch_collect_spec [OF inv]], goal_cases)
    case 1
    then show ?case by simp
  next
    case 2
    then show ?case using unat_u8_less [of n] by auto
  next
    case (3 r)
    then obtain b t where r: "r = (c\<lparr>free_list_top := t\<rparr>, b)"
      and b: "pager_inv (snd ` set b) (c\<lparr>free_list_top := t\<rparr>)" "batch_ok {} c b"
      by (cases r) auto
    show ?case
      using fetch [OF refl b] b by (cases "b = []") (simp_all add: r frame_data_def)
  qed
qed

subsection \<open>Page faults\<close>

lemma ensures_writeback: "ensures (writeback peer c w) (\<lambda>(rc, w'). kern w' = kern w \<and> (rc = 0 \<or> rc = -1))"
  by (simp add: writeback_def ensures_rpc_put)

text \<open>
  Whatever the network does, taking a frame for a fault keeps the invariant: either there
  is none to be had and nothing is held, or one unoccupied frame is held.
\<close>

lemma ensures_acquire_frame:
  assumes inv: "pager_inv {} c"
  shows "ensures (acquire_frame peer c w) (\<lambda>(f, c', w').
    kern w' = kern w \<and> same_dims c c' \<and> last_page_id c' = last_page_id c \<and>
    (f = DSM_NO_FRAME \<and> pager_inv {} c' \<or> f \<noteq> DSM_NO_FRAME \<and> pager_inv {f} c') \<and>
    (\<forall>p < num_virtual_pages c. valid (pte c p) = 0 \<longrightarrow> valid (pte c' p) = 0))"
proof (cases "free_list_top c = 0")
  case False
  note g = get_free_frame_take [OF inv False]
  then show ?thesis
    using frame_not_NO_FRAME [OF g(2)] by (simp add: acquire_frame_def)
next
  case True
  then have "full c"
    using inv by (simp add: full_def)
  obtain c1 where c1: "full c1" "swept c c1"
    and eq: "evict_page peer c w = bind_oc (writeback peer c1 w) (\<lambda>(rc, w).
      if rc < 0 then Ret (DSM_NO_FRAME, c1, w) else Ret (clock_hand c1, evict_frame c1, w))"
    using evict_page_spec [OF \<open>full c\<close>] by blast
  note [simp] = swept_sel [OF c1(2)]
  have valid1: "valid (pte c1 p) = valid (pte c p)" if "p < num_virtual_pages c" for p
    using swept_pte(2) [OF c1(2)] pager_inv_less(2) [OF inv that] .
  have valid2: "valid (pte (evict_frame c1) p) = 0" if "p < num_virtual_pages c" "valid (pte c p) = 0" for p
    using valid1 [OF that(1)] that full_victim(5) [OF c1(1)]
    by (cases "p = victim_page c1") (simp_all add: evict_frame_def Let_def ctx_defs)
  have "acquire_frame peer c w = evict_page peer c w"
    using True by (simp add: acquire_frame_def get_free_frame_empty)
  moreover have "clock_hand c1 \<noteq> DSM_NO_FRAME"
    using full_victim(1) [OF c1(1)] by (rule frame_not_NO_FRAME)
  moreover have "last_page_id (evict_frame c1) = last_page_id c1"
    by (simp add: evict_frame_def Let_def ctx_defs)
  ultimately show ?thesis
    unfolding eq
    using c1 evict_frame_inv [OF c1(1)] same_dims_swept [OF c1(2)] valid1 valid2
    by (simp, intro ensures_bindI [OF ensures_writeback]) (auto simp: full_def)
qed

lemma map_frame_inv:
  assumes inv: "pager_inv {f} c" and p: "pid < num_virtual_pages c" "valid (pte c pid) = 0" and len: "length buf \<le> PAGE_SIZE"
  shows "pager_inv {} (map_frame c pid wr f buf)" and "same_dims c (map_frame c pid wr f buf)"
    and "pte (map_frame c pid wr f buf) pid = (pte c pid)\<lparr>frame_number := f, valid := 1, reference_bit := 1,
      dirty := ucast wr, location := if sock_fd c \<ge> 0 then LOC_REMOTE else LOC_LOCAL\<rparr>"
    and "last_page_id (map_frame c pid wr f buf) = last_page_id c"
proof -
  have m: "pager_inv {f} (c\<lparr>local_memory := mem_write (local_memory c) (frame_to_ptr f) buf\<rparr>)"
    by (rule store_bytes_frame(2) [OF inv pager_inv_held(1) [OF inv] len])
  then have "pager_inv {f} (if sock_fd c \<ge> 0
      then c\<lparr>local_memory := mem_write (local_memory c) (frame_to_ptr f) buf, remote_fetches := n\<rparr>
      else c\<lparr>local_memory := mem_write (local_memory c) (frame_to_ptr f) buf\<rparr>)" for n
    using pager_inv_update(2) by simp
  then show "pager_inv {} (map_frame c pid wr f buf)"
    unfolding map_frame_def Let_def
    by (intro pager_inv_map_page) (simp_all add: p)
  show "same_dims c (map_frame c pid wr f buf)" "last_page_id (map_frame c pid wr f buf) = last_page_id c"
    by (simp_all add: map_frame_def Let_def ctx_defs same_dims_def)
  show "pte (map_frame c pid wr f buf) pid = (pte c pid)\<lparr>frame_number := f, valid := 1, reference_bit := 1,
      dirty := ucast wr, location := if sock_fd c \<ge> 0 then LOC_REMOTE else LOC_LOCAL\<rparr>"
    using pager_inv_less(2) [OF inv p(1)] by (simp add: map_frame_def Let_def ctx_defs)
qed

lemma access_slow_eq:
  "dsm_access_page_slow peer c pid wr entry w =
     bind_oc (acquire_frame peer c w) (\<lambda>(f, c, w).
     if f = DSM_NO_FRAME then Ret (None, c, w)
     else bind_oc (fetch_page peer c pid w) (\<lambda>(rc, buf, w). fault_tail peer c pid wr entry f rc buf w))"
  unfolding dsm_access_page_slow_def acquire_frame_def fetch_page_def fault_tail_def finish_fault_def
    bind_oc_assoc case_prod_unfold Let_def fst_conv snd_conv
  by (rule refl)

lemma fault_tail_ok:
  assumes inv: "pager_inv {f} c" and p: "pid < num_virtual_pages c" and len: "length buf \<le> PAGE_SIZE" and rc: "\<not> rc < 0"
  shows "fault_tail peer c pid wr pid f rc buf w = finish_fault peer (map_frame c pid wr f buf) pid f w"
  using store_bytes_frame(1) [OF inv pager_inv_held(1) [OF inv] len] rc
    pager_inv_less(1) [OF inv pager_inv_held(1) [OF inv]] pager_inv_less(2) [OF inv p]
  by (simp add: fault_tail_def finish_fault_def map_frame_def Let_def ctx_defs)

lemma fault_tail_failed:
  assumes inv: "pager_inv {f} c" and len: "length buf \<le> PAGE_SIZE" and rc: "rc < 0"
  shows "\<exists>c'. fault_tail peer c pid wr entry f rc buf w = Ret (None, c', w) \<and> pager_inv {} c' \<and> same_dims c c'"
proof -
  note st = store_bytes_frame [OF inv pager_inv_held(1) [OF inv] len]
  show ?thesis
    using push_free_frame_give [OF st(2)] rc by (simp add: fault_tail_def st(1))
qed

lemma ensures_finish_fault:
  assumes inv: "pager_inv {} c" and p: "pid < num_virtual_pages c" and e: "valid (pte c pid) \<noteq> 0"
  shows "ensures (finish_fault peer c pid f w) (\<lambda>(r, c', w').
    r = Some (frame_to_ptr f) \<and> pager_inv {} c' \<and> same_dims c c' \<and> kern w' = kern w \<and> pte c' pid = pte c pid \<and>
    frame_data c' (frame_number (pte c pid)) = frame_data c (frame_number (pte c pid)))"
proof -
  have "ensures (if pid = last_page_id c + 1 then dsm_prefetch_pages peer c (pid + 1) (prefetch_count c) w
      else Ret (c, w)) (\<lambda>(c', w'). pager_inv {} c' \<and> same_dims c c' \<and> kern w' = kern w \<and> pte c' pid = pte c pid \<and>
      frame_data c' (frame_number (pte c pid)) = frame_data c (frame_number (pte c pid)))"
    using inv p e by (auto intro: ensures_mono [OF ensures_prefetch [OF inv]])
  then show ?thesis
    unfolding finish_fault_def
    by (rule ensures_bindI) (auto simp: frame_data_def)
qed

lemma ensures_fetch_page:
  "ensures (fetch_page peer c pid w) (\<lambda>(rc, d, w').
     kern w' = kern w \<and> length d \<le> PAGE_SIZE \<and> (rc = 0 \<or> rc = -1))"
  by (auto simp: fetch_page_def intro: ensures_mono [OF ensures_rpc_get])

lemma ensures_access_slow:
  assumes inv: "pager_inv {} c" and p: "pid < num_virtual_pages c" "valid (pte c pid) = 0"
  shows "ensures (dsm_access_page_slow peer c pid wr pid w) (\<lambda>(r, c', w').
    pager_inv {} c' \<and> same_dims c c' \<and> kern w' = kern w \<and>
    (r = None \<or> r = Some (frame_to_ptr (frame_number (pte c' pid))) \<and> valid (pte c' pid) \<noteq> 0 \<and>
      dirty (pte c' pid) = ucast wr))"
  unfolding access_slow_eq
proof (rule ensures_bindI [OF ensures_acquire_frame [OF inv]], clarify)
  fix f c1 and w1 :: "'a net"
  let ?post = "\<lambda>(r, c', w'). pager_inv {} c' \<and> same_dims c c' \<and> kern w' = kern w \<and>
    (r = None \<or> r = Some (frame_to_ptr (frame_number (pte c' pid))) \<and> valid (pte c' pid) \<noteq> 0 \<and>
      dirty (pte c' pid) = ucast wr)"
  assume w1: "kern w1 = kern w" and c1: "same_dims c c1" "last_page_id c1 = last_page_id c"
    and f: "f = DSM_NO_FRAME \<and> pager_inv {} c1 \<or> f \<noteq> DSM_NO_FRAME \<and> pager_inv {f} c1"
    and v: "\<forall>p<num_virtual_pages c. valid (pte c p) = 0 \<longrightarrow> valid (pte c1 p) = 0"
  have p1: "pid < num_virtual_pages c1" "valid (pte c1 pid) = 0"
    using p v c1(1) by (simp_all add: same_dims_def)
  show "ensures (if f = DSM_NO_FRAME then Ret (None, c1, w1)
     else bind_oc (fetch_page peer c1 pid w1) (\<lambda>(rc, buf, w). fault_tail peer c1 pid wr pid f rc buf w)) ?post"
  proof (cases "f = DSM_NO_FRAME")
    case True
    with f c1 w1 show ?thesis by simp
  next
    case False
    then have inv1: "pager_inv {f} c1"
      using f by simp
    have "ensures (fault_tail peer c1 pid wr pid f rc buf w2) ?post"
      if "kern w2 = kern w1" "length buf \<le> PAGE_SIZE" "rc = 0 \<or> rc = -1" for rc buf and w2 :: "'a net"
    proof (cases "rc < 0")
      case True
      from fault_tail_failed [OF inv1 that(2) this] obtain c' where
        "fault_tail peer c1 pid wr pid f rc buf w2 = Ret (None, c', w2)" "pager_inv {} c'" "same_dims c1 c'"
        by blast
      then show ?thesis
        using same_dims_trans [OF c1(1)] that(1) w1 by simp
    next
      case False
      note m = map_frame_inv [OF inv1 p1 that(2), of wr]
      have "ensures (finish_fault peer (map_frame c1 pid wr f buf) pid f w2) ?post"
        by (rule ensures_mono [OF ensures_finish_fault [OF m(1)]])
          (use m(2,3) p1 that(1) w1 same_dims_trans [OF c1(1) same_dims_trans [OF m(2)]] in \<open>auto simp: same_dims_def\<close>)
      then show ?thesis
        by (simp only: fault_tail_ok [OF inv1 p1(1) that(2) False])
    qed
    then show ?thesis
      using False by (auto intro!: ensures_bindI [OF ensures_fetch_page])
  qed
qed

text \<open>The structural half of the access path, for any peer and any kernel.\<close>

lemma ensures_access_page:
  assumes inv: "pager_inv {} c" and p: "pid < num_virtual_pages c"
  shows "ensures (dsm_access_page peer c pid wr w) (\<lambda>(r, c', w').
    pager_inv {} c' \<and> same_dims c c' \<and> kern w' = kern w \<and>
    (r = None \<or> r = Some (frame_to_ptr (frame_number (pte c' pid))) \<and> valid (pte c' pid) \<noteq> 0 \<and>
      dirty (pte c' pid) = or (if valid (pte c pid) \<noteq> 0 then dirty (pte c pid) else 0) (ucast wr)))"
proof (cases "valid (pte c pid) = 0")
  case True
  then show ?thesis
    using pager_inv_less(2) [OF inv p] ensures_access_slow [OF inv p True, of peer wr w]
    by (simp add: dsm_access_page_def)
next
  case False
  note pid = pager_inv_less(2) [OF inv p]
  let ?e = "(pte c pid)\<lparr>reference_bit := 1, dirty := or (dirty (pte c pid)) (ucast wr)\<rparr>"
  have "pager_inv {} (set_pte pid ?e (c\<lparr>local_hits := local_hits c + 1\<rparr>))"
    using inv by (intro pager_inv_bits) simp_all
  with False pid show ?thesis
    by (simp add: dsm_access_page_def Let_def set_pte_def same_dims_def)
qed

subsection \<open>New contexts\<close>

lemma free_list_fresh:
  "map (\<lambda>i. np - 1 - of_nat i) [0..<unat np] = rev (map word_of_nat [0..<unat (np :: u32)])"
proof (rule nth_equalityI)
  fix i assume "i < length (map (\<lambda>i. np - 1 - of_nat i) [0..<unat np])"
  then have i: "i < unat np" by simp
  then have "word_of_nat (unat np - Suc i) = np - 1 - (of_nat i :: u32)"
    by (simp add: of_nat_diff)
  with i show "map (\<lambda>i. np - 1 - of_nat i) [0..<unat np] ! i = rev (map word_of_nat [0..<unat np]) ! i"
    by (simp add: rev_nth)
qed simp

lemma set_words_below: "word_of_nat ` {0..<unat np} = {f :: u32. f < np}"
proof (intro equalityI subsetI)
  fix f :: u32 assume "f \<in> {f. f < np}"
  then have "unat f \<in> {0..<unat np}" "f = word_of_nat (unat f)"
    by (simp_all add: word_less_nat_alt)
  then show "f \<in> word_of_nat ` {0..<unat np}" by blast
next
  fix f :: u32 assume "f \<in> word_of_nat ` {0..<unat np}"
  then obtain i where "i < unat np" "f = word_of_nat i" by auto
  moreover from this have "i < 4294967296"
    using unat_u32_less [of np] by simp
  ultimately show "f \<in> {f. f < np}"
    by (simp add: word_less_nat_alt unat_of_nat_u32)
qed

lemma distinct_words_below: "distinct (map word_of_nat [0..<unat (np :: u32)] :: u32 list)"
proof -
  have "inj_on (word_of_nat :: nat \<Rightarrow> u32) {0..<unat np}"
  proof (rule inj_onI)
    fix i j :: nat
    assume "i \<in> {0..<unat np}" "j \<in> {0..<unat np}" "(word_of_nat i :: u32) = word_of_nat j"
    moreover from this have "i < 4294967296" "j < 4294967296"
      using unat_u32_less [of np] by simp_all
    ultimately show "i = j"
      by (metis unat_of_nat_u32)
  qed
  then show ?thesis by (simp add: distinct_map)
qed

lemma fresh_context_inv:
  assumes "np \<noteq> 0"
  shows "pager_inv {} (fresh_context np nv)"
proof -
  have fl: "free_frames (fresh_context np nv) = rev (map word_of_nat [0..<unat np])"
    by (simp add: free_frames_def fresh_context_def free_list_fresh)
  have "shape_ok (fresh_context np nv)"
    using assms by (simp add: shape_ok_def fresh_context_def word_neq_0_conv)
  moreover have "frames_ok {} (fresh_context np nv)"
    unfolding frames_ok_def fl using set_words_below [of np] distinct_words_below [of np]
    by (auto simp: fresh_context_def word_less_nat_alt)
  moreover have "maps_ok (fresh_context np nv)"
    by (simp add: maps_ok_def fresh_context_def word_less_nat_alt)
  ultimately show ?thesis by (simp add: pager_inv_def)
qed

lemma fresh_context_represents: "represents (c\<lparr>sock_fd := fd\<rparr>) S V = represents c S V"
  by (simp add: represents_defs)

lemma fresh_context_view: "represents (fresh_context np nv) S S"
  by (simp add: represents_defs fresh_context_def word_less_nat_alt)

lemma create_context_Some:
  "dsm_create_context alloc np nv = (Some c, held) \<Longrightarrow> np \<noteq> 0 \<and> c = fresh_context np nv"
  by (auto simp: dsm_create_context_def Let_def split: if_splits)

lemma create_context_all:
  "\<forall>b. alloc b \<Longrightarrow> np \<noteq> 0 \<Longrightarrow> fst (dsm_create_context alloc np nv) = Some (fresh_context np nv)"
  by (auto simp: dsm_create_context_def Let_def)

lemma pager_inv_socket [simp]: "pager_inv H (c\<lparr>sock_fd := fd\<rparr>) = pager_inv H c"
  by (simp add: pager_inv_defs)

subsection \<open>The eviction loop ends\<close>

lemma evict_loop_more_fuel:
  "evict_loop peer n c w \<noteq> Diverges \<Longrightarrow> evict_loop peer (n + k) c w = evict_loop peer n c w"
proof (induction n arbitrary: c w)
  case (Suc n)
  show ?case
  proof (cases "idx (frame_table c) (unat (clock_hand c))")
    case (Ret f)
    show ?thesis
    proof (cases "idx (page_table c) (unat (page_number f))")
      case (Ret p)
      with \<open>idx (frame_table c) (unat (clock_hand c)) = Ret f\<close> Suc.prems Suc.IH show ?thesis
        by (cases "occupied f = 0"; cases "reference_bit p = 0") simp_all
    qed (use Ret Suc.prems Suc.IH in \<open>cases "occupied f = 0"; simp\<close>)+
  qed simp_all
qed simp

text \<open>The inline access path of the header and the library function are the same function.\<close>

lemma access_page_fast_eq: "dsm_access_page_fast peer c pid wr w = dsm_access_page peer c pid wr w"
  by (cases "idx (page_table c) (unat pid)")
    (simp_all add: dsm_access_page_fast_def dsm_access_page_def Let_def frame_to_ptr_def)

lemma word_less_1_iff: "(f :: u32) < 1 \<longleftrightarrow> f = 0"
  by (simp add: word_less_nat_alt unat_eq_0)

lemma word_less_2_iff: "(p :: u32) < 2 \<longleftrightarrow> p = 0 \<or> p = 1"
proof
  assume "p < 2"
  then have "unat p = unat (0 :: u32) \<or> unat p = unat (1 :: u32)"
    by (auto simp: word_less_nat_alt)
  then show "p = 0 \<or> p = 1"
    by (simp only: word_unat_eq_iff)
qed auto

lemma examples_full: "full full_example" "full idle_example"
  by (auto simp: full_def full_example_def idle_example_def fresh_context_def pager_inv_defs
      word_less_1_iff word_less_2_iff)

subsection \<open>Properties\<close>

text \<open>
  C6. Whatever the server and the kernel do, an access to a page of the address space never
  runs out of the tables or of the local memory, keeps free list, frame table and page table
  consistent, and returns either \<open>NULL\<close> or a pointer to the frame that the page table has
  for the page, with the page marked dirty if it was or if the access is a write.
\<close>

theorem access_page_safe:
  assumes "pager_inv {} c" and "pid < num_virtual_pages c"
  shows "ensures (dsm_access_page peer c pid wr w) (\<lambda>(r, c', w').
    pager_inv {} c' \<and> same_dims c c' \<and> kern w' = kern w \<and>
    (r = None \<or> r = Some (frame_to_ptr (frame_number (pte c' pid))) \<and> valid (pte c' pid) \<noteq> 0 \<and>
      dirty (pte c' pid) = or (if valid (pte c pid) \<noteq> 0 then dirty (pte c pid) else 0) (ucast wr)))"
  using assms by (rule ensures_access_page)

theorem access_page_safe_witness:
  "ensures (dsm_access_page (\<lambda>s bs. (s, bs)) (fresh_context 2 3) 1 1
       \<lparr>tx = [], rx = [], far = (), kern = \<lambda>_. [Fail], calls = 0\<rparr>) (\<lambda>(r, c', w'). pager_inv {} c')"
  by (rule ensures_mono [OF access_page_safe [OF fresh_context_inv]])
    (auto simp: fresh_context_def)

text \<open>
  C16. The clock loop of \<open>evict_page\<close> ends when every frame is in use: it makes no more
  rounds than there are frames and one, so the bound of the model is never reached and a
  larger bound changes nothing.
\<close>

theorem evict_page_terminates:
  assumes "full c" and "unat (num_pages c) < fuel"
  shows "evict_loop peer fuel c w = evict_page peer c w \<and> evict_page peer c w \<noteq> Diverges"
proof -
  let ?n = "unat (num_pages c) + 1"
  obtain c1 where "evict_loop peer ?n c w = bind_oc (writeback peer c1 w) (\<lambda>(rc, w).
      if rc < 0 then Ret (DSM_NO_FRAME, c1, w) else Ret (clock_hand c1, evict_frame c1, w))"
    using evict_loop_spec [OF assms(1), of ?n peer w] card_referenced [of c] by auto
  moreover have "ensures \<dots> (\<lambda>_. True)"
    by (rule ensures_bindI [OF ensures_writeback]) auto
  ultimately have "evict_loop peer ?n c w \<noteq> Diverges"
    by auto
  from evict_loop_more_fuel [OF this, of "fuel - ?n"] evict_loop_more_fuel [OF this, of "unat (num_pages c)"]
  show ?thesis
    using assms(2) \<open>evict_loop peer ?n c w \<noteq> Diverges\<close> by (simp add: evict_page_def mult_2)
qed

theorem evict_page_terminates_witness:
  "evict_loop (\<lambda>s bs. (s, bs)) 7 full_example \<lparr>tx = [], rx = [], far = (), kern = \<lambda>_. [], calls = 0\<rparr> =
     evict_page (\<lambda>s bs. (s, bs)) full_example \<lparr>tx = [], rx = [], far = (), kern = \<lambda>_. [], calls = 0\<rparr>"
proof -
  have "unat (num_pages full_example) < 7"
    by (simp add: full_example_def fresh_context_def)
  from evict_page_terminates [OF examples_full(1) this] show ?thesis
    by blast
qed

text \<open>
  C15. Eviction is second chance: when every frame is in use, a successful \<open>evict_page\<close>
  hands out the first frame from the clock hand on whose page has not been referenced, or
  the frame under the hand if all have been; the page of that frame, and no other, stops
  being cached.
\<close>

theorem evict_page_second_chance:
  assumes "full c"
  shows "ensures (evict_page peer c w) (\<lambda>(f, c', w'). f = DSM_NO_FRAME \<or>
    unat f = clock_victim c \<and> pager_inv {f} c' \<and> evictions c' = evictions c + 1 \<and>
    (\<forall>p < num_virtual_pages c. (valid (pte c' p) \<noteq> 0) = (valid (pte c p) \<noteq> 0 \<and> p \<noteq> page_number (fte c f))))"
proof -
  obtain c1 where c1: "full c1" "swept c c1" "unat (clock_hand c1) = clock_victim c"
    and eq: "evict_page peer c w = bind_oc (writeback peer c1 w) (\<lambda>(rc, w).
      if rc < 0 then Ret (DSM_NO_FRAME, c1, w) else Ret (clock_hand c1, evict_frame c1, w))"
    using evict_page_spec [OF assms] by blast
  have inv: "pager_inv {} c"
    using assms by (simp add: full_def)
  note [simp] = swept_sel [OF c1(2)]
  have valid1: "valid (pte c1 p) = valid (pte c p)" if "p < num_virtual_pages c" for p
    using swept_pte(2) [OF c1(2)] pager_inv_less(2) [OF inv that] .
  have vp: "victim_page c1 = page_number (fte c (clock_hand c1))"
    by (simp add: victim_page_def)
  have "(valid (pte (evict_frame c1) p) \<noteq> 0) = (valid (pte c p) \<noteq> 0 \<and> p \<noteq> page_number (fte c (clock_hand c1)))"
    if "p < num_virtual_pages c" for p
    using valid1 [OF that] that full_victim(5) [OF c1(1)] unfolding vp [symmetric]
    by (cases "p = victim_page c1") (simp_all add: evict_frame_def Let_def ctx_defs)
  moreover have "evictions (evict_frame c1) = evictions c + 1"
    by (simp add: evict_frame_def Let_def ctx_defs)
  ultimately show ?thesis
    unfolding eq using evict_frame_inv [OF c1(1)] c1(3)
    by (intro ensures_bindI [OF ensures_writeback]) auto
qed

theorem evict_page_second_chance_witness:
  "\<exists>c' w'. evict_page (\<lambda>s bs. (s, bs)) (full_example\<lparr>page_table := (page_table full_example)[1 :=
        \<lparr>frame_number = 0, valid = 1, reference_bit = 1, dirty = 0, location = 1\<rparr>]\<rparr>)
       \<lparr>tx = [], rx = [], far = (), kern = \<lambda>_. [], calls = 0\<rparr> = Ret (0, c', w') \<and>
     pager_inv {0} c' \<and> evictions c' = 1"
proof -
  let ?c = "full_example\<lparr>page_table := (page_table full_example)[1 :=
    \<lparr>frame_number = 0, valid = 1, reference_bit = 1, dirty = 0, location = 1\<rparr>]\<rparr>"
  let ?w = "\<lparr>tx = [], rx = [], far = (), kern = \<lambda>_ :: nat. [] :: io_ans list, calls = 0\<rparr>"
  have "full ?c"
    by (auto simp: full_def full_example_def fresh_context_def pager_inv_defs word_less_1_iff word_less_2_iff)
  moreover have "\<exists>c' w'. evict_page (\<lambda>s bs. (s, bs)) ?c ?w = Ret (0, c', w')"
    by (simp add: evict_page_def full_example_def fresh_context_def idx_def upd_def Let_def ctx_defs
        push_free_frame_def get_free_frame_def numeral_3_eq_3)
  ultimately show ?thesis
    using evict_page_second_chance [of ?c "\<lambda>s bs. (s, bs)" ?w]
    by (auto simp: DSM_NO_FRAME_def full_example_def fresh_context_def)
qed

text \<open>
  C17. A failed writeback loses nothing: if the page chosen for eviction is modified and the
  server does not acknowledge it, the access returns \<open>NULL\<close>, and every page stays in its
  frame with its contents and its dirty bit. Only the clock hand and reference bits move.
\<close>

theorem writeback_failure_keeps_pages:
  assumes "full c" and "pid < num_virtual_pages c" and "valid (pte c pid) = 0"
    and "p = page_number (frame_table c ! clock_victim c)"
    and "dirty (pte c p) \<noteq> 0" and "location (pte c p) = LOC_REMOTE"
    and "dsm_rpc_put peer (sock_fd c) p (mem_read (local_memory c) (clock_victim c * PAGE_SIZE) PAGE_SIZE) w
           = Ret (-1, w')"
  shows "\<exists>c'. dsm_access_page peer c pid wr w = Ret (None, c', w') \<and> full c' \<and>
    local_memory c' = local_memory c \<and> frame_table c' = frame_table c \<and>
    map (reference_bit_update (\<lambda>_. 0)) (page_table c') = map (reference_bit_update (\<lambda>_. 0)) (page_table c)"
proof -
  obtain c1 where c1: "full c1" "swept c c1" "unat (clock_hand c1) = clock_victim c"
    and eq: "evict_page peer c w = bind_oc (writeback peer c1 w) (\<lambda>(rc, w).
      if rc < 0 then Ret (DSM_NO_FRAME, c1, w) else Ret (clock_hand c1, evict_frame c1, w))"
    using evict_page_spec [OF assms(1)] by blast
  have inv: "pager_inv {} c" and top: "free_list_top c = 0"
    using assms(1) by (simp_all add: full_def)
  note [simp] = swept_sel [OF c1(2)]
  have vp: "victim_page c1 = p"
    by (simp add: victim_page_def c1(3) assms(4))
  have "unat p < length (page_table c)"
    using full_victim(4) [OF c1(1)] pager_inv_less(2) [OF inv, of p] by (simp add: vp)
  then have "writeback peer c1 w = Ret (-1, w')"
    using assms(5-7) swept_pte [OF c1(2), of p] by (simp add: writeback_def vp frame_to_ptr_def c1(3))
  then have "acquire_frame peer c w = Ret (DSM_NO_FRAME, c1, w')"
    using eq top by (simp add: acquire_frame_def get_free_frame_empty)
  then have "dsm_access_page peer c pid wr w = Ret (None, c1, w')"
    using assms(3) pager_inv_less(2) [OF inv assms(2)] by (simp add: dsm_access_page_def access_slow_eq)
  then show ?thesis
    using c1(1,2) by (intro exI [of _ c1]) (simp add: swept_def)
qed

theorem writeback_failure_keeps_pages_witness:
  "\<exists>c'. dsm_access_page (\<lambda>s bs. (s, bs)) idle_example 0 0
       \<lparr>tx = [], rx = [], far = (), kern = \<lambda>_. [], calls = 0\<rparr>
     = Ret (None, c', \<lparr>tx = [], rx = [], far = (), kern = \<lambda>_. [], calls = 1\<rparr>) \<and>
     local_memory c' = local_memory idle_example"
proof -
  let ?w = "\<lparr>tx = [], rx = [], far = (), kern = \<lambda>_ :: nat. [] :: io_ans list, calls = 0\<rparr>"
  let ?c = idle_example and ?p = "\<lambda>(s :: unit) (bs :: bytes). (s, bs)"
  have v: "clock_victim ?c = 0"
    by (simp add: idle_example_def fresh_context_def clock_victim_def clock_order_def frame_referenced_def)
  have "dsm_rpc_put ?p (sock_fd ?c) 1 d ?w = Ret (-1, ?w\<lparr>calls := 1\<rparr>)" for d
    by (simp add: idle_example_def fresh_context_def dsm_rpc_put_def dsm_sendv_def answers_def called_def)
  from writeback_failure_keeps_pages [OF examples_full(2) _ _ _ _ _ this, of 0 0] v show ?thesis
    by (auto simp: idle_example_def fresh_context_def LOC_REMOTE_def)
qed

text \<open>
  A prefetch, of any window and whatever the server answers, keeps the tables consistent
  and leaves every cached page where it is and as it is: it evicts nothing.
\<close>

lemma prefetch_evicts_nothing:
  assumes "pager_inv {} c"
  shows "ensures (dsm_prefetch_pages peer c start n w) (\<lambda>(c', w').
    pager_inv {} c' \<and> same_dims c c' \<and> kern w' = kern w \<and>
    (\<forall>p < num_virtual_pages c. valid (pte c p) \<noteq> 0 \<longrightarrow>
      pte c' p = pte c p \<and> frame_data c' (frame_number (pte c p)) = frame_data c (frame_number (pte c p))))"
  using assms by (rule ensures_prefetch)

text \<open>
  Whichever allocation fails, \<open>dsm_create_context\<close> followed by \<open>dsm_destroy_context\<close>
  leaves nothing allocated; and a context it does return satisfies the invariant, caches
  nothing, and shows the server's pages.
\<close>

lemma create_destroy_context:
  "(case dsm_create_context ok np nv of (ctx, held) \<Rightarrow>
     dsm_destroy_context ctx held = {} \<and> pred_option (\<lambda>c. pager_inv {} c \<and> represents c S S) ctx)"
  by (auto simp: dsm_create_context_def dsm_destroy_context_def Let_def fresh_context_inv fresh_context_view)

end
