(* ===== verification/DSM_Memory.thy ===== *)
theory DSM_Memory
  imports DSM_Paging
begin

section \<open>The shared memory a client sees (dsm\_paging.c over a lawful server)\<close>

text \<open>
  The page cache connected to a server that keeps the wire contract \<open>page_peer\<close>. Programs
  use the cache by taking a page pointer and loading or storing bytes through it, as
  \<open>run_verify\<close> and \<open>run_benchmark\<close> of \<open>dsm_client.c\<close> and the element access of
  \<open>python/dsm.py\<close> do; \<open>run_ops\<close> is a sequence of such uses. The specification is a plain
  memory of pages (\<open>spec_ops\<close>), and the result is that the cache, with its evictions,
  writebacks and prefetches, implements it.
\<close>

subsection \<open>Definitions\<close>

definition load_bytes :: "dsm_context \<Rightarrow> nat \<Rightarrow> nat \<Rightarrow> bytes outcome" where
  "load_bytes c ptr n =
     (if ptr + n \<le> length (local_memory c) then Ret (mem_read (local_memory c) ptr n) else Undef)"

datatype mem_op = Load u32 nat nat | Store u32 nat bytes | Hint u32 u8

fun run_op :: "'s peer \<Rightarrow> mem_op \<Rightarrow> dsm_context \<Rightarrow> 's net \<Rightarrow> (bytes option \<times> dsm_context \<times> 's net) outcome" where
  "run_op peer (Load p off n) c w =
     bind_oc (dsm_access_page peer c p 0 w) (\<lambda>(r, c, w).
     case r of None \<Rightarrow> Ret (None, c, w)
     | Some ptr \<Rightarrow> bind_oc (load_bytes c (ptr + off) n) (\<lambda>bs. Ret (Some bs, c, w)))"
| "run_op peer (Store p off bs) c w =
     bind_oc (dsm_access_page peer c p 1 w) (\<lambda>(r, c, w).
     case r of None \<Rightarrow> Ret (None, c, w)
     | Some ptr \<Rightarrow> bind_oc (store_bytes c (ptr + off) bs) (\<lambda>c. Ret (Some [], c, w)))"
| "run_op peer (Hint start n) c w =
     bind_oc (dsm_prefetch_pages peer c start n w) (\<lambda>(c, w). Ret (Some [], c, w))"

fun run_ops :: "'s peer \<Rightarrow> mem_op list \<Rightarrow> dsm_context \<Rightarrow> 's net \<Rightarrow> (bytes list option \<times> dsm_context \<times> 's net) outcome" where
  "run_ops peer [] c w = Ret (Some [], c, w)"
| "run_ops peer (x # xs) c w =
     bind_oc (run_op peer x c w) (\<lambda>(r, c, w).
     case r of None \<Rightarrow> Ret (None, c, w)
     | Some v \<Rightarrow> bind_oc (run_ops peer xs c w) (\<lambda>(rs, c, w). Ret (map_option ((#) v) rs, c, w)))"

paragraph \<open>The memory it implements\<close>

type_synonym page_memory = "u32 \<Rightarrow> bytes"

fun spec_op :: "mem_op \<Rightarrow> page_memory \<Rightarrow> bytes \<times> page_memory" where
  "spec_op (Load p off n) V = (mem_read (V p) off n, V)"
| "spec_op (Store p off bs) V = ([], V(p := mem_write (V p) off bs))"
| "spec_op (Hint start n) V = ([], V)"

fun spec_ops :: "mem_op list \<Rightarrow> page_memory \<Rightarrow> bytes list \<times> page_memory" where
  "spec_ops [] V = ([], V)"
| "spec_ops (x # xs) V =
     (let (v, V) = spec_op x V; (vs, V) = spec_ops xs V in (v # vs, V))"

fun op_ok :: "u32 \<Rightarrow> mem_op \<Rightarrow> bool" where
  "op_ok nv (Load p off n) \<longleftrightarrow> p < nv \<and> off + n \<le> PAGE_SIZE"
| "op_ok nv (Store p off bs) \<longleftrightarrow> p < nv \<and> off + length bs \<le> PAGE_SIZE"
| "op_ok nv (Hint start n) \<longleftrightarrow> True"

subsection \<open>The cache over a lawful server\<close>

context page_peer
begin

lemma writeback_ok:
  assumes "full c" and net: "net_ok ready store c w V"
  shows "\<exists>w'. writeback peer c w = Ret (0, w') \<and> net_ok ready store (evict_frame c) w' V"
proof -
  note v = full_victim [OF assms(1)]
  let ?S = "store (far w)" and ?d = "frame_data c (clock_hand c)"
  have len: "length ?d = PAGE_SIZE"
    using v(8) by (simp add: frame_data_def length_mem_read)
  have rep: "represents c ?S V" and own: "victim_page c \<in> pages (store (far w))" and syn: "synced ready w"
    and rel: "reliable (kern w)" and fd: "0 \<le> sock_fd c"
    using net v(4) by (simp_all add: net_ok_def)
  have "\<exists>w'. writeback peer c w = Ret (0, w') \<and> synced ready w' \<and> kern w' = kern w \<and>
      store (far w') = ?S(victim_page c := ?d)"
  proof (cases "dirty (pte c (victim_page c)) = 0")
    case True
    with represents_clean_victim [OF assms(1) rep] syn show ?thesis
      by (simp add: writeback_def)
  next
    case False
    then have eq: "writeback peer c w = dsm_rpc_put peer (sock_fd c) (victim_page c) ?d w"
      using rep v(4,6) by (simp add: writeback_def frame_data_def represents_def coherent_def)
    obtain w' where w': "dsm_rpc_put peer (sock_fd c) (victim_page c) ?d w = Ret (0, w')"
      using rpc_put_good [OF syn own len rel fd] by blast
    then show ?thesis
      using rpc_put_0 [OF syn own len w'] ensures_rpc_put [of peer "sock_fd c" "victim_page c" ?d w]
      by (simp add: eq)
  qed
  then obtain w' where w': "writeback peer c w = Ret (0, w')" "synced ready w'" "kern w' = kern w"
    "store (far w') = ?S(victim_page c := ?d)"
    by blast
  have "same_dims c (evict_frame c)"
    by simp
  with w' net represents_evict_frame [OF assms(1) rep w'(4)] len show ?thesis
    by (simp add: net_ok_def same_dims_def pages_def)
qed

lemma acquire_frame_ok:
  assumes inv: "pager_inv {} c" and net: "net_ok ready store c w V"
  shows "\<exists>f c' w'. acquire_frame peer c w = Ret (f, c', w') \<and> f \<noteq> DSM_NO_FRAME \<and> net_ok ready store c' w' V"
proof (cases "free_list_top c = 0")
  case False
  note g = get_free_frame_take [OF inv False]
  then show ?thesis
    using frame_not_NO_FRAME [OF g(2)] net by (simp add: acquire_frame_def net_ok_def)
next
  case True
  then have "full c"
    using inv by (simp add: full_def)
  obtain c1 where c1: "full c1" "swept c c1"
    and eq: "evict_page peer c w = bind_oc (writeback peer c1 w) (\<lambda>(rc, w).
      if rc < 0 then Ret (DSM_NO_FRAME, c1, w) else Ret (clock_hand c1, evict_frame c1, w))"
    using evict_page_spec [OF \<open>full c\<close>] by blast
  have "net_ok ready store c1 w V"
    using net represents_swept [OF inv c1(2)] swept_sel [OF c1(2)] by (simp add: net_ok_def)
  from writeback_ok [OF c1(1) this] obtain w' where
    "writeback peer c1 w = Ret (0, w')" "net_ok ready store (evict_frame c1) w' V"
    by blast
  moreover have "clock_hand c1 \<noteq> DSM_NO_FRAME"
    using full_victim(1) [OF c1(1)] by (rule frame_not_NO_FRAME)
  ultimately show ?thesis
    using True by (simp add: acquire_frame_def get_free_frame_empty eq)
qed

lemma prefetch_ok:
  assumes inv: "pager_inv {} c" and net: "net_ok ready store c w V"
  shows "\<exists>c' w'. dsm_prefetch_pages peer c start n w = Ret (c', w') \<and> net_ok ready store c' w' V"
proof -
  have col: "ensures (prefetch_collect start [0..<unat n] c []) (\<lambda>(c', b). \<exists>new t.
    b = [] @ new \<and> c' = c\<lparr>free_list_top := t\<rparr> \<and> pager_inv ({} \<union> snd ` set new) c' \<and>
    batch_ok {} c new \<and> fst ` set new \<subseteq> (\<lambda>i. start + of_nat i) ` set [0..<unat n])"
    using unat_u8_less [of n] by (intro prefetch_collect_spec [OF inv]) auto
  then obtain b t where eq: "prefetch_collect start [0..<unat n] c [] = Ret (c\<lparr>free_list_top := t\<rparr>, b)"
    and inv1: "pager_inv (snd ` set b) (c\<lparr>free_list_top := t\<rparr>)" and b: "batch_ok {} c b"
    using ensures_Ret_ex [OF col prefetch_collect_not_Blocked] by auto
  let ?c = "c\<lparr>free_list_top := t\<rparr>" and ?S = "store (far w)" and ?ids = "map fst b"
  have own: "set ?ids \<subseteq> pages (store (far w))" and syn: "synced ready w" and rel: "reliable (kern w)" and fd: "0 \<le> sock_fd c"
    using net b by (auto simp: net_ok_def batch_ok_def)
  have net1: "net_ok ready store ?c w V"
    using net by (simp add: net_ok_def)
  obtain bufs w' where ret: "dsm_rpc_get_batch peer (sock_fd c) ?ids w = Ret (0, bufs, w')"
    using rpc_get_batch_good [OF syn own rel fd] by blast
  have w': "bufs = concat (map ?S ?ids)" "synced ready w'" "store (far w') = ?S" "kern w' = kern w"
    "length bufs = length ?ids * PAGE_SIZE"
    using rpc_get_batch_0 [OF syn own ret] ensures_rpc_get_batch [of peer "sock_fd c" ?ids w] ret by auto
  have "\<exists>c'. prefetch_install b bufs ?c = Ret c' \<and> pager_inv {} c' \<and> installs b bufs ?c c'"
    using inv1 b w'(5) by (intro prefetch_install_spec) (auto simp: batch_ok_def)
  then obtain c' where c': "prefetch_install b bufs ?c = Ret c'" "installs b bufs ?c c'"
    by blast
  have "\<forall>p \<in> fst ` set b. length (?S p) = PAGE_SIZE"
    using own syn store_length by (auto simp: synced_def)
  then have "represents c' ?S V"
    using c'(2) net1 w'(1) unfolding installs_def net_ok_def by simp
  then have "net_ok ready store c' w' V"
    using net1 w'(2-4) c'(2) by (simp add: net_ok_def installs_def same_dims_def)
  with net1 eq ret c'(1) show ?thesis
    by (simp add: dsm_prefetch_pages_def)
qed

lemma fault_ok:
  assumes inv: "pager_inv {f} c" and net: "net_ok ready store c w V"
    and p: "pid < num_virtual_pages c" "valid (pte c pid) = 0"
  shows "\<exists>r c' w'. bind_oc (fetch_page peer c pid w) (\<lambda>(rc, buf, w). fault_tail peer c pid wr pid f rc buf w)
      = Ret (Some r, c', w') \<and> net_ok ready store c' w' V"
proof -
  let ?S = "store (far w)"
  have own: "pid \<in> pages (store (far w))" and syn: "synced ready w" and rel: "reliable (kern w)" and fd: "0 \<le> sock_fd c"
    and rep: "represents c ?S V"
    using net p by (simp_all add: net_ok_def)
  obtain buf w1 where get: "dsm_rpc_get peer (sock_fd c) pid w = Ret (0, buf, w1)"
    using rpc_get_good [OF syn own rel fd] by blast
  have w1: "buf = ?S pid" "synced ready w1" "store (far w1) = ?S" "kern w1 = kern w" "length buf = PAGE_SIZE"
    using rpc_get_0 [OF syn own get] ensures_rpc_get [of peer "sock_fd c" pid w] get by auto
  let ?c = "map_frame c pid wr f buf"
  note m = map_frame_inv [OF inv p, of buf wr]
  have "?c = (set_fte f ((fte c f)\<lparr>page_number := pid, occupied := 1\<rparr>)
      (set_pte pid ((pte c pid)\<lparr>frame_number := f, valid := 1, reference_bit := 1, dirty := ucast wr,
         location := LOC_REMOTE\<rparr>) (c\<lparr>local_memory := mem_write (local_memory c) (frame_to_ptr f) buf\<rparr>)))
      \<lparr>remote_fetches := remote_fetches c + 1\<rparr>"
    using fd by (simp add: map_frame_def Let_def ctx_defs)
  then have "represents ?c ?S V"
    using represents_map_page [OF inv _ p rep w1(1,5)] by simp
  then have net1: "net_ok ready store ?c w1 V"
    using net w1 m(2) by (simp add: net_ok_def same_dims_def)
  have "\<exists>c' w'. (if pid = last_page_id ?c + 1 then dsm_prefetch_pages peer ?c (pid + 1) (prefetch_count ?c) w1
      else Ret (?c, w1)) = Ret (c', w') \<and> net_ok ready store c' w' V"
    using prefetch_ok [OF m(1) net1] net1 w1(5) by simp
  then obtain c' w' where "finish_fault peer ?c pid f w1 = Ret (Some (frame_to_ptr f), c'\<lparr>last_page_id := pid\<rparr>, w')"
    "net_ok ready store c' w' V"
    by (auto simp: finish_fault_def)
  moreover have "net_ok ready store (c'\<lparr>last_page_id := pid\<rparr>) w' V"
    using \<open>net_ok ready store c' w' V\<close> by (simp add: net_ok_def)
  moreover have "fetch_page peer c pid w = Ret (0, buf, w1)"
    using get fd by (simp add: fetch_page_def)
  ultimately show ?thesis
    using fault_tail_ok [OF inv p(1), of buf 0 peer wr w1] w1(5) by auto
qed

lemma access_page_net_ok:
  assumes inv: "pager_inv {} c" and net: "net_ok ready store c w V" and p: "pid < num_virtual_pages c"
  shows "\<exists>r c' w'. dsm_access_page peer c pid wr w = Ret (Some r, c', w') \<and> net_ok ready store c' w' V"
proof (cases "valid (pte c pid) = 0")
  case True
  obtain f c1 w1 where a: "acquire_frame peer c w = Ret (f, c1, w1)" "f \<noteq> DSM_NO_FRAME" "net_ok ready store c1 w1 V"
    using acquire_frame_ok [OF inv net] by blast
  have "pager_inv {f} c1" "pid < num_virtual_pages c1" "valid (pte c1 pid) = 0"
    using ensures_acquire_frame [OF inv, of peer w] a p True by (auto simp: same_dims_def)
  from fault_ok [OF this(1) a(3) this(2,3), of wr] show ?thesis
    using a True pager_inv_less(2) [OF inv p] by (simp add: dsm_access_page_def access_slow_eq)
next
  case False
  note pid = pager_inv_less(2) [OF inv p]
  let ?e = "(pte c pid)\<lparr>reference_bit := 1, dirty := or (dirty (pte c pid)) (ucast wr)\<rparr>"
  let ?c = "set_pte pid ?e (c\<lparr>local_hits := local_hits c + 1\<rparr>)"
  have "represents ?c S V" if "represents c S V" for S
    using that False pid by (auto simp: represents_defs set_pte_def nth_list_update or_eq_0_iff)
  then have "net_ok ready store ?c w V"
    using net by (simp add: net_ok_def set_pte_def)
  with False pid show ?thesis
    by (simp add: dsm_access_page_def Let_def)
qed

lemma access_page_ok:
  assumes l: "linked ready store c w V" and p: "pid < num_virtual_pages c"
  shows "\<exists>c' w'. dsm_access_page peer c pid wr w = Ret (Some (frame_to_ptr (frame_number (pte c' pid))), c', w') \<and>
    linked ready store c' w' V \<and> same_dims c c' \<and> valid (pte c' pid) \<noteq> 0 \<and>
    (ucast wr \<noteq> (0 :: u8) \<longrightarrow> dirty (pte c' pid) \<noteq> 0)"
proof -
  have inv: "pager_inv {} c" and net: "net_ok ready store c w V"
    using l by (simp_all add: linked_def)
  obtain r c' w' where r: "dsm_access_page peer c pid wr w = Ret (Some r, c', w')" "net_ok ready store c' w' V"
    using access_page_net_ok [OF inv net p] by blast
  then show ?thesis
    using ensures_access_page [OF inv p, of peer wr w] by (auto simp: linked_def or_eq_0_iff)
qed

lemma load_linked:
  assumes l: "linked ready store c w V" and p: "pid < num_virtual_pages c" "valid (pte c pid) \<noteq> 0"
  shows "load_page c (frame_to_ptr (frame_number (pte c pid))) = Ret (V pid)"
proof -
  have inv: "pager_inv {} c" and V: "frame_data c (frame_number (pte c pid)) = V pid"
    using l p by (auto simp: linked_def net_ok_def represents_def view_def)
  have "frame_number (pte c pid) < num_pages c"
    using inv p by (simp add: pager_inv_def maps_ok_def)
  from frame_ptr_bound [OF inv this] show ?thesis
    using V by (simp add: load_page_def frame_data_def)
qed

lemma linked_length:
  assumes "linked ready store c w V" and "p < num_virtual_pages c"
  shows "length (V p) = PAGE_SIZE"
proof (cases "valid (pte c p) = 0")
  case True
  have "view c (store (far w)) p = V p" "length (store (far w) p) = PAGE_SIZE"
    using assms by (simp_all add: linked_def net_ok_def represents_def pages_def)
  with True show ?thesis by (simp add: view_def)
next
  case False
  have "load_page c (frame_to_ptr (frame_number (pte c p))) = Ret (V p)"
    by (rule load_linked [OF assms False])
  then have "V p = mem_read (local_memory c) (frame_to_ptr (frame_number (pte c p))) PAGE_SIZE"
    "frame_to_ptr (frame_number (pte c p)) + PAGE_SIZE \<le> length (local_memory c)"
    by (simp_all add: load_page_def split: if_splits)
  then show ?thesis by (simp add: length_mem_read)
qed

lemma store_linked:
  assumes l: "linked ready store c w V" and p: "pid < num_virtual_pages c" "valid (pte c pid) \<noteq> 0"
    and d: "dirty (pte c pid) \<noteq> 0" and len: "off + length bs \<le> PAGE_SIZE"
  shows "\<exists>c'. store_bytes c (frame_to_ptr (frame_number (pte c pid)) + off) bs = Ret c' \<and>
    linked ready store c' w (V(pid := mem_write (V pid) off bs)) \<and> same_dims c c'"
proof -
  let ?f = "frame_number (pte c pid)"
  let ?c = "c\<lparr>local_memory := mem_write (local_memory c) (frame_to_ptr ?f + off) bs\<rparr>"
  have inv: "pager_inv {} c" and net: "net_ok ready store c w V" and rep: "represents c (store (far w)) V"
    using l by (simp_all add: linked_def net_ok_def)
  have fn: "frame_number (pte c q) < num_pages c" if "q < num_virtual_pages c" "valid (pte c q) \<noteq> 0" for q
    using inv that by (simp add: pager_inv_def maps_ok_def)
  note bound = frame_ptr_bound [OF inv fn]
  have same: "frame_data ?c (frame_number (pte c q)) = frame_data c (frame_number (pte c q))"
    if q: "q < num_virtual_pages c" "valid (pte c q) \<noteq> 0" "q \<noteq> pid" for q
  proof -
    have "page_number (fte c (frame_number (pte c q))) = q" "page_number (fte c ?f) = pid"
      using inv q p by (simp_all add: pager_inv_def maps_ok_def)
    then have "frame_number (pte c q) \<noteq> ?f"
      using q(3) by auto
    then show ?thesis
      using frames_disjoint [of "frame_number (pte c q)" ?f] bound [OF q(1,2)] bound [OF p] len
      by (simp add: frame_data_def) (rule mem_read_write_other, auto)
  qed
  have clean: "frame_data ?c (frame_number (pte c q)) = frame_data c (frame_number (pte c q))"
    if "q < num_virtual_pages c" "valid (pte c q) \<noteq> 0" "dirty (pte c q) = 0" for q
    using that same [of q] d by (cases "q = pid") auto
  have new: "frame_data ?c ?f = mem_write (frame_data c ?f) off bs"
    using mem_read_write_within [OF len bound [OF p]] by (simp add: frame_data_def)
  have "represents ?c (store (far w)) (V(pid := mem_write (V pid) off bs))"
    using rep same clean new p by (auto simp: represents_def coherent_def view_def)
  then have "net_ok ready store ?c w (V(pid := mem_write (V pid) off bs))"
    using net by (simp add: net_ok_def)
  then show ?thesis
    using inv bound [OF p] len
    by (simp add: store_bytes_def linked_def same_dims_def pager_inv_memory length_mem_write)
qed

lemma start_linked:
  assumes "np \<noteq> 0" and "0 \<le> fd" and "synced ready w" and "reliable (kern w)"
    and "\<forall>p < nv. p \<in> pages (store (far w))"
  shows "linked ready store ((fresh_context np nv)\<lparr>sock_fd := fd\<rparr>) w (store (far w))"
proof -
  have "represents ((fresh_context np nv)\<lparr>sock_fd := fd\<rparr>) (store (far w)) (store (far w))"
    by (simp add: fresh_context_represents fresh_context_view)
  then show ?thesis
    using assms fresh_context_inv by (simp add: linked_def net_ok_def) (simp add: fresh_context_def)
qed

lemma load_bytes_linked:
  assumes l: "linked ready store c w V" and p: "pid < num_virtual_pages c" "valid (pte c pid) \<noteq> 0" and n: "off + n \<le> PAGE_SIZE"
  shows "load_bytes c (frame_to_ptr (frame_number (pte c pid)) + off) n = Ret (mem_read (V pid) off n)"
proof -
  have inv: "pager_inv {} c" and V: "frame_data c (frame_number (pte c pid)) = V pid"
    using l p by (auto simp: linked_def net_ok_def represents_def view_def)
  have "frame_number (pte c pid) < num_pages c"
    using inv p by (simp add: pager_inv_def maps_ok_def)
  from frame_ptr_bound [OF inv this] n show ?thesis
    by (simp add: load_bytes_def frame_data_def mem_read_def take_drop min_def ac_simps flip: V)
qed

lemma prefetch_linked:
  assumes "linked ready store c w V"
  shows "\<exists>c' w'. dsm_prefetch_pages peer c start n w = Ret (c', w') \<and> linked ready store c' w' V \<and> same_dims c c'"
proof -
  have inv: "pager_inv {} c" and net: "net_ok ready store c w V"
    using assms by (simp_all add: linked_def)
  obtain c' w' where "dsm_prefetch_pages peer c start n w = Ret (c', w')" "net_ok ready store c' w' V"
    using prefetch_ok [OF inv net] by blast
  then show ?thesis
    using ensures_prefetch [OF inv, of peer start n w] by (auto simp: linked_def)
qed

lemma run_op_refines:
  assumes l: "linked ready store c w V" and x: "op_ok (num_virtual_pages c) x"
  shows "\<exists>c' w'. run_op peer x c w = Ret (Some (fst (spec_op x V)), c', w') \<and>
    linked ready store c' w' (snd (spec_op x V)) \<and> same_dims c c'"
proof (cases x)
  case (Load p off n)
  with x have p: "p < num_virtual_pages c" "off + n \<le> PAGE_SIZE" by simp_all
  obtain c' w' where a: "dsm_access_page peer c p 0 w = Ret (Some (frame_to_ptr (frame_number (pte c' p))), c', w')"
    "linked ready store c' w' V" "same_dims c c'" "valid (pte c' p) \<noteq> 0"
    using access_page_ok [OF l p(1), of 0] by blast
  then show ?thesis
    using load_bytes_linked [OF a(2) _ a(4) p(2)] p(1) Load by (simp add: same_dims_def)
next
  case (Store p off bs)
  with x have p: "p < num_virtual_pages c" "off + length bs \<le> PAGE_SIZE" by simp_all
  obtain c1 w1 where a: "dsm_access_page peer c p 1 w = Ret (Some (frame_to_ptr (frame_number (pte c1 p))), c1, w1)"
    "linked ready store c1 w1 V" "same_dims c c1" "valid (pte c1 p) \<noteq> 0" "dirty (pte c1 p) \<noteq> 0"
    using access_page_ok [OF l p(1), of 1] by auto
  have "p < num_virtual_pages c1" using p(1) a(3) by (simp add: same_dims_def)
  from store_linked [OF a(2) this a(4,5) p(2)] obtain c2 where
    "store_bytes c1 (frame_to_ptr (frame_number (pte c1 p)) + off) bs = Ret c2"
    "linked ready store c2 w1 (V(p := mem_write (V p) off bs))" "same_dims c1 c2"
    by blast
  with a Store show ?thesis
    by (auto simp: same_dims_def)
next
  case (Hint start n)
  with prefetch_linked [OF l, of start n] show ?thesis by auto
qed

lemma run_ops_refines:
  assumes "linked ready store c w V" and "\<forall>x \<in> set xs. op_ok (num_virtual_pages c) x"
  shows "\<exists>c' w'. run_ops peer xs c w = Ret (Some (fst (spec_ops xs V)), c', w') \<and>
    linked ready store c' w' (snd (spec_ops xs V))"
  using assms
proof (induction xs arbitrary: c w V)
  case (Cons x xs)
  obtain c1 w1 where 1: "run_op peer x c w = Ret (Some (fst (spec_op x V)), c1, w1)"
    "linked ready store c1 w1 (snd (spec_op x V))" "same_dims c c1"
    using run_op_refines [OF Cons.prems(1), of x] Cons.prems(2) by auto
  have "\<forall>y \<in> set xs. op_ok (num_virtual_pages c1) y"
    using Cons.prems(2) 1(3) by (simp add: same_dims_def)
  from Cons.IH [OF 1(2) this] obtain c2 w2 where
    "run_ops peer xs c1 w1 = Ret (Some (fst (spec_ops xs (snd (spec_op x V)))), c2, w2)"
    "linked ready store c2 w2 (snd (spec_ops xs (snd (spec_op x V))))"
    by blast
  with 1(1) show ?case
    by (simp add: case_prod_unfold Let_def)
qed auto

end

end
