(* ===== verification/DSM_Statistics.thy ===== *)
theory DSM_Statistics
  imports DSM_Memory
begin

section \<open>The counters of a context (dsm\_paging.c, dsm\_client.c)\<close>

text \<open>
  What \<open>local_hits\<close>, \<open>remote_fetches\<close> and \<open>evictions\<close> count, for any server and any kernel.
  Every frame in use was filled by a fetch that no eviction has undone (\<open>books\<close>), and every
  access that returns a page adds to the total the benchmark reports. The same bookkeeping
  shows when a prefetch can fetch anything at all (\<open>idle\<close>).
\<close>

subsection \<open>Definitions\<close>

text \<open>The number of accesses the benchmark computes for its hit rate.\<close>

definition total_accesses :: "dsm_context \<Rightarrow> u64" where
  "total_accesses c = local_hits c + remote_fetches c"

text \<open>The fetches that no eviction has undone, and the free frames; 64-bit counters wrap around.\<close>

definition books :: "dsm_context \<Rightarrow> u64" where
  "books c = remote_fetches c - evictions c + of_nat (unat (free_list_top c))"

text \<open>No free frame, or no page that has been fetched and is not cached now.\<close>

definition idle :: "dsm_context \<Rightarrow> bool" where
  "idle c \<longleftrightarrow> free_list_top c = 0 \<or>
     (\<forall>p < num_virtual_pages c. valid (pte c p) = 0 \<longrightarrow> location (pte c p) \<noteq> LOC_REMOTE)"

text \<open>What a successful step of a program keeps.\<close>

definition kept :: "nat \<Rightarrow> dsm_context \<Rightarrow> dsm_context \<Rightarrow> bool" where
  "kept n c c' \<longleftrightarrow> pager_inv {} c' \<and> same_dims c c' \<and> idle c' \<and>
     (0 \<le> sock_fd c \<longrightarrow> books c' = books c \<and> total_accesses c' = total_accesses c + of_nat n)"

fun is_access :: "mem_op \<Rightarrow> bool" where
  "is_access (Hint start n) = False"
| "is_access _ = True"

lemmas books_defs = books_def total_accesses_def

lemma books_update [simp]:
  "books (c\<lparr>last_page_id := p\<rparr>) = books c" "total_accesses (c\<lparr>last_page_id := p\<rparr>) = total_accesses c"
  "books (c\<lparr>local_memory := m\<rparr>) = books c" "total_accesses (c\<lparr>local_memory := m\<rparr>) = total_accesses c"
  "books (c\<lparr>sock_fd := fd\<rparr>) = books c" "total_accesses (c\<lparr>sock_fd := fd\<rparr>) = total_accesses c"
  "books (set_pte pid e c) = books c" "total_accesses (set_pte pid e c) = total_accesses c"
  by (simp_all add: books_defs set_pte_def)

lemma idle_update [simp]:
  "idle (c\<lparr>last_page_id := p\<rparr>) = idle c" "idle (c\<lparr>local_memory := m\<rparr>) = idle c" "idle (c\<lparr>sock_fd := fd\<rparr>) = idle c"
  by (simp_all add: idle_def)

subsection \<open>Taking a frame\<close>

lemma books_swept: "swept c c' \<Longrightarrow> books c' = books c \<and> total_accesses c' = total_accesses c"
  by (simp add: books_defs swept_sel)

lemma unat_pred_u32: "(t :: u32) \<noteq> 0 \<Longrightarrow> unat t = Suc (unat (t - 1))"
  by (simp add: unat_minus_one unat_gt_0)

lemma acquire_frame_cases:
  assumes inv: "pager_inv {} c" and a: "acquire_frame peer c w = Ret (f, c', w')"
  obtains (free) "f \<noteq> DSM_NO_FRAME" and "free_list_top c \<noteq> 0" and "c' = c\<lparr>free_list_top := free_list_top c - 1\<rparr>"
  | (victim) c1 where "f \<noteq> DSM_NO_FRAME" and "full c1" and "swept c c1" and "c' = evict_frame c1"
  | (none) "f = DSM_NO_FRAME" and "swept c c'"
proof (cases "free_list_top c = 0")
  case False
  note g = get_free_frame_take [OF inv False]
  then have "f \<noteq> DSM_NO_FRAME" "c' = c\<lparr>free_list_top := free_list_top c - 1\<rparr>"
    using a frame_not_NO_FRAME [OF g(2)] by (auto simp: acquire_frame_def)
  with False free show ?thesis by blast
next
  case True
  then have "full c" using inv by (simp add: full_def)
  then obtain c1 where c1: "full c1" "swept c c1"
    and eq: "evict_page peer c w = bind_oc (writeback peer c1 w) (\<lambda>(rc, w).
      if rc < 0 then Ret (DSM_NO_FRAME, c1, w) else Ret (clock_hand c1, evict_frame c1, w))"
    using evict_page_spec by blast
  have "acquire_frame peer c w = evict_page peer c w"
    using True by (simp add: acquire_frame_def get_free_frame_empty)
  then have "bind_oc (writeback peer c1 w) (\<lambda>(rc, w).
      if rc < 0 then Ret (DSM_NO_FRAME, c1, w) else Ret (clock_hand c1, evict_frame c1, w)) = Ret (f, c', w')"
    using a eq by simp
  moreover have "clock_hand c1 \<noteq> DSM_NO_FRAME"
    using full_victim(1) [OF c1(1)] by (rule frame_not_NO_FRAME)
  ultimately show ?thesis
    using c1 none victim by (auto simp: outcome_simps split: if_splits)
qed

lemma acquire_frame_books:
  assumes "pager_inv {} c" and "acquire_frame peer c w = Ret (f, c', w')"
  shows "books c' = (if f = DSM_NO_FRAME then books c else books c - 1)" and "total_accesses c' = total_accesses c"
proof -
  have "books c' = (if f = DSM_NO_FRAME then books c else books c - 1) \<and> total_accesses c' = total_accesses c"
  proof (cases rule: acquire_frame_cases [OF assms, case_names free victim none])
    case free
    then show ?thesis by (simp add: books_defs unat_pred_u32)
  next
    case (victim c1)
    then show ?thesis
      using books_swept [OF victim(3)] by (simp add: books_defs evict_frame_def Let_def ctx_defs full_def)
  next
    case none
    then show ?thesis using books_swept by simp
  qed
  then show "books c' = (if f = DSM_NO_FRAME then books c else books c - 1)" "total_accesses c' = total_accesses c"
    by simp_all
qed

subsection \<open>Prefetching\<close>

lemma prefetch_collect_books:
  assumes "prefetch_collect start is c batch = Ret (c', b)" and "pager_inv H c"
  shows "\<exists>new t. b = batch @ new \<and> c' = c\<lparr>free_list_top := t\<rparr> \<and> unat (free_list_top c) = unat t + length new \<and>
    length new \<le> length is \<and> length b \<le> max (length batch) DSM_PREFETCH_MAX"
  using assms
proof (induction start "is" c batch arbitrary: H rule: prefetch_collect.induct)
  case (2 start i "is" c batch)
  let ?pid = "start + of_nat i"
  let ?post = "\<lambda>is c b. \<exists>new t. b = batch @ new \<and> c' = c\<lparr>free_list_top := t\<rparr> \<and>
    unat (free_list_top c) = unat t + length new \<and> length new \<le> length is \<and>
    length b \<le> max (length batch) DSM_PREFETCH_MAX"
  have stop: "?post (i # is) c b" if "(c, batch) = (c', b)"
    using that by (auto intro!: exI [of _ "free_list_top c"])
  show ?case
  proof (cases "length batch < DSM_PREFETCH_MAX \<and> ?pid < num_virtual_pages c")
    case False
    with 2(3) stop show ?thesis by (auto simp: Let_def not_le split: if_splits)
  next
    case go: True
    let ?skip = "valid (pte c ?pid) \<noteq> 0 \<or> location (pte c ?pid) \<noteq> LOC_REMOTE"
    have ix: "idx (page_table c) (unat ?pid) = Ret (pte c ?pid)" "\<not> num_virtual_pages c \<le> ?pid"
      using pager_inv_less(2) [OF 2(4)] go by (auto simp: not_le)
    show ?thesis
    proof (cases ?skip)
      case True
      with 2(3) go ix have r: "prefetch_collect start is c batch = Ret (c', b)" by (simp add: Let_def)
      obtain new t where "b = batch @ new" "c' = c\<lparr>free_list_top := t\<rparr>" "unat (free_list_top c) = unat t + length new"
        "length new \<le> length is" "length b \<le> max (length batch) DSM_PREFETCH_MAX"
        using 2(1) [OF _ refl _ True r 2(4)] go ix(2) by blast
      then show ?thesis by (intro exI [of _ new] exI [of _ t]) simp
    next
      case noskip: False
      show ?thesis
      proof (cases "free_list_top c = 0")
        case True
        with 2(3) go ix noskip have "(c, batch) = (c', b)" by (simp add: Let_def get_free_frame_empty)
        then show ?thesis by (rule stop)
      next
        case False
        note g = get_free_frame_take [OF 2(4) False]
        let ?c = "c\<lparr>free_list_top := free_list_top c - 1\<rparr>" and ?f = "free_list c ! unat (free_list_top c - 1)"
        have f: "?f \<noteq> DSM_NO_FRAME" by (rule frame_not_NO_FRAME [OF g(2)])
        have r: "prefetch_collect start is ?c (batch @ [(?pid, ?f)]) = Ret (c', b)"
          using 2(3) go ix noskip g(1) f by (simp add: Let_def)
        obtain new t where n: "b = (batch @ [(?pid, ?f)]) @ new" "c' = ?c\<lparr>free_list_top := t\<rparr>"
          "unat (free_list_top ?c) = unat t + length new" "length new \<le> length is"
          "length b \<le> max (length (batch @ [(?pid, ?f)])) DSM_PREFETCH_MAX"
          using 2(2) [OF _ refl _ noskip _ r g(4)] go f ix(2) by auto
        then show ?thesis
          using go unat_pred_u32 [OF False] by (intro exI [of _ "(?pid, ?f) # new"] exI [of _ t]) auto
      qed
    qed
  qed
qed (auto intro!: exI)

lemma prefetch_install_books:
  "prefetch_install b bufs c = Ret c' \<Longrightarrow> remote_fetches c' = remote_fetches c + of_nat (length b) \<and>
     evictions c' = evictions c \<and> free_list_top c' = free_list_top c \<and> local_hits c' = local_hits c"
proof (induction b arbitrary: bufs c)
  case (Cons pf b)
  then show ?case
    by (cases pf) (auto simp: outcome_simps store_bytes_def ctx_defs Let_def split: if_splits dest!: Cons.IH)
qed simp

lemma push_frames_books:
  "push_frames fs c = Ret c' \<Longrightarrow> free_list_top c' = free_list_top c + of_nat (length fs) \<and>
     remote_fetches c' = remote_fetches c \<and> evictions c' = evictions c \<and> local_hits c' = local_hits c"
  by (induction fs c rule: push_frames.induct) (auto simp: outcome_simps push_free_frame_def)

text \<open>A prefetch fetches at most as many pages as asked for, and never more than eight.\<close>

lemma prefetch_books:
  assumes inv: "pager_inv {} c" and r: "dsm_prefetch_pages peer c start n w = Ret (c', w')"
  shows "\<exists>k \<le> min (unat n) DSM_PREFETCH_MAX. total_accesses c' = total_accesses c + of_nat k \<and> books c' = books c"
proof -
  obtain c1 b where b: "prefetch_collect start [0..<unat n] c [] = Ret (c1, b)"
    using r by (auto simp: dsm_prefetch_pages_def outcome_simps)
  from prefetch_collect_books [OF b inv] obtain t where c1: "c1 = c\<lparr>free_list_top := t\<rparr>"
    "unat (free_list_top c) = unat t + length b" "length b \<le> unat n" "length b \<le> DSM_PREFETCH_MAX"
    by auto
  have top: "t + of_nat (length b) = free_list_top c"
    using arg_cong [OF c1(2), of "of_nat :: nat \<Rightarrow> u32"] by simp
  consider "c' = c1" "b = []" | "push_frames (map snd b) c1 = Ret c'" | bufs where "prefetch_install b bufs c1 = Ret c'"
    using r b by (auto simp: dsm_prefetch_pages_def outcome_simps split: if_splits)
  then show ?thesis
  proof cases
    case 1
    with c1(1,2) show ?thesis by (auto simp: books_defs)
  next
    case 2
    from push_frames_books [OF this] show ?thesis
      using c1(1) top by (intro exI [of _ 0]) (simp add: books_defs)
  next
    case 3
    from prefetch_install_books [OF this] show ?thesis
      using c1 by (intro exI [of _ "length b"]) (simp add: books_defs)
  qed
qed

lemma prefetch_idle:
  assumes "length (page_table c) = unat (num_virtual_pages c)" and "idle c"
  shows "dsm_prefetch_pages peer c start n w = Ret (c, w)"
proof -
  have "prefetch_collect start is c [] = Ret (c, [])" for "is"
  proof (induction "is")
    case (Cons i "is")
    with assms show ?case
      by (auto simp: Let_def DSM_PREFETCH_MAX_def idx_def not_le word_less_nat_alt idle_def get_free_frame_empty)
  qed simp
  then show ?thesis by (simp add: dsm_prefetch_pages_def)
qed

subsection \<open>Accesses\<close>

lemma map_frame_books:
  assumes "0 \<le> sock_fd c"
  shows "books (map_frame c pid wr f buf) = books c + 1" "total_accesses (map_frame c pid wr f buf) = total_accesses c + 1"
  using assms by (simp_all add: map_frame_def Let_def ctx_defs books_defs)

lemma held_frame_top:
  assumes inv: "pager_inv (insert f H) c" and f: "f \<notin> H"
  shows "unat (free_list_top c + 1) = Suc (unat (free_list_top c))"
proof -
  have "distinct (f # free_frames c)" "\<forall>x \<in> set (f # free_frames c). x < num_pages c"
    using inv by (auto simp: pager_inv_def frames_ok_def)
  from length_distinct_below [OF this] have "unat (free_list_top c) < unat (num_pages c)"
    using inv by (simp add: pager_inv_defs word_le_nat_alt)
  then show ?thesis
    using unat_u32_less [of "num_pages c"] by (simp add: unat_word_ariths)
qed

lemma fault_failed_books:
  assumes inv: "pager_inv {f} c" and len: "length buf \<le> PAGE_SIZE" and rc: "rc < 0"
    and r: "fault_tail peer c pid wr entry f rc buf w = Ret (r, c', w')"
  shows "r = None \<and> books c' = books c + 1 \<and> total_accesses c' = total_accesses c"
proof -
  note st = store_bytes_frame [OF inv pager_inv_held(1) [OF inv] len]
  show ?thesis
    using push_free_frame_give [OF st(2)] arg_cong [OF held_frame_top [OF inv], of "of_nat :: nat \<Rightarrow> u64"] rc r
    by (auto simp: fault_tail_def st(1) books_defs)
qed

text \<open>
  One access: hits and fetches together grow by one and by the pages prefetched if the
  access returns a page, and not at all if it fails; the books stay balanced.
\<close>

lemma access_slow_books:
  assumes inv: "pager_inv {} c" and p: "pid < num_virtual_pages c" "valid (pte c pid) = 0" and fd: "0 \<le> sock_fd c"
    and r: "dsm_access_page_slow peer c pid wr pid w = Ret (r, c', w')"
  shows "books c' = books c \<and> (case r of None \<Rightarrow> total_accesses c' = total_accesses c
    | Some ptr \<Rightarrow> \<exists>k \<le> min (unat (prefetch_count c)) DSM_PREFETCH_MAX. total_accesses c' = total_accesses c + of_nat (Suc k))"
proof -
  obtain f c1 w1 where a: "acquire_frame peer c w = Ret (f, c1, w1)"
    and rest: "(if f = DSM_NO_FRAME then Ret (None, c1, w1)
      else bind_oc (fetch_page peer c1 pid w1) (\<lambda>(rc, buf, w). fault_tail peer c1 pid wr pid f rc buf w)) = Ret (r, c', w')"
    using r unfolding access_slow_eq by (auto simp: outcome_simps)
  note b = acquire_frame_books [OF inv a] and q = ensuresD [OF ensures_acquire_frame [OF inv] a, simplified]
  show ?thesis
  proof (cases "f = DSM_NO_FRAME")
    case True
    with rest b show ?thesis by auto
  next
    case False
    with q p have inv1: "pager_inv {f} c1" and p1: "pid < num_virtual_pages c1" "valid (pte c1 pid) = 0"
      and d: "sock_fd c1 = sock_fd c" "prefetch_count c1 = prefetch_count c"
      by (auto simp: same_dims_def)
    obtain rc buf w2 where f: "fetch_page peer c1 pid w1 = Ret (rc, buf, w2)"
      and t: "fault_tail peer c1 pid wr pid f rc buf w2 = Ret (r, c', w')"
      using rest False by (auto simp: outcome_simps)
    have len: "length buf \<le> PAGE_SIZE" using ensuresD [OF ensures_fetch_page f] by simp
    show ?thesis
    proof (cases "rc < 0")
      case True
      from fault_failed_books [OF inv1 len True t] b False show ?thesis by auto
    next
      case ok: False
      let ?m = "map_frame c1 pid wr f buf"
      note m = map_frame_inv [OF inv1 p1 len, of wr] and mb = map_frame_books [of c1 pid wr f buf]
      have "finish_fault peer ?m pid f w2 = Ret (r, c', w')"
        using t by (simp only: fault_tail_ok [OF inv1 p1(1) len ok])
      then obtain c2 where c2: "r \<noteq> None" "c' = c2\<lparr>last_page_id := pid\<rparr>"
        and m2: "c2 = ?m \<or> dsm_prefetch_pages peer ?m (pid + 1) (prefetch_count ?m) w2 = Ret (c2, w')"
        by (auto simp: finish_fault_def outcome_simps split: if_splits)
      have pc: "prefetch_count ?m = prefetch_count c" using m(2) d(2) by (simp add: same_dims_def)
      have "\<exists>k \<le> min (unat (prefetch_count c)) DSM_PREFETCH_MAX.
          total_accesses c2 = total_accesses ?m + of_nat k \<and> books c2 = books ?m"
        using m2
      proof
        assume "c2 = ?m"
        then show ?thesis by (intro exI [of _ 0]) simp
      next
        assume "dsm_prefetch_pages peer ?m (pid + 1) (prefetch_count ?m) w2 = Ret (c2, w')"
        from prefetch_books [OF m(1) this] show ?thesis by (simp only: pc)
      qed
      then show ?thesis
        using c2 b mb fd d(1) False by auto
    qed
  qed
qed

lemma access_page_books:
  assumes inv: "pager_inv {} c" and p: "pid < num_virtual_pages c" and fd: "0 \<le> sock_fd c"
    and r: "dsm_access_page peer c pid wr w = Ret (r, c', w')"
  shows "books c' = books c \<and> (case r of None \<Rightarrow> total_accesses c' = total_accesses c
    | Some ptr \<Rightarrow> \<exists>k \<le> min (unat (prefetch_count c)) DSM_PREFETCH_MAX. total_accesses c' = total_accesses c + of_nat (Suc k))"
proof (cases "valid (pte c pid) = 0")
  case True
  with r access_slow_books [OF inv p True fd, of peer wr w r c' w'] pager_inv_less(2) [OF inv p] show ?thesis
    by (simp add: dsm_access_page_def)
next
  case False
  with r pager_inv_less(2) [OF inv p] show ?thesis
    by (auto simp: dsm_access_page_def Let_def books_defs ctx_defs intro!: exI [of _ 0])
qed

text \<open>
  As long as accesses succeed, the prefetcher has nothing to do: until the cache is full
  no page has been evicted, and from then on there is no free frame.
\<close>

lemma access_slow_fault:
  assumes inv: "pager_inv {} c" and p: "pid < num_virtual_pages c" "valid (pte c pid) = 0" and idle: "idle c"
    and r: "dsm_access_page_slow peer c pid wr pid w = Ret (Some ptr, c', w')"
  obtains f c1 w1 buf where "acquire_frame peer c w = Ret (f, c1, w1)" and "f \<noteq> DSM_NO_FRAME"
    and "c' = (map_frame c1 pid wr f buf)\<lparr>last_page_id := pid\<rparr>" and "idle c'"
proof -
  obtain f c1 w1 rc buf w2 where a: "acquire_frame peer c w = Ret (f, c1, w1)" "f \<noteq> DSM_NO_FRAME"
    "fetch_page peer c1 pid w1 = Ret (rc, buf, w2)" "fault_tail peer c1 pid wr pid f rc buf w2 = Ret (Some ptr, c', w')"
    using r unfolding access_slow_eq by (auto simp: outcome_simps split: if_splits)
  note q = ensuresD [OF ensures_acquire_frame [OF inv] a(1), simplified]
  have inv1: "pager_inv {f} c1" and p1: "pid < num_virtual_pages c1" "valid (pte c1 pid) = 0"
    and d: "num_virtual_pages c1 = num_virtual_pages c"
    using q p a(2) by (auto simp: same_dims_def)
  have len: "length buf \<le> PAGE_SIZE" using ensuresD [OF ensures_fetch_page a(3)] by simp
  have ok: "\<not> rc < 0" using fault_failed_books [OF inv1 len _ a(4)] by auto
  let ?m = "map_frame c1 pid wr f buf"
  note m = map_frame_inv [OF inv1 p1 len, of wr]
  have other: "pte ?m x = pte c1 x" if "x \<noteq> pid" for x
    using that by (simp add: map_frame_def Let_def ctx_defs)
  have "idle ?m"
  proof (cases rule: acquire_frame_cases [OF inv a(1), case_names free victim none])
    case free
    then have "valid (pte ?m x) \<noteq> 0 \<or> location (pte ?m x) \<noteq> LOC_REMOTE" if "x < num_virtual_pages c" for x
      using idle other [of x] m(3) that by (cases "x = pid") (auto simp: idle_def)
    then show ?thesis
      using m(2) d by (auto simp: idle_def same_dims_def)
  next
    case (victim c0)
    then show ?thesis by (simp add: idle_def map_frame_def evict_frame_def full_def Let_def ctx_defs)
  next
    case none
    with a(2) show ?thesis by simp
  qed
  moreover have "length (page_table ?m) = unat (num_virtual_pages ?m)"
    using m(1) by (simp add: pager_inv_defs)
  ultimately have "finish_fault peer ?m pid f w2 = Ret (Some (frame_to_ptr f), ?m\<lparr>last_page_id := pid\<rparr>, w2)"
    by (simp add: finish_fault_def prefetch_idle)
  then have "c' = ?m\<lparr>last_page_id := pid\<rparr>"
    using a(4) by (simp add: fault_tail_ok [OF inv1 p1(1) len ok])
  with \<open>idle ?m\<close> that [OF a(1,2)] show ?thesis by simp
qed

lemma access_slow_idle:
  assumes inv: "pager_inv {} c" and p: "pid < num_virtual_pages c" "valid (pte c pid) = 0" and idle: "idle c"
    and r: "dsm_access_page_slow peer c pid wr pid w = Ret (Some ptr, c', w')"
  shows "idle c'" and "0 \<le> sock_fd c \<Longrightarrow> total_accesses c' = total_accesses c + 1"
proof -
  obtain f c1 w1 buf where a: "acquire_frame peer c w = Ret (f, c1, w1)"
    "c' = (map_frame c1 pid wr f buf)\<lparr>last_page_id := pid\<rparr>" "idle c'"
    by (rule access_slow_fault [OF assms])
  have "sock_fd c1 = sock_fd c"
    using ensuresD [OF ensures_acquire_frame [OF inv] a(1)] by (auto simp: same_dims_def)
  with a show "idle c'" and "0 \<le> sock_fd c \<Longrightarrow> total_accesses c' = total_accesses c + 1"
    using map_frame_books(2) [of c1 pid wr f buf] acquire_frame_books(2) [OF inv a(1)] by simp_all
qed

lemma access_page_idle:
  assumes inv: "pager_inv {} c" and p: "pid < num_virtual_pages c" and idle: "idle c"
    and r: "dsm_access_page peer c pid wr w = Ret (Some ptr, c', w')"
  shows "idle c'" and "0 \<le> sock_fd c \<Longrightarrow> total_accesses c' = total_accesses c + 1"
proof -
  have ix: "unat pid < length (page_table c)" by (rule pager_inv_less(2) [OF inv p])
  have "idle c' \<and> (0 \<le> sock_fd c \<longrightarrow> total_accesses c' = total_accesses c + 1)"
  proof (cases "valid (pte c pid) = 0")
    case True
    with r ix access_slow_idle [OF inv p True idle, of peer wr w ptr c' w'] show ?thesis
      by (simp add: dsm_access_page_def)
  next
    case False
    then have "c' = set_pte pid ((pte c pid)\<lparr>reference_bit := 1, dirty := or (dirty (pte c pid)) (ucast wr)\<rparr>)
        (c\<lparr>local_hits := local_hits c + 1\<rparr>)"
      using r ix by (simp add: dsm_access_page_def Let_def)
    with idle ix show ?thesis
      by (auto simp: idle_def books_defs set_pte_def nth_list_update split: if_splits)
  qed
  then show "idle c'" and "0 \<le> sock_fd c \<Longrightarrow> total_accesses c' = total_accesses c + 1" by simp_all
qed

subsection \<open>Runs\<close>

lemma store_bytes_keeps:
  assumes "store_bytes c ptr bs = Ret c'" and "pager_inv {} c"
  shows "\<exists>m. c' = c\<lparr>local_memory := m\<rparr> \<and> pager_inv {} c'"
  using assms by (auto simp: store_bytes_def pager_inv_memory length_mem_write split: if_splits)

lemma store_bytes_books:
  "store_bytes c ptr bs = Ret c' \<Longrightarrow> books c' = books c \<and> total_accesses c' = total_accesses c"
  by (auto simp: store_bytes_def split: if_splits)

lemma access_page_kept:
  assumes "pager_inv {} c" and "pid < num_virtual_pages c" and "idle c"
    and r: "dsm_access_page peer c pid wr w = Ret (Some ptr, c', w')"
  shows "kept 1 c c'"
  using ensuresD [OF ensures_access_page [OF assms(1,2)] r] access_page_idle [OF assms]
    access_page_books [OF assms(1,2) _ r]
  by (auto simp: kept_def)

lemma run_op_kept:
  assumes inv: "pager_inv {} c" and x: "op_ok (num_virtual_pages c) x" and idle: "idle c"
    and r: "run_op peer x c w = Ret (Some v, c', w')"
  shows "kept (if is_access x then 1 else 0) c c'"
proof (cases x)
  case (Load p off n)
  with r obtain ptr where "dsm_access_page peer c p 0 w = Ret (Some ptr, c', w')"
    by (auto simp: outcome_simps split: option.splits)
  from access_page_kept [OF inv _ idle this] x Load show ?thesis by simp
next
  case (Store p off bs)
  with r obtain ptr c1 where 1: "dsm_access_page peer c p 1 w = Ret (Some ptr, c1, w')" "store_bytes c1 (ptr + off) bs = Ret c'"
    by (auto simp: outcome_simps split: option.splits)
  from access_page_kept [OF inv _ idle 1(1)] x Store store_bytes_keeps [OF 1(2)] show ?thesis
    by (auto simp: kept_def same_dims_def)
next
  case (Hint start n)
  with r inv idle prefetch_idle [of c peer start n w] show ?thesis
    by (simp add: kept_def pager_inv_defs)
qed

lemma run_ops_kept:
  assumes "pager_inv {} c" and "\<forall>x \<in> set ops. op_ok (num_virtual_pages c) x" and "idle c"
    and "run_ops peer ops c w = Ret (Some vs, c', w')"
  shows "kept (length (filter is_access ops)) c c'"
  using assms
proof (induction ops arbitrary: c w vs)
  case (Cons x ops)
  obtain v c1 w1 vs1 where 1: "run_op peer x c w = Ret (Some v, c1, w1)" "run_ops peer ops c1 w1 = Ret (Some vs1, c', w')"
    using Cons.prems(4) by (auto simp: outcome_simps split: option.splits)
  have k: "kept (if is_access x then 1 else 0) c c1"
    using run_op_kept [OF Cons.prems(1) _ Cons.prems(3) 1(1)] Cons.prems(2) by simp
  have "kept (length (filter is_access ops)) c1 c'"
    using Cons.IH [OF _ _ _ 1(2)] k Cons.prems(2) by (auto simp: kept_def same_dims_def)
  with k show ?case
    by (auto simp: kept_def intro: same_dims_trans split: if_splits) (auto simp: same_dims_def)
qed (simp add: kept_def)

lemma fresh_kept:
  assumes "dsm_create_context alloc np nv = (Some c, held)"
  shows "pager_inv {} (dsm_context_set_socket c fd)" "idle (dsm_context_set_socket c fd)"
    "books (dsm_context_set_socket c fd) = of_nat (unat np)" "total_accesses (dsm_context_set_socket c fd) = 0"
    "num_virtual_pages (dsm_context_set_socket c fd) = nv" "num_pages (dsm_context_set_socket c fd) = np"
    "sock_fd (dsm_context_set_socket c fd) = fd" "prefetch_count (dsm_context_set_socket c fd) = 4"
proof -
  have c: "np \<noteq> 0" "c = fresh_context np nv"
    using create_context_Some [OF assms] by simp_all
  then show "pager_inv {} (dsm_context_set_socket c fd)"
    using fresh_context_inv by (simp add: dsm_context_set_socket_def)
  show "idle (dsm_context_set_socket c fd)"
    "books (dsm_context_set_socket c fd) = of_nat (unat np)" "total_accesses (dsm_context_set_socket c fd) = 0"
    "num_virtual_pages (dsm_context_set_socket c fd) = nv" "num_pages (dsm_context_set_socket c fd) = np"
    "sock_fd (dsm_context_set_socket c fd) = fd" "prefetch_count (dsm_context_set_socket c fd) = 4"
    by (simp_all add: c(2) dsm_context_set_socket_def fresh_context_def idle_def books_defs word_less_nat_alt LOC_REMOTE_def)
qed

lemma books_balance:
  assumes "pager_inv H c" and "num_pages c = np" and "books c = of_nat (unat np)"
  shows "remote_fetches c = evictions c + of_nat (unat np - unat (free_list_top c))"
proof -
  have "unat (free_list_top c) \<le> unat np"
    using assms(1,2) by (auto simp: pager_inv_defs word_le_nat_alt)
  then show ?thesis
    using assms(3) by (simp add: books_def of_nat_diff algebra_simps)
qed

end
