(* ===== verification/DSM_Client.thy ===== *)
theory DSM_Client
  imports DSM_Statistics DSM_Config
begin

section \<open>The client program (dsm\_client.c)\<close>

text \<open>
  Connecting with retries, the benchmark, the verification run and \<open>main\<close>. The clock and
  the printed results are not modelled. A division by zero and an access out of bounds are
  \<open>Undef\<close>. The connection behind the socket is passed along as in the page cache.
\<close>

subsection \<open>Definitions\<close>

definition LCG_MULT :: u32 where "LCG_MULT = 1103515245"

definition LCG_INC :: u32 where "LCG_INC = 12345"

definition LCG_SEED :: u32 where "LCG_SEED = 12345"

definition INITIAL_RETRY_DELAY_MS :: int where "INITIAL_RETRY_DELAY_MS = 100"

definition MAX_RETRY_ATTEMPTS :: nat where "MAX_RETRY_ATTEMPTS = 10"

paragraph \<open>Connecting\<close>

text \<open>
  What \<open>socket\<close> and \<open>connect\<close> do for one address: \<open>Sock_fail\<close> when there is no socket,
  otherwise the descriptor and whether it gets connected. \<open>answers a\<close> lists the
  addresses during attempt \<open>a\<close>. The results are the descriptor, the descriptors closed, and
  the delays slept, in milliseconds.
\<close>

datatype conn_ans = Sock_fail | Conn int bool

fun try_addresses :: "conn_ans list \<Rightarrow> int list \<Rightarrow> int option \<times> int list" where
  "try_addresses [] closed = (None, closed)"
| "try_addresses (Sock_fail # rest) closed = try_addresses rest closed"
| "try_addresses (Conn fd ok # rest) closed = (if ok then (Some fd, closed) else try_addresses rest (closed @ [fd]))"

fun connect_attempts ::
  "nat \<Rightarrow> nat \<Rightarrow> (nat \<Rightarrow> conn_ans list) \<Rightarrow> int \<Rightarrow> int list \<Rightarrow> int list \<Rightarrow> int \<times> int list \<times> int list" where
  "connect_attempts 0 attempt ans delay closed slept = (-1, closed, slept)"
| "connect_attempts (Suc left) attempt ans delay closed slept =
     (case try_addresses (ans attempt) closed of
        (Some fd, closed) \<Rightarrow> (fd, closed, slept)
      | (None, closed) \<Rightarrow>
          if left > 0 then connect_attempts left (Suc attempt) ans (delay * 2) closed (slept @ [delay])
          else connect_attempts left (Suc attempt) ans delay closed slept)"

definition connect_to_server :: "bool \<Rightarrow> (nat \<Rightarrow> conn_ans list) \<Rightarrow> nat \<Rightarrow> int \<times> int list \<times> int list" where
  "connect_to_server resolved ans max_retries =
     (if \<not> resolved then (-1, [], [])
      else connect_attempts max_retries 0 ans INITIAL_RETRY_DELAY_MS [] [])"

paragraph \<open>The benchmark\<close>

definition umod :: "u32 \<Rightarrow> u32 \<Rightarrow> u32 outcome" where
  "umod a b = (if b = 0 then Undef else Ret (a mod b))"

text \<open>Nanoseconds of the monotonic clock, from the two fields of \<open>clock_gettime\<close>.\<close>

definition now_ns :: "u64 \<Rightarrow> u64 \<Rightarrow> u64" where
  "now_ns tv_sec tv_nsec = tv_sec * 1000000000 + tv_nsec"

definition lcg_next :: "u32 \<Rightarrow> u32" where
  "lcg_next s = s * LCG_MULT + LCG_INC"

definition lcg_value :: "u32 \<Rightarrow> u32" where
  "lcg_value s = and (drop_bit 16 s) 0x7FFF"

fun init_locations :: "nat list \<Rightarrow> u32 \<Rightarrow> dsm_context \<Rightarrow> dsm_context outcome" where
  "init_locations [] np c = Ret c"
| "init_locations (i # is) np c =
     bind_oc (idx (page_table c) i) (\<lambda>e.
     init_locations is np (set_pte (of_nat i) (e\<lparr>location := if of_nat i < np then LOC_LOCAL else LOC_REMOTE\<rparr>) c))"

definition pick_page :: "dsm_client_config \<Rightarrow> u32 \<Rightarrow> u32 outcome" where
  "pick_page cfg rand_val =
     (if rand_val mod 100 < ucast (cc_locality_percent cfg) then umod rand_val (cc_num_pages cfg)
      else bind_oc (umod rand_val (cc_num_virtual_pages cfg - cc_num_pages cfg)) (\<lambda>r. Ret (cc_num_pages cfg + r)))"

fun bench_loop ::
  "'s peer \<Rightarrow> dsm_client_config \<Rightarrow> nat list \<Rightarrow> u32 \<Rightarrow> dsm_context \<Rightarrow> 's net \<Rightarrow> (int \<times> dsm_context \<times> 's net) outcome" where
  "bench_loop peer cfg [] lcg c w = Ret (0, c, w)"
| "bench_loop peer cfg (i # is) lcg c w =
     (let lcg = lcg_next lcg in
      bind_oc (pick_page cfg (lcg_value lcg)) (\<lambda>page_id.
      let lcg = lcg_next lcg;
          is_write = (lcg_value lcg mod 100 < ucast (cc_write_percent cfg)) in
      bind_oc (dsm_access_page peer c page_id (if is_write then 1 else 0) w) (\<lambda>(r, c, w).
      bind_oc (idx (page_table c) (unat page_id)) (\<lambda>e.
      if r = None \<and> location e = LOC_REMOTE then Ret (1, c, w)
      else bind_oc
        (case r of None \<Rightarrow> Ret c
         | Some ptr \<Rightarrow>
             if is_write then store_bytes c ptr [of_nat i]
             else bind_oc (load_bytes c ptr 1) (\<lambda>_. Ret c))
        (\<lambda>c. bench_loop peer cfg is lcg c w)))))"

definition run_benchmark ::
  "'s peer \<Rightarrow> dsm_context \<Rightarrow> dsm_client_config \<Rightarrow> 's net \<Rightarrow> (int \<times> dsm_context \<times> 's net) outcome" where
  "run_benchmark peer c cfg w =
     bind_oc (init_locations [0..<unat (cc_num_virtual_pages cfg)] (cc_num_pages cfg) c) (\<lambda>c.
     bench_loop peer cfg [0..<unat (cc_num_iterations cfg)] LCG_SEED c w)"

paragraph \<open>The verification run\<close>

definition pattern :: "u32 \<Rightarrow> bytes" where
  "pattern p = map (\<lambda>i. ucast (and (p * 2654435761 + of_nat i) 0xFF)) [0..<PAGE_SIZE]"

fun verify_write :: "'s peer \<Rightarrow> nat list \<Rightarrow> dsm_context \<Rightarrow> 's net \<Rightarrow> (int \<times> dsm_context \<times> 's net) outcome" where
  "verify_write peer [] c w = Ret (0, c, w)"
| "verify_write peer (p # ps) c w =
     bind_oc (dsm_access_page peer c (of_nat p) 1 w) (\<lambda>(r, c, w).
     case r of None \<Rightarrow> Ret (1, c, w)
     | Some ptr \<Rightarrow> bind_oc (store_bytes c ptr (pattern (of_nat p))) (\<lambda>c. verify_write peer ps c w))"

fun verify_read :: "'s peer \<Rightarrow> nat list \<Rightarrow> dsm_context \<Rightarrow> 's net \<Rightarrow> (int \<times> dsm_context \<times> 's net) outcome" where
  "verify_read peer [] c w = Ret (0, c, w)"
| "verify_read peer (p # ps) c w =
     bind_oc (dsm_access_page peer c (of_nat p) 0 w) (\<lambda>(r, c, w).
     case r of None \<Rightarrow> Ret (1, c, w)
     | Some ptr \<Rightarrow> bind_oc (load_page c ptr) (\<lambda>d.
         if d \<noteq> pattern (of_nat p) then Ret (1, c, w) else verify_read peer ps c w))"

definition run_verify ::
  "'s peer \<Rightarrow> dsm_context \<Rightarrow> dsm_client_config \<Rightarrow> 's net \<Rightarrow> (int \<times> dsm_context \<times> 's net) outcome" where
  "run_verify peer c cfg w =
     bind_oc (verify_write peer [0..<unat (cc_num_virtual_pages cfg)] c w) (\<lambda>(rc, c, w).
     if rc \<noteq> 0 then Ret (rc, c, w) else verify_read peer [0..<unat (cc_num_virtual_pages cfg)] c w)"

paragraph \<open>main\<close>

text \<open>
  The exit status. \<open>conn\<close> is what connecting returns, \<open>alloc\<close> says which blocks the
  allocator grants, and \<open>w\<close> is the connection that is made.
\<close>

definition client_run ::
  "'s peer \<Rightarrow> int \<Rightarrow> (block \<Rightarrow> bool) \<Rightarrow> dsm_client_config \<Rightarrow> 's net \<Rightarrow> int outcome" where
  "client_run peer conn alloc cfg w =
     (if conn < 0 then Ret 1
      else case fst (dsm_create_context alloc (cc_num_pages cfg) (cc_num_virtual_pages cfg)) of
        None \<Rightarrow> Ret 1
      | Some ctx \<Rightarrow>
          (let ctx = ctx\<lparr>sock_fd := conn\<rparr> in
           bind_oc (if cc_verify_mode cfg then run_verify peer ctx cfg w else run_benchmark peer ctx cfg w)
             (\<lambda>(exit_code, ctx, w). Ret exit_code)))"

definition client_main ::
  "'s peer \<Rightarrow> (string \<Rightarrow> string option) \<Rightarrow> option_list \<Rightarrow> bool \<Rightarrow> (nat \<Rightarrow> conn_ans list) \<Rightarrow> (block \<Rightarrow> bool) \<Rightarrow>
     's net \<Rightarrow> int outcome" where
  "client_main peer env opts resolved ans alloc w =
     (case client_options opts (dsm_client_config_from_env env dsm_client_config_default) of
        Inl status \<Rightarrow> Ret status
      | Inr cfg \<Rightarrow>
          (case client_validate cfg of Inl status \<Rightarrow> Ret status
           | Inr cfg \<Rightarrow>
               client_run peer (fst (connect_to_server resolved ans MAX_RETRY_ATTEMPTS)) alloc cfg w))"

text \<open>The delays of \<open>n\<close> failed attempts.\<close>

definition backoff :: "nat \<Rightarrow> int list" where
  "backoff n = map (\<lambda>k. INITIAL_RETRY_DELAY_MS * 2 ^ k) [0..<n]"

text \<open>
  A context in which nothing was ever fetched. The benchmark's own marking of pages keeps it, and
  so does an access over a connection on which every \<open>send\<close> fails.
\<close>

definition untouched :: "u32 \<Rightarrow> dsm_context \<Rightarrow> bool" where
  "untouched np c \<longleftrightarrow> pager_inv {} c \<and> free_list_top c \<noteq> 0 \<and> dsm_context_get_stats c = (0, 0, 0) \<and> 0 \<le> sock_fd c \<and>
     (\<forall>p < num_virtual_pages c. valid (pte c p) = 0) \<and> (\<forall>p < np. location (pte c p) = LOC_LOCAL)"

text \<open>The time the benchmark reports is exact for more than five centuries of uptime.\<close>

lemma elapsed_ns:
  assumes "unat s1 * 1000000000 + unat n1 \<le> unat s2 * 1000000000 + unat n2" and "unat s2 * 1000000000 + unat n2 < 2 ^ 64"
  shows "unat (now_ns s2 n2 - now_ns s1 n1) = (unat s2 * 1000000000 + unat n2) - (unat s1 * 1000000000 + unat n1)"
proof -
  have e: "unat (now_ns s n) = unat s * 1000000000 + unat n" if "unat s * 1000000000 + unat n < 2 ^ 64" for s n
    using that by (simp add: now_ns_def unat_word_ariths)
  have "unat (now_ns s1 n1) = unat s1 * 1000000000 + unat n1" "unat (now_ns s2 n2) = unat s2 * 1000000000 + unat n2"
    using assms by (simp_all add: e del: power_numeral)
  then show ?thesis
    using assms(1) by (simp add: unat_sub word_le_nat_alt)
qed

lemma client_validate_ok:
  "client_validate cfg0 = Inr cfg \<Longrightarrow>
     cc_num_pages cfg \<noteq> 0 \<and> cc_num_virtual_pages cfg \<noteq> 0 \<and> cc_num_pages cfg \<le> cc_num_virtual_pages cfg"
  by (auto simp: client_validate_def Let_def split: if_splits)

subsection \<open>Connecting\<close>

lemma try_addresses_None:
  "fst (try_addresses as closed) = None \<longleftrightarrow> (\<forall>fd. Conn fd True \<notin> set as)"
  by (induction as closed rule: try_addresses.induct) auto

lemma try_addresses_Some:
  "fst (try_addresses as closed) = Some fd \<Longrightarrow> Conn fd True \<in> set as"
  by (induction as closed rule: try_addresses.induct) (auto split: if_splits)

lemma connect_attempts_fail:
  assumes "\<forall>a \<in> {attempt..<attempt + n}. \<forall>fd. Conn fd True \<notin> set (ans a)"
  shows "\<exists>cl. connect_attempts n attempt ans d closed slept = (-1, cl, slept @ map (\<lambda>k. d * 2 ^ k) [0..<n - 1])"
  using assms
proof (induction n arbitrary: attempt d closed slept)
  case (Suc n)
  then have "fst (try_addresses (ans attempt) closed) = None"
    by (simp add: try_addresses_None)
  then obtain cl where t: "try_addresses (ans attempt) closed = (None, cl)"
    by (cases "try_addresses (ans attempt) closed") auto
  have rest: "\<forall>a \<in> {Suc attempt..<Suc attempt + n}. \<forall>fd. Conn fd True \<notin> set (ans a)"
    using Suc.prems by auto
  show ?case
  proof (cases n)
    case 0
    with t show ?thesis by simp
  next
    case (Suc m)
    have "[0..<Suc m] = 0 # map Suc [0..<m]"
      by (simp add: upt_conv_Cons map_Suc_upt del: upt_Suc)
    then have "map (\<lambda>k. d * 2 ^ k) [0..<Suc m] = d # map (\<lambda>k. d * 2 * 2 ^ k) [0..<m]"
      by (simp add: comp_def mult.assoc del: upt_Suc)
    with Suc t Suc.IH [OF rest, of "d * 2" cl "slept @ [d]"] show ?thesis
      by (simp del: upt_Suc)
  qed
qed simp

lemma connect_attempts_succeed:
  assumes "a < n" and "\<forall>b < a. \<forall>fd. Conn fd True \<notin> set (ans (attempt + b))"
    and "\<exists>fd. Conn fd True \<in> set (ans (attempt + a))"
  shows "\<exists>fd cl. connect_attempts n attempt ans d closed slept = (fd, cl, slept @ map (\<lambda>k. d * 2 ^ k) [0..<a]) \<and>
    Conn fd True \<in> set (ans (attempt + a))"
  using assms
proof (induction n arbitrary: a attempt d closed slept)
  case (Suc n)
  obtain r cl where t: "try_addresses (ans attempt) closed = (r, cl)"
    by (cases "try_addresses (ans attempt) closed")
  show ?case
  proof (cases a)
    case 0
    with Suc.prems(3) t obtain fd where "r = Some fd"
      using try_addresses_None [of "ans attempt" closed] by auto
    with t 0 show ?thesis
      using try_addresses_Some [of "ans attempt" closed fd] by simp
  next
    case (Suc b)
    then have "r = None"
      using Suc.prems(2) t try_addresses_None [of "ans attempt" closed] by auto
    have "[0..<Suc b] = 0 # map Suc [0..<b]"
      by (simp add: upt_conv_Cons map_Suc_upt del: upt_Suc)
    then have "map (\<lambda>k. d * 2 ^ k) [0..<Suc b] = d # map (\<lambda>k. d * 2 * 2 ^ k) [0..<b]"
      by (simp add: comp_def mult.assoc del: upt_Suc)
    moreover have "b < n" "\<forall>c < b. \<forall>fd. Conn fd True \<notin> set (ans (Suc attempt + c))"
      "\<exists>fd. Conn fd True \<in> set (ans (Suc attempt + b))"
      using Suc.prems Suc by (auto dest: spec [of _ "Suc _"])
    ultimately show ?thesis
      using Suc.IH [of b "Suc attempt" "d * 2" cl "slept @ [d]"] t \<open>r = None\<close> Suc by (simp del: upt_Suc)
  qed
qed simp

subsection \<open>Choosing pages\<close>

lemma init_locations_total:
  "\<forall>i \<in> set is. i < length (page_table c) \<Longrightarrow> \<exists>c'. init_locations is np c = Ret c'"
  by (induction "is" np c rule: init_locations.induct) (simp_all add: idx_def set_pte_def)

lemma pick_page_ok:
  assumes "0 < cc_num_pages cfg" and "cc_num_pages cfg < cc_num_virtual_pages cfg"
  shows "\<exists>p. pick_page cfg r = Ret p \<and> p < cc_num_virtual_pages cfg"
proof -
  let ?np = "cc_num_pages cfg" and ?nv = "cc_num_virtual_pages cfg"
  have d: "?nv - ?np \<noteq> 0" and n: "?np \<noteq> 0" using assms by auto
  have "r mod (?nv - ?np) < ?nv - ?np"
    by (rule word_mod_less_divisor) (use d word_greater_zero_iff in blast)
  then have "?np + r mod (?nv - ?np) < ?nv"
    using assms(2) by (simp add: word_less_nat_alt unat_sub unat_word_ariths word_le_nat_alt unat_mod)
  moreover have "r mod ?np < ?nv"
    using assms word_mod_less_divisor [of ?np r] by simp
  ultimately show ?thesis
    using d n by (simp add: pick_page_def umod_def)
qed

lemma init_locations_books:
  "init_locations is np c = Ret c' \<Longrightarrow> books c' = books c \<and> total_accesses c' = total_accesses c"
  by (induction "is" np c rule: init_locations.induct) (auto simp: outcome_simps)

lemma init_locations_untouched:
  assumes "untouched np c" and "\<forall>i \<in> set is. i < unat (num_virtual_pages c)"
  shows "\<exists>c'. init_locations is np c = Ret c' \<and> untouched np c' \<and> num_virtual_pages c' = num_virtual_pages c"
  using assms
proof (induction "is" np c rule: init_locations.induct)
  case (2 i "is" np c)
  let ?e = "(page_table c ! i)\<lparr>location := if of_nat i < np then LOC_LOCAL else LOC_REMOTE\<rparr>"
  let ?c = "set_pte (of_nat i) ?e c"
  have inv: "pager_inv {} c" using 2(2) by (simp add: untouched_def)
  have i: "i < length (page_table c)" "unat (of_nat i :: u32) = i"
    using 2(3) inv unat_u32_less [of "num_virtual_pages c"]
    by (auto simp: pager_inv_defs intro!: unat_of_nat_u32)
  have "pager_inv {} ?c"
    using inv i by (intro pager_inv_bits) simp_all
  then have "untouched np ?c"
    using 2(2) i by (auto simp: untouched_def set_pte_def nth_list_update dsm_context_get_stats_def)
  from 2(1) [OF this] 2(3) i show ?case
    by (simp add: set_pte_def)
qed simp

lemma access_untouched:
  assumes c: "untouched np c" and p: "p < num_virtual_pages c" and w: "kern w = (\<lambda>_. [Fail])"
  shows "\<exists>w'. dsm_access_page peer c p wr w = Ret (None, c, w') \<and> kern w' = (\<lambda>_. [Fail])"
proof -
  have inv: "pager_inv {} c" and top: "free_list_top c \<noteq> 0" and fd: "0 \<le> sock_fd c" and v: "valid (pte c p) = 0"
    using c p by (auto simp: untouched_def)
  note g = get_free_frame_take [OF inv top]
  let ?f = "free_list c ! unat (free_list_top c - 1)" and ?c = "c\<lparr>free_list_top := free_list_top c - 1\<rparr>"
  have f: "?f \<noteq> DSM_NO_FRAME" by (rule frame_not_NO_FRAME [OF g(2)])
  have get: "dsm_rpc_get peer (sock_fd ?c) p w = Ret (-1, [], called w)"
    using fd w by (simp add: dsm_rpc_get_def dsm_send_full_def answers_def header_bytes_def)
  have st: "store_bytes ?c (frame_to_ptr ?f) [] = Ret ?c"
    using store_bytes_frame(1) [OF g(4) pager_inv_held(1) [OF g(4)], of "[]"] by simp
  have "push_free_frame ?f ?c = Ret c"
    using push_free_frame_give(1) [OF g(4)] by simp
  then show ?thesis
    using v f get st g(1) fd w pager_inv_less(2) [OF inv p]
    by (simp add: dsm_access_page_def dsm_access_page_slow_def Let_def called_def)
qed

lemma bench_loop_untouched:
  assumes "untouched (cc_num_pages cfg) c" and "kern w = (\<lambda>_. [Fail])" and "cc_locality_percent cfg = 100"
    and "0 < cc_num_pages cfg" and "cc_num_pages cfg \<le> num_virtual_pages c"
  shows "\<exists>w'. bench_loop peer cfg is lcg c w = Ret (0, c, w')"
  using assms(2)
proof (induction "is" arbitrary: lcg w)
  case (Cons i "is")
  let ?l = "lcg_next lcg" and ?np = "cc_num_pages cfg"
  let ?wr = "lcg_value (lcg_next ?l) mod 100 < ucast (cc_write_percent cfg)" and ?p = "lcg_value ?l mod ?np"
  have "lcg_value ?l mod 100 < (100 :: u32)" by (rule word_mod_less_divisor) simp
  then have pick: "pick_page cfg (lcg_value ?l) = Ret ?p"
    using assms(3,4) by (simp add: pick_page_def umod_def)
  have p: "?p < ?np" by (rule word_mod_less_divisor [OF assms(4)])
  then have pv: "?p < num_virtual_pages c" using assms(5) by simp
  obtain w1 where a: "dsm_access_page peer c ?p (if ?wr then 1 else 0) w = Ret (None, c, w1)" "kern w1 = (\<lambda>_. [Fail])"
    using access_untouched [OF assms(1) pv Cons.prems] by blast
  have "location (pte c ?p) \<noteq> LOC_REMOTE" "unat ?p < length (page_table c)"
    using assms(1) p pager_inv_less(2) pv by (auto simp: untouched_def LOC_LOCAL_def LOC_REMOTE_def)
  with Cons.IH [OF a(2)] pick a(1) show ?case
    by (simp add: Let_def)
qed simp

subsection \<open>Running over a lawful server\<close>

context page_peer
begin

lemma init_locations_ok:
  assumes "linked ready store c w V" and "\<forall>p < num_virtual_pages c. valid (pte c p) = 0"
    and "\<forall>i \<in> set is. i < unat (num_virtual_pages c)"
  shows "\<exists>c'. init_locations is np c = Ret c' \<and> linked ready store c' w V \<and> same_dims c c'"
  using assms
proof (induction "is" np c rule: init_locations.induct)
  case (2 i "is" np c)
  let ?e = "(page_table c ! i)\<lparr>location := if of_nat i < np then LOC_LOCAL else LOC_REMOTE\<rparr>"
  let ?c = "set_pte (of_nat i) ?e c"
  have inv: "pager_inv {} c" using 2(2) by (simp add: linked_def)
  have i: "i < length (page_table c)" "unat (of_nat i :: u32) = i"
    using 2(4) inv unat_u32_less [of "num_virtual_pages c"]
    by (auto simp: pager_inv_defs intro!: unat_of_nat_u32)
  have "pager_inv {} ?c"
    using inv i by (intro pager_inv_bits) simp_all
  moreover have "represents ?c S V" if "represents c S V" for S
    using that 2(3) i by (auto simp: represents_defs set_pte_def nth_list_update)
  ultimately have "linked ready store ?c w V"
    using 2(2) by (simp add: linked_def net_ok_def set_pte_def)
  moreover have "\<forall>p < num_virtual_pages ?c. valid (pte ?c p) = 0"
    using 2(3) i by (auto simp: set_pte_def nth_list_update)
  moreover have "\<forall>j \<in> set is. j < unat (num_virtual_pages ?c)"
    using 2(4) by (simp add: set_pte_def)
  ultimately obtain c' where "init_locations is np ?c = Ret c'" "linked ready store c' w V" "same_dims ?c c'"
    using 2(1) by blast
  with i show ?case
    by (simp add: same_dims_def set_pte_def)
qed (auto simp: same_dims_def)

lemma bench_loop_ok:
  assumes "linked ready store c w V" and "num_virtual_pages c = cc_num_virtual_pages cfg" and "prefetch_count c = 4"
    and "0 < cc_num_pages cfg" and "cc_num_pages cfg < cc_num_virtual_pages cfg"
  shows "\<exists>c' w' V' k. bench_loop peer cfg is lcg c w = Ret (0, c', w') \<and> linked ready store c' w' V' \<and> same_dims c c' \<and>
    books c' = books c \<and> total_accesses c' = total_accesses c + of_nat k \<and> length is \<le> k \<and> k \<le> 5 * length is"
  using assms(1-3)
proof (induction "is" arbitrary: lcg c w V)
  case (Cons i "is")
  let ?l = "lcg_next lcg"
  let ?wr = "lcg_value (lcg_next ?l) mod 100 < ucast (cc_write_percent cfg)"
  obtain p where p: "pick_page cfg (lcg_value ?l) = Ret p" "p < num_virtual_pages c"
    using pick_page_ok [OF assms(4,5)] Cons.prems(2) by auto
  obtain c1 w1 where a: "dsm_access_page peer c p (if ?wr then 1 else 0) w
      = Ret (Some (frame_to_ptr (frame_number (pte c1 p))), c1, w1)"
    "linked ready store c1 w1 V" "same_dims c c1" "valid (pte c1 p) \<noteq> 0" "?wr \<Longrightarrow> dirty (pte c1 p) \<noteq> 0"
    using access_page_ok [OF Cons.prems(1) p(2), of "if ?wr then 1 else 0"] by (auto split: if_splits)
  obtain j where j: "books c1 = books c" "total_accesses c1 = total_accesses c + of_nat (Suc j)" "j \<le> 4"
    using access_page_books [OF _ p(2) _ a(1)] Cons.prems(1,3) by (auto simp: linked_def net_ok_def)
  have p1: "p < num_virtual_pages c1" using p(2) a(3) by (simp add: same_dims_def)
  have ix: "unat p < length (page_table c1)"
    using a(2) p1 pager_inv_less(2) by (auto simp: linked_def)
  have "\<exists>c2 V2. (if ?wr then store_bytes c1 (frame_to_ptr (frame_number (pte c1 p))) [of_nat i]
      else bind_oc (load_bytes c1 (frame_to_ptr (frame_number (pte c1 p))) 1) (\<lambda>_. Ret c1)) = Ret c2 \<and>
      linked ready store c2 w1 V2 \<and> same_dims c1 c2 \<and> books c2 = books c1 \<and> total_accesses c2 = total_accesses c1"
  proof (cases ?wr)
    case True
    from store_linked [OF a(2) p1 a(4) a(5) [OF True], of 0 "[of_nat i]"] True show ?thesis
      by (auto simp: PAGE_SIZE_def dest: store_bytes_books)
  next
    case False
    with load_bytes_linked [OF a(2) p1 a(4), of 0 1] a(2) show ?thesis
      by (auto simp: PAGE_SIZE_def)
  qed
  then obtain c2 V2 where c2: "(if ?wr then store_bytes c1 (frame_to_ptr (frame_number (pte c1 p))) [of_nat i]
      else bind_oc (load_bytes c1 (frame_to_ptr (frame_number (pte c1 p))) 1) (\<lambda>_. Ret c1)) = Ret c2"
    "linked ready store c2 w1 V2" "same_dims c1 c2" "books c2 = books c1" "total_accesses c2 = total_accesses c1"
    by blast
  have "num_virtual_pages c2 = cc_num_virtual_pages cfg" "prefetch_count c2 = 4"
    using c2(3) a(3) Cons.prems(2,3) by (simp_all add: same_dims_def)
  from Cons.IH [OF c2(2) this, of "lcg_next ?l"] obtain c' w' V' k where
    "bench_loop peer cfg is (lcg_next ?l) c2 w1 = Ret (0, c', w')" "linked ready store c' w' V'" "same_dims c2 c'" "books c' = books c2"
    "total_accesses c' = total_accesses c2 + of_nat k" "length is \<le> k" "k \<le> 5 * length is"
    by blast
  with p(1) a(1) ix c2(1,4,5) j same_dims_trans [OF same_dims_trans [OF a(3) c2(3)]] show ?case
    by (intro exI [of _ c'] exI [of _ w'] exI [of _ V'] exI [of _ "Suc j + k"]) (simp add: Let_def)
qed auto

lemma run_benchmark_ok:
  assumes l: "linked ready store c w V" and "\<forall>p < num_virtual_pages c. valid (pte c p) = 0"
    and nv: "num_virtual_pages c = cc_num_virtual_pages cfg" and pc: "prefetch_count c = 4"
    and np: "0 < cc_num_pages cfg" "cc_num_pages cfg < cc_num_virtual_pages cfg"
  shows "\<exists>c' w' k. run_benchmark peer c cfg w = Ret (0, c', w') \<and> pager_inv {} c' \<and> same_dims c c' \<and>
    books c' = books c \<and> total_accesses c' = total_accesses c + of_nat k \<and>
    unat (cc_num_iterations cfg) \<le> k \<and> k \<le> 5 * unat (cc_num_iterations cfg)"
proof -
  let ?is = "[0..<unat (cc_num_iterations cfg)]"
  obtain c1 where c1: "init_locations [0..<unat (cc_num_virtual_pages cfg)] (cc_num_pages cfg) c = Ret c1"
    "linked ready store c1 w V" "same_dims c c1"
    using init_locations_ok [OF l assms(2), of "[0..<unat (cc_num_virtual_pages cfg)]" "cc_num_pages cfg"] nv by auto
  have "num_virtual_pages c1 = cc_num_virtual_pages cfg" "prefetch_count c1 = 4"
    using c1(3) nv pc by (simp_all add: same_dims_def)
  from bench_loop_ok [OF c1(2) this np, of ?is LCG_SEED] c1(1,3) init_locations_books [OF c1(1)] show ?thesis
    by (auto simp: run_benchmark_def linked_def intro: same_dims_trans)
qed

lemma mem_write_all: "length m = length bs \<Longrightarrow> mem_write m 0 bs = bs"
  by (simp add: mem_write_def)

lemma length_pattern [simp]: "length (pattern p) = PAGE_SIZE"
  by (simp add: pattern_def)

lemma verify_write_ok:
  assumes "linked ready store c w V" and "\<forall>p \<in> set ps. p < unat (num_virtual_pages c)"
  shows "\<exists>c' w'. verify_write peer ps c w = Ret (0, c', w') \<and> same_dims c c' \<and>
    linked ready store c' w' (\<lambda>q. if unat q \<in> set ps then pattern q else V q)"
  using assms
proof (induction ps arbitrary: c w V)
  case (Cons p ps)
  have p: "unat (of_nat p :: u32) = p" "(of_nat p :: u32) < num_virtual_pages c"
    using Cons.prems(2) unat_u32_less [of "num_virtual_pages c"]
    by (auto simp: word_less_nat_alt unat_of_nat_u32)
  obtain c1 w1 where a: "dsm_access_page peer c (of_nat p) 1 w
      = Ret (Some (frame_to_ptr (frame_number (pte c1 (of_nat p)))), c1, w1)"
    "linked ready store c1 w1 V" "same_dims c c1" "valid (pte c1 (of_nat p)) \<noteq> 0" "dirty (pte c1 (of_nat p)) \<noteq> 0"
    using access_page_ok [OF Cons.prems(1) p(2), of 1] by auto
  have p1: "(of_nat p :: u32) < num_virtual_pages c1" using p(2) a(3) by (simp add: same_dims_def)
  let ?V = "V(of_nat p := pattern (of_nat p))"
  have "mem_write (V (of_nat p)) 0 (pattern (of_nat p)) = pattern (of_nat p)"
    by (rule mem_write_all) (simp add: linked_length [OF a(2) p1])
  then obtain c2 where c2: "store_bytes c1 (frame_to_ptr (frame_number (pte c1 (of_nat p)))) (pattern (of_nat p)) = Ret c2"
    "linked ready store c2 w1 ?V" "same_dims c1 c2"
    using store_linked [OF a(2) p1 a(4,5), of 0 "pattern (of_nat p)"] by auto
  have "\<forall>q \<in> set ps. q < unat (num_virtual_pages c2)"
    using Cons.prems(2) a(3) c2(3) by (simp add: same_dims_def)
  from Cons.IH [OF c2(2) this] obtain c3 w3 where c3: "verify_write peer ps c2 w1 = Ret (0, c3, w3)" "same_dims c2 c3"
    "linked ready store c3 w3 (\<lambda>q. if unat q \<in> set ps then pattern q else ?V q)"
    by blast
  have "(\<lambda>q. if unat q \<in> set ps then pattern q else ?V q) = (\<lambda>q. if unat q \<in> set (p # ps) then pattern q else V q)"
    using p(1) by (auto simp: fun_eq_iff)
  with a(1,3) c2(1,3) c3 show ?case
    by (simp add: same_dims_def)
qed (simp add: same_dims_def)

lemma verify_read_ok:
  assumes "linked ready store c w V" and "\<forall>p \<in> set ps. p < unat (num_virtual_pages c) \<and> V (of_nat p) = pattern (of_nat p)"
  shows "\<exists>c' w'. verify_read peer ps c w = Ret (0, c', w') \<and> linked ready store c' w' V"
  using assms
proof (induction ps arbitrary: c w)
  case (Cons p ps)
  have p: "(of_nat p :: u32) < num_virtual_pages c"
    using Cons.prems(2) unat_u32_less [of "num_virtual_pages c"]
    by (auto simp: word_less_nat_alt unat_of_nat_u32)
  obtain c1 w1 where a: "dsm_access_page peer c (of_nat p) 0 w
      = Ret (Some (frame_to_ptr (frame_number (pte c1 (of_nat p)))), c1, w1)"
    "linked ready store c1 w1 V" "same_dims c c1" "valid (pte c1 (of_nat p)) \<noteq> 0"
    using access_page_ok [OF Cons.prems(1) p, of 0] by auto
  have p1: "(of_nat p :: u32) < num_virtual_pages c1" using p a(3) by (simp add: same_dims_def)
  have "\<forall>q \<in> set ps. q < unat (num_virtual_pages c1) \<and> V (of_nat q) = pattern (of_nat q)"
    using Cons.prems(2) a(3) by (simp add: same_dims_def)
  from Cons.IH [OF a(2) this] load_linked [OF a(2) p1 a(4)] a(1) Cons.prems(2) show ?case
    by auto
qed auto

lemma run_verify_ok:
  assumes "linked ready store c w V" and "num_virtual_pages c = cc_num_virtual_pages cfg"
  shows "\<exists>c' w'. run_verify peer c cfg w = Ret (0, c', w')"
proof -
  let ?ps = "[0..<unat (cc_num_virtual_pages cfg)]"
  obtain c1 w1 where 1: "verify_write peer ?ps c w = Ret (0, c1, w1)" "same_dims c c1"
    "linked ready store c1 w1 (\<lambda>q. if unat q \<in> set ?ps then pattern q else V q)"
    using verify_write_ok [OF assms(1), of ?ps] assms(2) by auto
  have "unat (of_nat p :: u32) = p" if "p \<in> set ?ps" for p
    using that unat_u32_less [of "cc_num_virtual_pages cfg"] by (simp add: unat_of_nat_u32)
  with verify_read_ok [OF 1(3), of ?ps] 1(1,2) assms(2) show ?thesis
    by (auto simp: run_verify_def same_dims_def)
qed

end

subsection \<open>Properties\<close>

text \<open>
  Connecting retries with exponential backoff: the first attempt in which an address
  accepts gives the descriptor, after sleeps of 100, 200, 400, ... milliseconds for the
  attempts before it; if none of the \<open>n\<close> attempts succeeds the result is -1 after \<open>n - 1\<close>
  sleeps.
\<close>

lemma connect_backoff:
  assumes "\<forall>b < a. \<forall>fd. Conn fd True \<notin> set (ans b)"
  shows "(n \<le> a \<longrightarrow> (\<exists>cl. connect_to_server True ans n = (-1, cl, backoff (n - 1)))) \<and>
    (a < n \<and> (\<exists>fd. Conn fd True \<in> set (ans a)) \<longrightarrow>
      (\<exists>fd cl. connect_to_server True ans n = (fd, cl, backoff a) \<and> Conn fd True \<in> set (ans a)))"
  using connect_attempts_fail [of 0 n ans INITIAL_RETRY_DELAY_MS "[]" "[]"]
    connect_attempts_succeed [of a n ans 0 INITIAL_RETRY_DELAY_MS "[]" "[]"] assms
  by (auto simp: connect_to_server_def backoff_def)



text \<open>
  C26. The benchmark hides failures. It takes a missing page for a failure only if the page is
  marked remote, and it has marked the first \<open>num_pages\<close> pages local itself. With a
  locality of 100 percent and a connection on which every transmission fails it makes no
  successful access at all, counts nothing, and still ends with status 0.
\<close>

theorem benchmark_hides_failures:
  assumes "dsm_create_context alloc (cc_num_pages cfg) (cc_num_virtual_pages cfg) = (Some c, held)" and "0 \<le> fd"
    and "client_validate cfg = Inr cfg" and "cc_locality_percent cfg = 100" and "kern w = (\<lambda>_. [Fail])"
  shows "\<exists>c' w'. run_benchmark peer (dsm_context_set_socket c fd) cfg w = Ret (0, c', w') \<and>
    dsm_context_get_stats c' = (0, 0, 0)"
proof -
  let ?c = "dsm_context_set_socket c fd" and ?np = "cc_num_pages cfg" and ?nv = "cc_num_virtual_pages cfg"
  have np: "?np \<noteq> 0" "c = fresh_context ?np ?nv" and le: "?np \<le> ?nv"
    using create_context_Some [OF assms(1)] client_validate_ok [OF assms(3)] by simp_all
  have entry: "pte ?c p = \<lparr>frame_number = 0, valid = 0, reference_bit = 0, dirty = 0, location = 0\<rparr>" if "p < ?nv" for p
    using that by (simp add: np(2) dsm_context_set_socket_def fresh_context_def word_less_nat_alt)
  have "untouched ?np ?c"
    using fresh_kept(1,5,7) [OF assms(1), of fd] np entry le assms(2)
    by (auto simp: untouched_def dsm_context_get_stats_def LOC_LOCAL_def)
      (auto simp: dsm_context_set_socket_def fresh_context_def)
  then obtain c1 where c1: "init_locations [0..<unat ?nv] ?np ?c = Ret c1" "untouched ?np c1" "num_virtual_pages c1 = ?nv"
    using init_locations_untouched [of ?np ?c "[0..<unat ?nv]"] fresh_kept(5) [OF assms(1), of fd] by auto
  from bench_loop_untouched [OF c1(2) assms(5,4), of peer "[0..<unat (cc_num_iterations cfg)]" LCG_SEED] c1 le np(1)
  show ?thesis
    by (auto simp: run_benchmark_def untouched_def word_neq_0_conv)
qed

theorem benchmark_hides_failures_witness:
  "\<exists>c' w'. run_benchmark (\<lambda>s bs. (s, [])) (dsm_context_set_socket (fresh_context 256 1024) 3)
     (dsm_client_config_default\<lparr>cc_locality_percent := 100\<rparr>) \<lparr>tx = [], rx = [], far = (), kern = \<lambda>_. [Fail], calls = 0\<rparr>
       = Ret (0, c', w') \<and> dsm_context_get_stats c' = (0, 0, 0)"
proof (rule benchmark_hides_failures)
  let ?cfg = "dsm_client_config_default\<lparr>cc_locality_percent := 100\<rparr>"
  show "dsm_create_context (\<lambda>_. True) (cc_num_pages ?cfg) (cc_num_virtual_pages ?cfg)
      = (Some (fresh_context 256 1024), {B_ctx, B_memory, B_page_table, B_frame_table, B_free_list})"
    by (auto simp: dsm_create_context_def Let_def dsm_client_config_default_def)
qed (simp_all add: client_validate_def dsm_client_config_default_def)

end
