(* ===== verification/DSM_Array.thy ===== *)
theory DSM_Array
  imports DSM_Memory
begin

section \<open>Arrays in shared memory (python/dsm.py)\<close>

text \<open>
  The Python layer over the page cache: a context that hands out virtual pages, arrays with
  row-major strides, access to their elements, and the conversions from and to NumPy. The C
  functions are called through \<open>ctypes\<close>, which cuts integers to the width of the parameter
  (\<open>lib_\<close> functions).
  Python integers are \<open>int\<close>, \<open>//\<close> and \<open>%\<close> are \<open>div\<close> and \<open>mod\<close>, exceptions are values of
  \<open>py_error\<close>. A lone index is the list of one index, as \<open>__getitem__\<close> makes it. An element is
  the bytes that \<open>ctypes\<close> stores for it, so that reading an element is a load and assigning
  it a store through the page pointer. NumPy itself is an argument. The results: indices
  and positions correspond one to one, arrays do not share memory, and any program over
  several arrays, connected to a lawful page server, sees independent arrays
  (\<open>run_array_ops\<close> implements \<open>spec_array_ops\<close>).
\<close>

subsection \<open>Definitions\<close>

datatype py_error = RuntimeError | ConnectionError | OSError | MemoryError | IndexError | TypeError | ValueError | ImportError | OverflowError

datatype dtype = Int32 | Int64 | Float32 | Float64 | Uint8

fun elem_size_of :: "dtype \<Rightarrow> int" where
  "elem_size_of Int32 = 4"
| "elem_size_of Int64 = 8"
| "elem_size_of Float32 = 4"
| "elem_size_of Float64 = 8"
| "elem_size_of Uint8 = 1"

definition PY_PAGE_SIZE :: int where "PY_PAGE_SIZE = 4096"

paragraph \<open>The C library\<close>

text \<open>
  The functions of the shared library as \<open>ctypes\<close> calls them: the declared argument types
  \<open>c_uint32\<close>, \<open>c_uint8\<close> and \<open>c_int\<close> reduce a Python integer to their width without a check.
\<close>

definition lib_create_context :: "(block \<Rightarrow> bool) \<Rightarrow> int \<Rightarrow> int \<Rightarrow> dsm_context option \<times> block set" where
  [simp]: "lib_create_context alloc local virtual = dsm_create_context alloc (word_of_int local) (word_of_int virtual)"

definition lib_destroy_context :: "dsm_context \<Rightarrow> block set \<Rightarrow> block set" where
  [simp]: "lib_destroy_context c held = dsm_destroy_context (Some c) held"

definition lib_access_page ::
  "'s peer \<Rightarrow> dsm_context \<Rightarrow> int \<Rightarrow> int \<Rightarrow> 's net \<Rightarrow> (nat option \<times> dsm_context \<times> 's net) outcome" where
  [simp]: "lib_access_page peer c page_id wr w = dsm_access_page peer c (word_of_int page_id) (word_of_int wr) w"

definition lib_prefetch_pages :: "'s peer \<Rightarrow> dsm_context \<Rightarrow> int \<Rightarrow> int \<Rightarrow> 's net \<Rightarrow> (dsm_context \<times> 's net) outcome" where
  [simp]: "lib_prefetch_pages peer c start count w = dsm_prefetch_pages peer c (word_of_int start) (word_of_int count) w"

definition lib_context_set_socket :: "dsm_context \<Rightarrow> int \<Rightarrow> dsm_context" where
  [simp]: "lib_context_set_socket c fd = dsm_context_set_socket c fd"

definition lib_context_get_stats :: "dsm_context \<Rightarrow> u64 \<times> u64 \<times> u64" where
  [simp]: "lib_context_get_stats c = dsm_context_get_stats c"

paragraph \<open>Contexts\<close>

text \<open>
  In \<open>py_ctx\<close> and \<open>py_sock\<close>, \<open>None\<close> is Python's \<open>None\<close>. \<open>py_held\<close> and \<open>py_fds\<close> are what the process
  holds for this object: allocated blocks and open descriptors. \<open>py_open\<close> is the
  constructor; when it raises, the object it leaves behind is still there for \<open>__del__\<close>.
  \<open>sock_ok\<close> and \<open>connect_ok\<close> say whether \<open>socket.socket\<close> and \<open>connect\<close> succeed. \<open>connect\<close> raises an
  \<open>OverflowError\<close>, which is no \<open>socket.error\<close>, for a port that is none; the socket object is then
  collected with the frame of the constructor, which closes it.
\<close>

record py_context =
  py_ctx :: "dsm_context option"
  py_sock :: "int option"
  next_page :: int
  virtual_pages :: int
  py_held :: "block set"
  py_fds :: "int set"

definition py_open ::
  "(block \<Rightarrow> bool) \<Rightarrow> bool \<Rightarrow> bool \<Rightarrow> int \<Rightarrow> int \<Rightarrow> int \<Rightarrow> int \<Rightarrow> (py_error + unit) \<times> py_context" where
  "py_open alloc sock_ok connect_ok fileno port local virtual =
     (let (ctx, held) = lib_create_context alloc local virtual;
          self = \<lparr>py_ctx = None, py_sock = None, next_page = 0, virtual_pages = virtual, py_held = held, py_fds = {}\<rparr>
      in case ctx of None \<Rightarrow> (Inl RuntimeError, self)
         | Some c \<Rightarrow>
             if \<not> sock_ok then (Inl OSError, self)
             else if \<not> (0 \<le> port \<and> port \<le> 65535) then (Inl OverflowError, self)
             else if \<not> connect_ok
             then (Inl ConnectionError, self\<lparr>py_fds := {fileno} - {fileno}, py_held := lib_destroy_context c held\<rparr>)
             else (Inr (), self\<lparr>py_fds := {fileno}, py_ctx := Some (lib_context_set_socket c fileno), py_sock := Some fileno\<rparr>))"

text \<open>The defaults of the constructor's arguments.\<close>

definition PY_DEFAULT_PORT :: int where "PY_DEFAULT_PORT = 9999"

definition py_open_default :: "(block \<Rightarrow> bool) \<Rightarrow> bool \<Rightarrow> bool \<Rightarrow> int \<Rightarrow> (py_error + unit) \<times> py_context" where
  "py_open_default alloc sock_ok connect_ok fileno = py_open alloc sock_ok connect_ok fileno PY_DEFAULT_PORT 256 4096"

definition alloc_pages :: "int \<Rightarrow> py_context \<Rightarrow> py_error + (int \<times> py_context)" where
  "alloc_pages count pc =
     (if py_ctx pc = None then Inl RuntimeError
      else if next_page pc + count > virtual_pages pc then Inl MemoryError
      else Inr (next_page pc, pc\<lparr>next_page := next_page pc + count\<rparr>))"

definition py_access_page ::
  "'s peer \<Rightarrow> int \<Rightarrow> bool \<Rightarrow> py_context \<Rightarrow> 's net \<Rightarrow> ((py_error + nat) \<times> py_context \<times> 's net) outcome" where
  "py_access_page peer page_id write_access pc w =
     (case py_ctx pc of None \<Rightarrow> Ret (Inl RuntimeError, pc, w)
      | Some c \<Rightarrow>
          bind_oc (lib_access_page peer c page_id (of_bool write_access) w) (\<lambda>(r, c, w).
          Ret (case r of None \<Rightarrow> Inl RuntimeError | Some ptr \<Rightarrow> Inr ptr, pc\<lparr>py_ctx := Some c\<rparr>, w)))"

definition py_prefetch :: "'s peer \<Rightarrow> int \<Rightarrow> int \<Rightarrow> py_context \<Rightarrow> 's net \<Rightarrow> ((py_error + unit) \<times> py_context \<times> 's net) outcome" where
  "py_prefetch peer start_page count pc w =
     (case py_ctx pc of None \<Rightarrow> Ret (Inl RuntimeError, pc, w)
      | Some c \<Rightarrow>
          bind_oc (lib_prefetch_pages peer c start_page count w) (\<lambda>(c, w).
          Ret (Inr (), pc\<lparr>py_ctx := Some c\<rparr>, w)))"

definition py_stats :: "py_context \<Rightarrow> py_error + (u64 \<times> u64 \<times> u64)" where
  "py_stats pc =
     (case py_ctx pc of None \<Rightarrow> Inl RuntimeError | Some c \<Rightarrow> Inr (lib_context_get_stats c))"

definition py_close :: "py_context \<Rightarrow> py_context" where
  "py_close pc =
     (let pc = (case py_ctx pc of None \<Rightarrow> pc
                | Some c \<Rightarrow> pc\<lparr>py_held := lib_destroy_context c (py_held pc), py_ctx := None\<rparr>)
      in case py_sock pc of None \<Rightarrow> pc | Some fd \<Rightarrow> pc\<lparr>py_fds := py_fds pc - {fd}, py_sock := None\<rparr>)"

text \<open>
  The context manager. \<open>py_with\<close> is the \<open>with\<close> statement: the body runs between \<open>__enter__\<close> and
  \<open>__exit__\<close>, whose result says whether an exception of the body is dropped.
\<close>

definition py_enter :: "py_context \<Rightarrow> py_context" where
  "py_enter pc = pc"

definition py_exit :: "py_context \<Rightarrow> bool \<times> py_context" where
  "py_exit pc = (False, py_close pc)"

definition py_del :: "py_context \<Rightarrow> py_context" where
  "py_del pc = py_close pc"

definition py_with ::
  "(py_context \<Rightarrow> ((py_error + 'a) \<times> py_context \<times> 's net) outcome) \<Rightarrow> py_context \<Rightarrow>
     ((py_error + 'a option) \<times> py_context \<times> 's net) outcome" where
  "py_with body pc =
     bind_oc (body (py_enter pc)) (\<lambda>(r, pc, w).
       let (dropped, pc) = py_exit pc
       in Ret (case r of Inr x \<Rightarrow> Inr (Some x) | Inl e \<Rightarrow> if dropped then Inr None else Inl e, pc, w))"

paragraph \<open>Arrays\<close>

record array =
  shape :: "int list"
  array_dtype :: dtype
  elem_size :: int
  array_size :: int
  strides :: "int list"
  elems_per_page :: int
  array_pages :: int
  base_page :: int

text \<open>The loop of \<open>_compute_strides\<close>; its argument counts the indices that are left.\<close>

fun stride_loop :: "nat \<Rightarrow> int list \<Rightarrow> int list \<Rightarrow> int list" where
  "stride_loop 0 shp st = st"
| "stride_loop (Suc i) shp st = stride_loop i shp (st[i := st ! Suc i * shp ! Suc i])"

definition compute_strides :: "int list \<Rightarrow> int list" where
  "compute_strides shp = stride_loop (length shp - 1) shp (replicate (length shp) 1)"

definition new_array :: "int list \<Rightarrow> dtype \<Rightarrow> py_context \<Rightarrow> py_error + (array \<times> py_context)" where
  "new_array shp ty pc =
     (let es = elem_size_of ty; size = prod_list shp;
          pgs = - ((- (size * es)) div PY_PAGE_SIZE)
      in case alloc_pages pgs pc of
           Inl e \<Rightarrow> Inl e
         | Inr (base, pc) \<Rightarrow>
             Inr (\<lparr>shape = shp, array_dtype = ty, elem_size = es, array_size = size, strides = compute_strides shp,
                   elems_per_page = PY_PAGE_SIZE div es, array_pages = pgs, base_page = base\<rparr>, pc))"

fun flat_loop :: "(int \<times> int \<times> int) list \<Rightarrow> int \<Rightarrow> py_error + int" where
  "flat_loop [] flat = Inr flat"
| "flat_loop ((i, stride, dim) # rest) flat =
     (let i = (if i < 0 then i + dim else i)
      in if \<not> (0 \<le> i \<and> i < dim) then Inl IndexError else flat_loop rest (flat + i * stride))"

definition flat_index :: "array \<Rightarrow> int list \<Rightarrow> py_error + int" where
  "flat_index a indices =
     (if length indices \<noteq> length (shape a) then Inl IndexError
      else flat_loop (zip indices (zip (strides a) (shape a))) 0)"

definition array_page :: "array \<Rightarrow> int \<Rightarrow> int" where
  "array_page a flat = base_page a + flat div elems_per_page a"

definition array_offset :: "array \<Rightarrow> int \<Rightarrow> int" where
  "array_offset a flat = (flat mod elems_per_page a) * elem_size a"

definition getitem ::
  "'s peer \<Rightarrow> array \<Rightarrow> int list \<Rightarrow> py_context \<Rightarrow> 's net \<Rightarrow> ((py_error + bytes) \<times> py_context \<times> 's net) outcome" where
  "getitem peer a indices pc w =
     (case flat_index a indices of Inl e \<Rightarrow> Ret (Inl e, pc, w)
      | Inr flat \<Rightarrow>
          bind_oc (py_access_page peer (array_page a flat) False pc w) (\<lambda>(r, pc, w).
          case r of Inl e \<Rightarrow> Ret (Inl e, pc, w)
          | Inr ptr \<Rightarrow>
              (case py_ctx pc of None \<Rightarrow> Undef
               | Some c \<Rightarrow> bind_oc (load_bytes c (ptr + nat (array_offset a flat)) (nat (elem_size a))) (\<lambda>v.
                   Ret (Inr v, pc, w)))))"

definition setitem ::
  "'s peer \<Rightarrow> array \<Rightarrow> int list \<Rightarrow> bytes \<Rightarrow> py_context \<Rightarrow> 's net \<Rightarrow> ((py_error + unit) \<times> py_context \<times> 's net) outcome" where
  "setitem peer a indices v pc w =
     (case flat_index a indices of Inl e \<Rightarrow> Ret (Inl e, pc, w)
      | Inr flat \<Rightarrow>
          bind_oc (py_access_page peer (array_page a flat) True pc w) (\<lambda>(r, pc, w).
          case r of Inl e \<Rightarrow> Ret (Inl e, pc, w)
          | Inr ptr \<Rightarrow>
              (case py_ctx pc of None \<Rightarrow> Undef
               | Some c \<Rightarrow> bind_oc (store_bytes c (ptr + nat (array_offset a flat)) v) (\<lambda>c.
                   Ret (Inr (), pc\<lparr>py_ctx := Some c\<rparr>, w)))))"

definition array_len :: "array \<Rightarrow> int" where
  "array_len a = (case shape a of [] \<Rightarrow> 0 | d # _ \<Rightarrow> d)"

paragraph \<open>NumPy conversion\<close>

text \<open>
  \<open>have_np\<close> says whether NumPy can be imported, \<open>np_empty\<close> and \<open>np_set\<close> are its \<open>empty\<close>, which
  fails on a negative dimension, and its item assignment. \<open>unflatten\<close> is the inner loop of
  \<open>to_numpy\<close>. \<open>from_numpy\<close> gets the shape of its argument, its type (\<open>None\<close> if it is not
  one of the five supported), and the items that \<open>nditer\<close> delivers, each with its
  \<open>multi_index\<close>.
\<close>

fun unflatten :: "int list \<Rightarrow> int \<Rightarrow> int list" where
  "unflatten [] remaining = []"
| "unflatten (stride # ss) remaining = remaining div stride # unflatten ss (remaining mod stride)"

fun to_numpy_loop ::
  "('r \<Rightarrow> int list \<Rightarrow> bytes \<Rightarrow> 'r) \<Rightarrow> 's peer \<Rightarrow> array \<Rightarrow> nat list \<Rightarrow> 'r \<Rightarrow> py_context \<Rightarrow> 's net \<Rightarrow>
     ((py_error + 'r) \<times> py_context \<times> 's net) outcome" where
  "to_numpy_loop np_set peer a [] result pc w = Ret (Inr result, pc, w)"
| "to_numpy_loop np_set peer a (flat_idx # rest) result pc w =
     (let indices = unflatten (strides a) (int flat_idx)
      in bind_oc (getitem peer a indices pc w) (\<lambda>(r, pc, w).
         case r of Inl e \<Rightarrow> Ret (Inl e, pc, w)
         | Inr v \<Rightarrow> to_numpy_loop np_set peer a rest (np_set result indices v) pc w))"

definition to_numpy ::
  "bool \<Rightarrow> (int list \<Rightarrow> dtype \<Rightarrow> 'r option) \<Rightarrow> ('r \<Rightarrow> int list \<Rightarrow> bytes \<Rightarrow> 'r) \<Rightarrow>
     's peer \<Rightarrow> array \<Rightarrow> py_context \<Rightarrow> 's net \<Rightarrow> ((py_error + 'r) \<times> py_context \<times> 's net) outcome" where
  "to_numpy have_np np_empty np_set peer a pc w =
     (if \<not> have_np then Ret (Inl ImportError, pc, w)
      else case np_empty (shape a) (array_dtype a) of None \<Rightarrow> Ret (Inl ValueError, pc, w)
      | Some result \<Rightarrow> to_numpy_loop np_set peer a [0..<nat (array_size a)] result pc w)"

fun copy_elements ::
  "'s peer \<Rightarrow> array \<Rightarrow> (int list \<times> bytes) list \<Rightarrow> py_context \<Rightarrow> 's net \<Rightarrow> ((py_error + unit) \<times> py_context \<times> 's net) outcome" where
  "copy_elements peer a [] pc w = Ret (Inr (), pc, w)"
| "copy_elements peer a ((ix, v) # items) pc w =
     bind_oc (setitem peer a ix v pc w) (\<lambda>(r, pc, w).
     case r of Inl e \<Rightarrow> Ret (Inl e, pc, w) | Inr u \<Rightarrow> copy_elements peer a items pc w)"

definition from_numpy ::
  "bool \<Rightarrow> 's peer \<Rightarrow> int list \<Rightarrow> dtype option \<Rightarrow> (int list \<times> bytes) list \<Rightarrow> py_context \<Rightarrow> 's net \<Rightarrow>
     ((py_error + array) \<times> py_context \<times> 's net) outcome" where
  "from_numpy have_np peer np_shape np_dtype items pc w =
     (if \<not> have_np then Ret (Inl ImportError, pc, w)
      else case np_dtype of None \<Rightarrow> Ret (Inl TypeError, pc, w)
      | Some ty \<Rightarrow>
          (case new_array np_shape ty pc of Inl e \<Rightarrow> Ret (Inl e, pc, w)
           | Inr (a, pc) \<Rightarrow>
               bind_oc (copy_elements peer a items pc w) (\<lambda>(r, pc, w).
               Ret (case r of Inl e \<Rightarrow> Inl e | Inr u \<Rightarrow> Inr a, pc, w))))"

paragraph \<open>Programs over arrays\<close>

text \<open>
  A program that uses several arrays: it creates them, then reads and assigns elements of
  the \<open>j\<close>-th one, carrying on after an \<open>IndexError\<close>.
\<close>

fun new_arrays :: "(int list \<times> dtype) list \<Rightarrow> py_context \<Rightarrow> py_error + (array list \<times> py_context)" where
  "new_arrays [] pc = Inr ([], pc)"
| "new_arrays ((shp, ty) # decls) pc =
     (case new_array shp ty pc of Inl e \<Rightarrow> Inl e
      | Inr (a, pc) \<Rightarrow> (case new_arrays decls pc of Inl e \<Rightarrow> Inl e | Inr (as, pc) \<Rightarrow> Inr (a # as, pc)))"

datatype array_op = GetItem nat "int list" | SetItem nat "int list" bytes

fun run_array_op ::
  "'s peer \<Rightarrow> array list \<Rightarrow> array_op \<Rightarrow> py_context \<Rightarrow> 's net \<Rightarrow> ((py_error + bytes) \<times> py_context \<times> 's net) outcome" where
  "run_array_op peer as (GetItem j ix) pc w = getitem peer (as ! j) ix pc w"
| "run_array_op peer as (SetItem j ix v) pc w =
     bind_oc (setitem peer (as ! j) ix v pc w) (\<lambda>(r, pc, w). Ret (map_sum id (\<lambda>_. []) r, pc, w))"

fun run_array_ops ::
  "'s peer \<Rightarrow> array list \<Rightarrow> array_op list \<Rightarrow> py_context \<Rightarrow> 's net \<Rightarrow> ((py_error + bytes) list \<times> py_context \<times> 's net) outcome" where
  "run_array_ops peer as [] pc w = Ret ([], pc, w)"
| "run_array_ops peer as (x # xs) pc w =
     bind_oc (run_array_op peer as x pc w) (\<lambda>(r, pc, w).
     bind_oc (run_array_ops peer as xs pc w) (\<lambda>(rs, pc, w). Ret (r # rs, pc, w)))"

paragraph \<open>What indices and arrays stand for\<close>

text \<open>Indices after the wrap of negative ones, and their position in row-major order.\<close>

fun in_shape :: "int list \<Rightarrow> int list \<Rightarrow> bool" where
  "in_shape [] [] \<longleftrightarrow> True"
| "in_shape (d # ds) (i # is) \<longleftrightarrow> 0 \<le> i \<and> i < d \<and> in_shape ds is"
| "in_shape _ _ \<longleftrightarrow> False"

fun row_major :: "int list \<Rightarrow> int list \<Rightarrow> int" where
  "row_major (d # ds) (i # is) = i * prod_list ds + row_major ds is"
| "row_major _ _ = 0"

fun row_strides :: "int list \<Rightarrow> int list" where
  "row_strides [] = []"
| "row_strides (d # ds) = prod_list ds # row_strides ds"

definition wrap_index :: "int \<Rightarrow> int \<Rightarrow> int" where
  "wrap_index dim i = (if i < 0 then i + dim else i)"

definition wrap :: "array \<Rightarrow> int list \<Rightarrow> int list" where
  "wrap a indices = map2 wrap_index (shape a) indices"

text \<open>An array as \<open>new_array\<close> makes it, inside an address space of \<open>vp\<close> pages.\<close>

definition array_ok :: "int \<Rightarrow> array \<Rightarrow> bool" where
  "array_ok vp a \<longleftrightarrow> elem_size a = elem_size_of (array_dtype a) \<and> array_size a = prod_list (shape a) \<and>
     strides a = row_strides (shape a) \<and> elems_per_page a = PY_PAGE_SIZE div elem_size a \<and>
     array_pages a = - ((- (array_size a * elem_size a)) div PY_PAGE_SIZE) \<and>
     0 \<le> base_page a \<and> base_page a + array_pages a \<le> vp"

definition index_ok :: "array \<Rightarrow> int list \<Rightarrow> bool" where
  "index_ok a ix \<longleftrightarrow> length ix = length (shape a) \<and> in_shape (shape a) (wrap a ix)"

definition position :: "array \<Rightarrow> int list \<Rightarrow> int" where
  "position a ix = row_major (shape a) (wrap a ix)"

text \<open>The bytes of an element in the pages \<open>V\<close>, and whether two elements share no byte.\<close>

definition apart :: "array \<Rightarrow> int \<Rightarrow> array \<Rightarrow> int \<Rightarrow> bool" where
  "apart a k b l \<longleftrightarrow> (word_of_int (array_page a k) :: u32) \<noteq> word_of_int (array_page b l) \<or>
     array_offset a k + elem_size a \<le> array_offset b l \<or> array_offset b l + elem_size b \<le> array_offset a k"

definition element :: "array \<Rightarrow> page_memory \<Rightarrow> int \<Rightarrow> bytes" where
  "element a V k = mem_read (V (word_of_int (array_page a k))) (nat (array_offset a k)) (nat (elem_size a))"

definition store_element :: "array \<Rightarrow> int \<Rightarrow> bytes \<Rightarrow> page_memory \<Rightarrow> page_memory" where
  "store_element a k v V =
     V(word_of_int (array_page a k) := mem_write (V (word_of_int (array_page a k))) (nat (array_offset a k)) v)"

text \<open>
  Arrays as such: the contents of array \<open>j\<close> is a function of its (non-negative) indices.
  \<open>contents\<close> reads it off the pages.
\<close>

type_synonym array_contents = "nat \<Rightarrow> int list \<Rightarrow> bytes"

fun spec_array_op :: "array list \<Rightarrow> array_op \<Rightarrow> array_contents \<Rightarrow> (py_error + bytes) \<times> array_contents" where
  "spec_array_op as (GetItem j ix) M =
     (if index_ok (as ! j) ix then Inr (M j (wrap (as ! j) ix)) else Inl IndexError, M)"
| "spec_array_op as (SetItem j ix v) M =
     (if index_ok (as ! j) ix then (Inr [], M(j := (M j)(wrap (as ! j) ix := v))) else (Inl IndexError, M))"

fun spec_array_ops :: "array list \<Rightarrow> array_op list \<Rightarrow> array_contents \<Rightarrow> (py_error + bytes) list \<times> array_contents" where
  "spec_array_ops as [] M = ([], M)"
| "spec_array_ops as (x # xs) M =
     (let (r, M) = spec_array_op as x M; (rs, M) = spec_array_ops as xs M in (r # rs, M))"

fun array_op_ok :: "array list \<Rightarrow> array_op \<Rightarrow> bool" where
  "array_op_ok as (GetItem j ix) \<longleftrightarrow> j < length as"
| "array_op_ok as (SetItem j ix v) \<longleftrightarrow> j < length as \<and> length v = nat (elem_size (as ! j))"

definition disjoint_arrays :: "array \<Rightarrow> array \<Rightarrow> bool" where
  "disjoint_arrays a b \<longleftrightarrow> base_page a + array_pages a \<le> base_page b \<or> base_page b + array_pages b \<le> base_page a"

definition arrays_ok :: "int \<Rightarrow> array list \<Rightarrow> bool" where
  "arrays_ok vp as \<longleftrightarrow> (\<forall>a \<in> set as. array_ok vp a) \<and> sorted_wrt disjoint_arrays as"

definition contents :: "array list \<Rightarrow> page_memory \<Rightarrow> array_contents \<Rightarrow> bool" where
  "contents as V M \<longleftrightarrow>
     (\<forall>j < length as. \<forall>ix. in_shape (shape (as ! j)) ix \<longrightarrow> M j ix = element (as ! j) V (row_major (shape (as ! j)) ix))"

text \<open>The contents of an array after the assignment of \<open>items\<close>.\<close>

fun assign :: "(int list \<times> bytes) list \<Rightarrow> (int list \<Rightarrow> bytes) \<Rightarrow> int list \<Rightarrow> bytes" where
  "assign [] m = m"
| "assign ((ix, v) # items) m = assign items (m(ix := v))"

text \<open>A Python context whose page cache is connected to a lawful server and shows the pages \<open>V\<close>.\<close>

definition py_linked ::
  "('s \<Rightarrow> bool) \<Rightarrow> ('s \<Rightarrow> u32 \<Rightarrow> bytes) \<Rightarrow> py_context \<Rightarrow> 's net \<Rightarrow> page_memory \<Rightarrow> bool" where
  "py_linked ready store pc w V \<longleftrightarrow>
     (case py_ctx pc of None \<Rightarrow> False
      | Some c \<Rightarrow> linked ready store c w V \<and> virtual_pages pc = uint (num_virtual_pages c))"

text \<open>A small open context.\<close>

definition sample_py :: py_context where
  "sample_py = \<lparr>py_ctx = Some (fresh_context 1 4), py_sock = Some 3, next_page = 0, virtual_pages = 4,
     py_held = {B_ctx, B_memory, B_page_table, B_frame_table, B_free_list}, py_fds = {3}\<rparr>"

text \<open>What element access leaves alone: all of the Python object but the cache.\<close>

definition same_py :: "py_context \<Rightarrow> py_context \<Rightarrow> bool" where
  "same_py pc pc' \<longleftrightarrow> (\<exists>c. pc' = pc\<lparr>py_ctx := Some c\<rparr>)"

subsection \<open>Positions\<close>

lemma stride_loop_length [simp]: "length (stride_loop k shp st) = length st"
  by (induction k shp st rule: stride_loop.induct) simp_all

lemma stride_loop_nth:
  "k < length shp \<Longrightarrow> length st = length shp \<Longrightarrow> \<forall>j. k \<le> j \<longrightarrow> j < length shp \<longrightarrow> st ! j = prod_list (drop (Suc j) shp) \<Longrightarrow>
     j < length shp \<Longrightarrow> stride_loop k shp st ! j = prod_list (drop (Suc j) shp)"
proof (induction k shp st rule: stride_loop.induct)
  case (2 i shp st)
  let ?st = "st[i := st ! Suc i * shp ! Suc i]"
  have "drop (Suc i) shp = shp ! Suc i # drop (Suc (Suc i)) shp"
    using 2(2) by (simp add: Cons_nth_drop_Suc)
  then have "st ! Suc i * shp ! Suc i = prod_list (drop (Suc i) shp)"
    using 2(2,4) by simp
  then have "\<forall>j. i \<le> j \<longrightarrow> j < length shp \<longrightarrow> ?st ! j = prod_list (drop (Suc j) shp)"
    using 2(2-4) by (auto simp: nth_list_update le_Suc_eq Suc_le_eq)
  with 2 show ?case by simp
qed simp

lemma row_strides_nth: "j < length shp \<Longrightarrow> row_strides shp ! j = prod_list (drop (Suc j) shp)"
proof (induction shp arbitrary: j)
  case (Cons d ds)
  then show ?case by (cases j) simp_all
qed simp

lemma length_row_strides [simp]: "length (row_strides shp) = length shp"
  by (induction shp) simp_all

lemma compute_strides_eq: "compute_strides shp = row_strides shp"
proof (cases "shp = []")
  case False
  have "\<forall>j. length shp - 1 \<le> j \<longrightarrow> j < length shp \<longrightarrow>
      replicate (length shp) (1 :: int) ! j = prod_list (drop (Suc j) shp)"
  proof (intro allI impI)
    fix j assume "length shp - 1 \<le> j" "j < length shp"
    then have "Suc j = length shp" by simp
    then show "replicate (length shp) (1 :: int) ! j = prod_list (drop (Suc j) shp)" by simp
  qed
  with False show ?thesis
    by (intro nth_equalityI) (simp_all add: compute_strides_def stride_loop_nth row_strides_nth)
qed (simp add: compute_strides_def)

lemma in_shape_length: "in_shape shp is \<Longrightarrow> length is = length shp"
  by (induction shp "is" rule: in_shape.induct) simp_all

lemma flat_loop_Cons:
  "flat_loop ((i, stride, dim) # rest) flat =
     (if 0 \<le> wrap_index dim i \<and> wrap_index dim i < dim then flat_loop rest (flat + wrap_index dim i * stride)
      else Inl IndexError)"
  by (simp add: wrap_index_def Let_def)

lemma flat_loop_eq:
  "length is = length shp \<Longrightarrow> flat_loop (zip is (zip (row_strides shp) shp)) acc =
     (if in_shape shp (map2 wrap_index shp is) then Inr (acc + row_major shp (map2 wrap_index shp is)) else Inl IndexError)"
proof (induction shp arbitrary: "is" acc)
  case (Cons d ds)
  then obtain i js where "is": "is = i # js" by (cases "is") auto
  with Cons show ?case
    by (simp add: flat_loop_Cons add.assoc del: flat_loop.simps(2))
qed simp

lemma row_major_bounds:
  "in_shape shp is \<Longrightarrow> 0 \<le> row_major shp is \<and> row_major shp is < prod_list shp"
proof (induction shp "is" rule: in_shape.induct)
  case (2 d ds i "is")
  then have b: "0 \<le> row_major ds is" "row_major ds is < prod_list ds" and i: "0 \<le> i" "i < d" by simp_all
  have "i * prod_list ds + row_major ds is < (i + 1) * prod_list ds"
    using b by (simp add: distrib_right)
  also have "\<dots> \<le> d * prod_list ds"
    using b i by (intro mult_right_mono) simp_all
  finally show ?case
    using b i by simp
qed simp_all

lemma unflatten_row_major:
  "in_shape shp is \<Longrightarrow> unflatten (row_strides shp) (row_major shp is) = is"
proof (induction shp "is" rule: in_shape.induct)
  case (2 d ds i "is")
  then have b: "0 \<le> row_major ds is" "row_major ds is < prod_list ds"
    using row_major_bounds by simp_all
  then have "(i * prod_list ds + row_major ds is) div prod_list ds = i"
    "(i * prod_list ds + row_major ds is) mod prod_list ds = row_major ds is"
    by simp_all
  with 2 show ?case by simp
qed simp_all

lemma prod_list_pos: "\<forall>d \<in> set ds. 0 < d \<Longrightarrow> 0 < prod_list (ds :: int list)"
  by (induction ds) simp_all

lemma row_major_unflatten:
  "\<forall>d \<in> set shp. 0 < d \<Longrightarrow> 0 \<le> k \<Longrightarrow> k < prod_list shp \<Longrightarrow>
     in_shape shp (unflatten (row_strides shp) k) \<and> row_major shp (unflatten (row_strides shp) k) = k"
proof (induction shp arbitrary: k)
  case (Cons d ds)
  let ?p = "prod_list ds"
  have p: "0 < ?p" using prod_list_pos Cons.prems(1) by simp
  have "k div ?p * ?p < d * ?p"
    using Cons.prems(3) pos_mod_sign [OF p, of k] by (simp add: minus_mod_eq_div_mult [symmetric])
  then have "0 \<le> k div ?p" "k div ?p < d" "0 \<le> k mod ?p" "k mod ?p < ?p"
    using p Cons.prems(2) by (simp_all add: pos_imp_zdiv_nonneg_iff)
  with Cons.IH [of "k mod ?p"] Cons.prems(1) show ?case by simp
qed simp

subsection \<open>Elements\<close>

lemma flat_index_eq:
  assumes "array_ok vp a"
  shows "flat_index a ix = (if index_ok a ix then Inr (position a ix) else Inl IndexError)"
  using assms flat_loop_eq [of ix "shape a" 0]
  by (simp add: flat_index_def array_ok_def index_ok_def position_def wrap_def)

lemma position_bounds:
  "array_ok vp a \<Longrightarrow> index_ok a ix \<Longrightarrow> 0 \<le> position a ix \<and> position a ix < array_size a"
  using row_major_bounds [of "shape a" "wrap a ix"] by (simp add: array_ok_def index_ok_def position_def)

lemma elem_size_pos: "0 < elem_size_of ty" "elem_size_of ty * (PY_PAGE_SIZE div elem_size_of ty) = PY_PAGE_SIZE"
  by (cases ty; simp add: PY_PAGE_SIZE_def)+

lemma array_slot:
  assumes ok: "array_ok vp a" and k: "0 \<le> k" "k < array_size a"
  shows "base_page a \<le> array_page a k" "array_page a k < base_page a + array_pages a"
    and "0 \<le> array_offset a k" "array_offset a k + elem_size a \<le> PY_PAGE_SIZE"
proof -
  let ?e = "elem_size a" and ?n = "elems_per_page a"
  obtain ty where ty: "?e = elem_size_of ty" "?n = PY_PAGE_SIZE div elem_size_of ty"
    using ok by (auto simp: array_ok_def)
  have e: "0 < ?e" "?e * ?n = PY_PAGE_SIZE"
    using elem_size_pos [of ty] ty by simp_all
  then have n: "0 < ?n"
    by (metis PY_PAGE_SIZE_def zero_less_mult_pos zero_less_numeral)
  have "k div ?n * ?n \<le> k"
    using pos_mod_sign [OF n, of k] by (simp add: minus_mod_eq_div_mult [symmetric])
  then have "k div ?n * ?n * ?e \<le> k * ?e"
    using e(1) by simp
  also have "\<dots> < array_size a * ?e"
    using k(2) e(1) by simp
  also have "\<dots> \<le> array_pages a * PY_PAGE_SIZE"
  proof -
    have "(- (array_size a * ?e)) div PY_PAGE_SIZE * PY_PAGE_SIZE \<le> - (array_size a * ?e)"
      by (simp add: minus_mod_eq_div_mult [symmetric] PY_PAGE_SIZE_def)
    moreover have "array_pages a = - ((- (array_size a * ?e)) div PY_PAGE_SIZE)"
      using ok by (simp add: array_ok_def)
    ultimately show ?thesis by simp
  qed
  finally have "k div ?n * PY_PAGE_SIZE < array_pages a * PY_PAGE_SIZE"
    by (simp add: e(2) [symmetric] ac_simps)
  then show "array_page a k < base_page a + array_pages a"
    by (simp add: array_page_def PY_PAGE_SIZE_def)
  show "base_page a \<le> array_page a k"
    using k(1) n by (simp add: array_page_def pos_imp_zdiv_nonneg_iff)
  show "0 \<le> array_offset a k"
    using e(1) n by (simp add: array_offset_def)
  have "(k mod ?n + 1) * ?e \<le> ?n * ?e"
    using e(1) pos_mod_bound [OF n, of k] by (intro mult_right_mono) simp_all
  then show "array_offset a k + ?e \<le> PY_PAGE_SIZE"
    using e(2) by (simp add: array_offset_def algebra_simps)
qed

lemma array_range: "array_ok vp a \<Longrightarrow> 0 \<le> base_page a \<and> base_page a + array_pages a \<le> vp"
  unfolding array_ok_def by blast

lemma array_slot_nat:
  assumes "array_ok vp a" and "0 \<le> k" and "k < array_size a"
  shows "nat (array_offset a k) + nat (elem_size a) \<le> PAGE_SIZE"
proof -
  have "0 \<le> elem_size a"
    using assms(1) elem_size_pos(1) by (auto simp: array_ok_def less_imp_le)
  with array_slot(3,4) [OF assms] show ?thesis
    by (simp add: PY_PAGE_SIZE_def PAGE_SIZE_def nat_add_distrib [symmetric])
qed

lemma same_page_word:
  assumes "0 \<le> p" "p < uint (nv :: u32)" "0 \<le> q" "q < uint nv" and "(word_of_int p :: u32) = word_of_int q"
  shows "p = q"
proof -
  have nv: "uint nv < 2 ^ LENGTH(32)" by (rule unsigned_less)
  have p: "uint (word_of_int p :: u32) = p"
    by (rule word_of_int_range [OF refl assms(1) less_trans [OF assms(2) nv]])
  have q: "uint (word_of_int q :: u32) = q"
    by (rule word_of_int_range [OF refl assms(3) less_trans [OF assms(4) nv]])
  show ?thesis
    by (rule trans [OF p [symmetric] trans [OF arg_cong [OF assms(5), of uint] q]])
qed

text \<open>Two elements do not overlap.\<close>

lemma elements_apart:
  assumes ok: "array_ok (uint (nv :: u32)) a" and k: "0 \<le> k" "k < array_size a" and l: "0 \<le> l" "l < array_size a"
    and ne: "k \<noteq> l"
  shows "apart a k a l"
proof (cases "k div elems_per_page a = l div elems_per_page a")
  case True
  let ?n = "elems_per_page a"
  have "k mod ?n \<noteq> l mod ?n"
    using True ne by (metis div_mult_mod_eq)
  then consider "k mod ?n + 1 \<le> l mod ?n" | "l mod ?n + 1 \<le> k mod ?n" by linarith
  moreover have "0 \<le> elem_size a"
    using ok elem_size_pos(1) by (auto simp: array_ok_def less_imp_le)
  ultimately have "array_offset a k + elem_size a \<le> array_offset a l \<or> array_offset a l + elem_size a \<le> array_offset a k"
    using mult_right_mono [of "k mod ?n + 1" "l mod ?n" "elem_size a"] mult_right_mono [of "l mod ?n + 1" "k mod ?n" "elem_size a"]
    by cases (simp_all add: array_offset_def distrib_right)
  then show ?thesis by (simp add: apart_def)
next
  case False
  then have "array_page a k \<noteq> array_page a l" by (simp add: array_page_def)
  moreover have "0 \<le> base_page a" "base_page a + array_pages a \<le> uint nv"
    using array_range [OF ok] by simp_all
  ultimately show ?thesis
    using same_page_word [of "array_page a k" nv "array_page a l"] array_slot [OF ok k] array_slot [OF ok l]
    by (auto simp: apart_def)
qed

lemma arrays_apart:
  assumes a: "array_ok (uint (nv :: u32)) a" and b: "array_ok (uint nv) b"
    and k: "0 \<le> k" "k < array_size a" and l: "0 \<le> l" "l < array_size b"
    and d: "base_page a + array_pages a \<le> base_page b \<or> base_page b + array_pages b \<le> base_page a"
  shows "apart a k b l"
proof -
  have "0 \<le> base_page a" "base_page a + array_pages a \<le> uint nv" "0 \<le> base_page b" "base_page b + array_pages b \<le> uint nv"
    using array_range [OF a] array_range [OF b] by simp_all
  then show ?thesis
    using same_page_word [of "array_page a k" nv "array_page b l"] array_slot [OF a k] array_slot [OF b l] d
    by (auto simp: apart_def)
qed

lemma element_store_same:
  assumes ok: "array_ok vp a" and k: "0 \<le> k" "k < array_size a"
    and v: "length v = nat (elem_size a)" and len: "length (V (word_of_int (array_page a k))) = PAGE_SIZE"
  shows "element a (store_element a k v V) k = v"
  using mem_read_write_same [of "nat (array_offset a k)" v "V (word_of_int (array_page a k))"] array_slot_nat [OF ok k] v len
  by (simp add: element_def store_element_def)

lemma element_store_apart:
  assumes a: "array_ok vp a" and k: "0 \<le> k" "k < array_size a" and b: "array_ok vp' b" and l: "0 \<le> l" "l < array_size b"
    and v: "length v = nat (elem_size a)" and len: "length (V (word_of_int (array_page a k))) = PAGE_SIZE" and ap: "apart a k b l"
  shows "element b (store_element a k v V) l = element b V l"
proof (cases "(word_of_int (array_page a k) :: u32) = word_of_int (array_page b l)")
  case True
  let ?o = "nat (array_offset a k)" and ?o' = "nat (array_offset b l)"
  have e: "0 \<le> elem_size a" "0 \<le> elem_size b"
    using a b elem_size_pos(1) by (auto simp: array_ok_def less_imp_le)
  have "?o' + nat (elem_size b) \<le> ?o \<or> ?o + length v \<le> ?o'"
    using True ap e array_slot(3) [OF a k] array_slot(3) [OF b l] v
    by (auto simp: apart_def nat_add_distrib [symmetric] nat_mono)
  with True array_slot_nat [OF a k] array_slot_nat [OF b l] v len show ?thesis
    using mem_read_write_other [of ?o v "V (word_of_int (array_page a k))" ?o' "nat (elem_size b)"]
    by (simp add: element_def store_element_def)
qed (simp add: element_def store_element_def)

subsection \<open>Allocation\<close>

lemma pages_nonneg: "0 \<le> n \<Longrightarrow> 0 \<le> - ((- n) div PY_PAGE_SIZE)"
  by (simp add: PY_PAGE_SIZE_def)

lemma prod_list_nonneg: "\<forall>d \<in> set ds. 0 \<le> d \<Longrightarrow> 0 \<le> prod_list (ds :: int list)"
  by (induction ds) simp_all

lemma new_array_ok:
  assumes "new_array shp ty pc = Inr (a, pc')" and "0 \<le> next_page pc" and "\<forall>d \<in> set shp. 0 \<le> d"
  shows "array_ok (virtual_pages pc) a" "shape a = shp" "array_dtype a = ty" "base_page a = next_page pc" "0 \<le> array_pages a"
    "pc' = pc\<lparr>next_page := base_page a + array_pages a\<rparr>"
proof -
  have "0 \<le> prod_list shp * elem_size_of ty"
    using prod_list_nonneg [OF assms(3)] elem_size_pos(1) [of ty] by simp
  then have "0 \<le> - ((- (prod_list shp * elem_size_of ty)) div PY_PAGE_SIZE)"
    by (rule pages_nonneg)
  with assms(1,2) show "array_ok (virtual_pages pc) a" "shape a = shp" "array_dtype a = ty" "base_page a = next_page pc"
    "0 \<le> array_pages a" "pc' = pc\<lparr>next_page := base_page a + array_pages a\<rparr>"
    by (auto simp: new_array_def Let_def alloc_pages_def array_ok_def compute_strides_eq split: if_splits)
qed

lemma new_arrays_ok:
  assumes "new_arrays decls pc = Inr (as, pc')" and "0 \<le> next_page pc" and "\<forall>(shp, ty) \<in> set decls. \<forall>d \<in> set shp. 0 \<le> d"
  shows "arrays_ok (virtual_pages pc) as \<and> (\<forall>a \<in> set as. next_page pc \<le> base_page a) \<and>
    next_page pc \<le> next_page pc' \<and> pc' = pc\<lparr>next_page := next_page pc'\<rparr> \<and>
    map (\<lambda>a. (shape a, array_dtype a)) as = decls"
  using assms
proof (induction decls pc arbitrary: as pc' rule: new_arrays.induct)
  case (2 shp ty decls pc)
  obtain a pc1 where a: "new_array shp ty pc = Inr (a, pc1)"
    using 2(2) by (auto split: sum.splits)
  then obtain bs where bs: "new_arrays decls pc1 = Inr (bs, pc')" "as = a # bs"
    using 2(2) by (auto split: sum.splits)
  note n = new_array_ok [OF a 2(3)]
  have nn: "\<forall>d \<in> set shp. 0 \<le> d" using 2(4) by simp
  note n = n [OF nn]
  have pc1: "next_page pc1 = base_page a + array_pages a" "virtual_pages pc1 = virtual_pages pc"
    using n(6) by simp_all
  have IH: "arrays_ok (virtual_pages pc1) bs \<and> (\<forall>b \<in> set bs. next_page pc1 \<le> base_page b) \<and>
    next_page pc1 \<le> next_page pc' \<and> pc' = pc1\<lparr>next_page := next_page pc'\<rparr> \<and> map (\<lambda>a. (shape a, array_dtype a)) bs = decls"
    using 2(1) [OF a refl] bs(1) 2(3,4) n(4,5) pc1(1) by simp
  have "\<forall>b \<in> set bs. disjoint_arrays a b"
    using IH pc1 by (simp add: disjoint_arrays_def)
  moreover have "pc' = pc\<lparr>next_page := next_page pc'\<rparr>"
    using IH n(6) by simp
  ultimately show ?case
    using IH n(1-5) pc1 bs(2) by (auto simp: arrays_ok_def)
qed (simp add: arrays_ok_def)

lemma arrays_nth:
  assumes "arrays_ok vp as" and "i < length as"
  shows "array_ok vp (as ! i)" and "j < length as \<Longrightarrow> i \<noteq> j \<Longrightarrow> disjoint_arrays (as ! i) (as ! j)"
proof -
  show "array_ok vp (as ! i)" using assms by (simp add: arrays_ok_def)
  assume j: "j < length as" "i \<noteq> j"
  have "disjoint_arrays (as ! i) (as ! j) \<or> disjoint_arrays (as ! j) (as ! i)"
    using assms j by (auto simp: arrays_ok_def sorted_wrt_iff_nth_less linorder_neq_iff)
  then show "disjoint_arrays (as ! i) (as ! j)"
    by (auto simp: disjoint_arrays_def)
qed

subsection \<open>Independent arrays\<close>

lemma row_major_inj:
  "in_shape shp ix \<Longrightarrow> in_shape shp jx \<Longrightarrow> row_major shp ix = row_major shp jx \<Longrightarrow> ix = jx"
  by (metis unflatten_row_major)

lemma contents_store:
  assumes ok: "arrays_ok (uint (nv :: u32)) as" and M: "contents as V M" and j: "j < length as"
    and ix: "index_ok (as ! j) ix" and v: "length v = nat (elem_size (as ! j))"
    and len: "length (V (word_of_int (array_page (as ! j) (position (as ! j) ix)))) = PAGE_SIZE"
  shows "contents as (store_element (as ! j) (position (as ! j) ix) v V) (M(j := (M j)(wrap (as ! j) ix := v)))"
  unfolding contents_def
proof (intro allI impI)
  fix i jx assume i: "i < length as" and jx: "in_shape (shape (as ! i)) jx"
  let ?a = "as ! j" and ?b = "as ! i" and ?k = "position (as ! j) ix" and ?l = "row_major (shape (as ! i)) jx"
  have a: "array_ok (uint nv) ?a" and b: "array_ok (uint nv) ?b"
    using arrays_nth(1) [OF ok] i j by simp_all
  have k: "0 \<le> ?k" "?k < array_size ?a"
    using position_bounds [OF a ix] by simp_all
  have l: "0 \<le> ?l" "?l < array_size ?b"
    using row_major_bounds [OF jx] b by (simp_all add: array_ok_def)
  have old: "M i jx = element ?b V ?l"
    using M i jx by (simp add: contents_def)
  show "(M(j := (M j)(wrap ?a ix := v))) i jx = element ?b (store_element ?a ?k v V) ?l"
  proof (cases "i = j \<and> jx = wrap ?a ix")
    case True
    then show ?thesis
      using element_store_same [OF a k v, of V] len by (simp add: position_def)
  next
    case False
    have "apart ?a ?k ?b ?l"
    proof (cases "i = j")
      case True
      have "?k \<noteq> ?l"
        using False True jx ix row_major_inj [of "shape ?a" "wrap ?a ix" jx] by (auto simp: position_def index_ok_def)
      with elements_apart [OF a k] l True show ?thesis by simp
    next
      case False
      then show ?thesis
        using arrays_apart [OF a b k l] arrays_nth(2) [OF ok j i] by (simp add: disjoint_arrays_def)
    qed
    from element_store_apart [OF a k b l v _ this, of V] len False old show ?thesis
      by auto
  qed
qed

text \<open>Indices that are in the shape already are not wrapped.\<close>

lemma wrap_in_shape: "in_shape shp ix \<Longrightarrow> map2 wrap_index shp ix = ix"
  by (induction shp ix rule: in_shape.induct) (simp_all add: wrap_index_def)

lemma index_in_shape:
  assumes "in_shape (shape a) ix"
  shows "wrap a ix = ix" "index_ok a ix" "position a ix = row_major (shape a) ix"
  using assms wrap_in_shape [OF assms] by (simp_all add: wrap_def index_ok_def position_def in_shape_length)

lemma assign_other: "ix \<notin> fst ` set items \<Longrightarrow> assign items m ix = m ix"
  by (induction items m rule: assign.induct) auto

lemma assign_item: "distinct (map fst items) \<Longrightarrow> (ix, v) \<in> set items \<Longrightarrow> assign items m ix = v"
  by (induction items m rule: assign.induct) (auto simp: assign_other)

lemma dims_positive: "\<forall>d \<in> set shp. 0 \<le> d \<Longrightarrow> 0 < prod_list shp \<Longrightarrow> \<forall>d \<in> set shp. 0 < (d :: int)"
proof (induction shp)
  case (Cons d ds)
  then have "0 < d" "0 < prod_list ds"
    by (simp_all add: zero_less_mult_iff)
  with Cons show ?case by auto
qed simp

subsection \<open>Elements over a lawful server\<close>

lemma word_of_int_less:
  assumes "0 \<le> p" "p < uint (nv :: u32)"
  shows "(word_of_int p :: u32) < nv"
proof -
  have nv: "uint nv < 2 ^ LENGTH(32)" by (rule unsigned_less)
  have "uint (word_of_int p :: u32) = p"
    by (rule word_of_int_range [OF refl assms(1) less_trans [OF assms(2) nv]])
  with assms(2) show ?thesis by (simp only: word_less_def)
qed

lemma same_py_refl: "py_linked ready store pc w V \<Longrightarrow> same_py pc pc"
  by (cases pc) (auto simp: same_py_def py_linked_def split: option.splits)

lemma same_py_trans: "same_py pc pc' \<Longrightarrow> same_py pc' pc'' \<Longrightarrow> same_py pc pc''"
  by (auto simp: same_py_def)

lemma same_py_sel: "same_py pc pc' \<Longrightarrow> virtual_pages pc' = virtual_pages pc \<and> next_page pc' = next_page pc"
  by (auto simp: same_py_def)

lemma slot_less:
  assumes "array_ok vp a" "0 \<le> k" "k < array_size a"
  shows "0 \<le> array_page a k" "array_page a k < vp"
  using array_slot(1,2) [OF assms] array_range [OF assms(1)] by simp_all

context page_peer
begin

lemma py_access_ok:
  assumes l: "py_linked ready store pc w V" and p: "0 \<le> p" "p < virtual_pages pc"
  shows "\<exists>c w'. py_access_page peer p wr pc w
      = Ret (Inr (frame_to_ptr (frame_number (pte c (word_of_int p)))), pc\<lparr>py_ctx := Some c\<rparr>, w') \<and>
    linked ready store c w' V \<and> virtual_pages pc = uint (num_virtual_pages c) \<and>
    word_of_int p < num_virtual_pages c \<and> valid (pte c (word_of_int p)) \<noteq> 0 \<and> (wr \<longrightarrow> dirty (pte c (word_of_int p)) \<noteq> 0)"
proof -
  obtain c where c: "py_ctx pc = Some c" "linked ready store c w V" "virtual_pages pc = uint (num_virtual_pages c)"
    using l by (auto simp: py_linked_def split: option.splits)
  let ?p = "word_of_int p :: u32" and ?wr = "if wr then 1 else 0 :: 32 word"
  have lt: "?p < num_virtual_pages c"
    using word_of_int_less p c(3) by simp
  obtain c' w' where a: "dsm_access_page peer c ?p ?wr w = Ret (Some (frame_to_ptr (frame_number (pte c' ?p))), c', w')"
    "linked ready store c' w' V" "same_dims c c'" "valid (pte c' ?p) \<noteq> 0" "ucast ?wr \<noteq> (0 :: u8) \<longrightarrow> dirty (pte c' ?p) \<noteq> 0"
    using access_page_ok [OF c(2) lt, of ?wr] by blast
  have "py_access_page peer p wr pc w = Ret (Inr (frame_to_ptr (frame_number (pte c' ?p))), pc\<lparr>py_ctx := Some c'\<rparr>, w')"
    using a(1) by (simp add: py_access_page_def c(1) of_bool_def if_distrib [of word_of_int] cong: if_cong)
  moreover have "wr \<longrightarrow> dirty (pte c' ?p) \<noteq> 0"
    using a(5) by (cases wr) simp_all
  ultimately show ?thesis
    using a(2-4) lt c(3) by (intro exI [of _ c'] exI [of _ w']) (simp add: same_dims_def)
qed

lemma getitem_ok:
  assumes l: "py_linked ready store pc w V" and a: "array_ok (virtual_pages pc) a"
  shows "\<exists>pc' w'. getitem peer a ix pc w
      = Ret (if index_ok a ix then Inr (element a V (position a ix)) else Inl IndexError, pc', w') \<and>
    py_linked ready store pc' w' V \<and> same_py pc pc'"
proof (cases "index_ok a ix")
  case False
  then show ?thesis
    using flat_index_eq [OF a] l same_py_refl [OF l] by (simp add: getitem_def)
next
  case True
  let ?k = "position a ix"
  have k: "0 \<le> ?k" "?k < array_size a"
    using position_bounds [OF a True] by simp_all
  let ?p = "word_of_int (array_page a ?k) :: u32"
  obtain c w' where c: "py_access_page peer (array_page a ?k) False pc w
      = Ret (Inr (frame_to_ptr (frame_number (pte c ?p))), pc\<lparr>py_ctx := Some c\<rparr>, w')"
    "linked ready store c w' V" "virtual_pages pc = uint (num_virtual_pages c)" "?p < num_virtual_pages c" "valid (pte c ?p) \<noteq> 0"
    using py_access_ok [OF l slot_less [OF a k], of False] by blast
  note ld = load_bytes_linked [OF c(2,4,5) array_slot_nat [OF a k]]
  have "getitem peer a ix pc w = Ret (Inr (element a V ?k), pc\<lparr>py_ctx := Some c\<rparr>, w')"
    using True flat_index_eq [OF a] c(1) ld by (simp add: getitem_def element_def)
  with True c(2,3) show ?thesis
    by (auto simp: py_linked_def same_py_def)
qed

lemma setitem_ok:
  assumes l: "py_linked ready store pc w V" and a: "array_ok (virtual_pages pc) a" and v: "length v = nat (elem_size a)"
  shows "\<exists>pc' w'. setitem peer a ix v pc w = Ret (if index_ok a ix then Inr () else Inl IndexError, pc', w') \<and>
    py_linked ready store pc' w' (if index_ok a ix then store_element a (position a ix) v V else V) \<and> same_py pc pc'"
proof (cases "index_ok a ix")
  case False
  then show ?thesis
    using flat_index_eq [OF a] l same_py_refl [OF l] by (simp add: setitem_def)
next
  case True
  let ?k = "position a ix"
  have k: "0 \<le> ?k" "?k < array_size a"
    using position_bounds [OF a True] by simp_all
  let ?p = "word_of_int (array_page a ?k) :: u32"
  obtain c w' where c: "py_access_page peer (array_page a ?k) True pc w
      = Ret (Inr (frame_to_ptr (frame_number (pte c ?p))), pc\<lparr>py_ctx := Some c\<rparr>, w')"
    "linked ready store c w' V" "virtual_pages pc = uint (num_virtual_pages c)" "?p < num_virtual_pages c" "valid (pte c ?p) \<noteq> 0"
    "dirty (pte c ?p) \<noteq> 0"
    using py_access_ok [OF l slot_less [OF a k], of True] by blast
  have "nat (array_offset a ?k) + length v \<le> PAGE_SIZE"
    using array_slot_nat [OF a k] v by simp
  from store_linked [OF c(2,4-6) this] obtain c' where c':
    "store_bytes c (frame_to_ptr (frame_number (pte c ?p)) + nat (array_offset a ?k)) v = Ret c'"
    "linked ready store c' w' (store_element a ?k v V)" "same_dims c c'"
    by (auto simp: store_element_def)
  have "setitem peer a ix v pc w = Ret (Inr (), pc\<lparr>py_ctx := Some c'\<rparr>, w')"
    using True flat_index_eq [OF a] c(1) c'(1) by (simp add: setitem_def)
  with True c(3) c'(2,3) show ?thesis
    by (auto simp: py_linked_def same_py_def same_dims_def)
qed

lemma py_linked_length:
  assumes "py_linked ready store pc w V" and "0 \<le> p" "p < virtual_pages pc"
  shows "length (V (word_of_int p)) = PAGE_SIZE"
  using assms linked_length word_of_int_less by (auto simp: py_linked_def split: option.splits)

lemma run_array_op_ok:
  assumes l: "py_linked ready store pc w V" and ok: "arrays_ok (virtual_pages pc) as" and M: "contents as V M"
    and x: "array_op_ok as x"
  shows "\<exists>pc' w' V'. run_array_op peer as x pc w = Ret (fst (spec_array_op as x M), pc', w') \<and>
    py_linked ready store pc' w' V' \<and> same_py pc pc' \<and> contents as V' (snd (spec_array_op as x M))"
proof (cases x)
  case (GetItem j ix)
  then have j: "j < length as" using x by simp
  have "M j (wrap (as ! j) ix) = element (as ! j) V (position (as ! j) ix)" if "index_ok (as ! j) ix"
    using M j that by (simp add: contents_def index_ok_def position_def)
  with getitem_ok [OF l arrays_nth(1) [OF ok j], of ix] M GetItem show ?thesis
    by (cases "index_ok (as ! j) ix") auto
next
  case (SetItem j ix v)
  then have j: "j < length as" and v: "length v = nat (elem_size (as ! j))" using x by simp_all
  let ?V = "if index_ok (as ! j) ix then store_element (as ! j) (position (as ! j) ix) v V else V"
  note a = arrays_nth(1) [OF ok j]
  obtain nv :: u32 where nv: "virtual_pages pc = uint nv"
    using l by (auto simp: py_linked_def split: option.splits)
  have "contents as ?V (snd (spec_array_op as x M))"
  proof (cases "index_ok (as ! j) ix")
    case True
    have k: "0 \<le> position (as ! j) ix" "position (as ! j) ix < array_size (as ! j)"
      using position_bounds [OF a True] by simp_all
    note len = py_linked_length [OF l slot_less [OF a k]]
    from contents_store [OF ok [unfolded nv] M j True v len] True SetItem show ?thesis by simp
  qed (use M SetItem in simp)
  moreover obtain pc' w' where "setitem peer (as ! j) ix v pc w = Ret (if index_ok (as ! j) ix then Inr () else Inl IndexError, pc', w')"
    "py_linked ready store pc' w' ?V" "same_py pc pc'"
    using setitem_ok [OF l a v, of ix] by blast
  ultimately show ?thesis
    using SetItem by (intro exI [of _ pc'] exI [of _ w'] exI [of _ ?V]) simp
qed

lemma run_array_ops_ok:
  assumes "py_linked ready store pc w V" and "arrays_ok (virtual_pages pc) as" and "contents as V M"
    and "\<forall>x \<in> set xs. array_op_ok as x"
  shows "\<exists>pc' w' V'. run_array_ops peer as xs pc w = Ret (fst (spec_array_ops as xs M), pc', w') \<and>
    py_linked ready store pc' w' V' \<and> same_py pc pc' \<and> contents as V' (snd (spec_array_ops as xs M))"
  using assms
proof (induction xs arbitrary: pc w V M)
  case Nil
  then show ?case using same_py_refl [OF Nil(1)] by auto
next
  case (Cons x xs)
  let ?M = "snd (spec_array_op as x M)"
  obtain pc1 w1 V1 where 1: "run_array_op peer as x pc w = Ret (fst (spec_array_op as x M), pc1, w1)"
    "py_linked ready store pc1 w1 V1" "same_py pc pc1" "contents as V1 ?M"
    using run_array_op_ok [OF Cons.prems(1-3), of x] Cons.prems(4) by auto
  have "arrays_ok (virtual_pages pc1) as"
    using Cons.prems(2) same_py_sel [OF 1(3)] by simp
  from Cons.IH [OF 1(2) this 1(4)] Cons.prems(4) obtain pc2 w2 V2 where
    2: "run_array_ops peer as xs pc1 w1 = Ret (fst (spec_array_ops as xs ?M), pc2, w2)"
    "py_linked ready store pc2 w2 V2" "same_py pc1 pc2" "contents as V2 (snd (spec_array_ops as xs ?M))"
    by auto
  then show ?case
    using 1(1) same_py_trans [OF 1(3) 2(3)]
    by (intro exI [of _ pc2] exI [of _ w2] exI [of _ V2]) (simp add: case_prod_unfold Let_def)
qed

lemma copy_elements_ok:
  assumes "py_linked ready store pc w V" and "arrays_ok (virtual_pages pc) as" and "contents as V M" and "j < length as"
    and "\<forall>(ix, v) \<in> set items. in_shape (shape (as ! j)) ix \<and> length v = nat (elem_size (as ! j))"
  shows "\<exists>pc' w' V'. copy_elements peer (as ! j) items pc w = Ret (Inr (), pc', w') \<and> py_linked ready store pc' w' V' \<and>
    same_py pc pc' \<and> contents as V' (M(j := assign items (M j)))"
  using assms
proof (induction items arbitrary: pc w V M)
  case Nil
  then show ?case using same_py_refl [OF Nil(1)] by auto
next
  case (Cons x items)
  obtain ix v where x: "x = (ix, v)" by (cases x)
  have ix: "in_shape (shape (as ! j)) ix" and v: "length v = nat (elem_size (as ! j))"
    using Cons.prems(5) x by simp_all
  let ?M = "M(j := (M j)(ix := v))"
  obtain pc1 w1 V1 where 1: "setitem peer (as ! j) ix v pc w = Ret (Inr (), pc1, w1)"
    "py_linked ready store pc1 w1 V1" "same_py pc pc1" "contents as V1 ?M"
    using run_array_op_ok [OF Cons.prems(1-3), of "SetItem j ix v"] Cons.prems(4) v index_in_shape [OF ix]
      setitem_ok [OF Cons.prems(1) arrays_nth(1) [OF Cons.prems(2,4)] v, of ix]
    by auto
  have "arrays_ok (virtual_pages pc1) as"
    using Cons.prems(2) same_py_sel [OF 1(3)] by simp
  moreover have "\<forall>(ix, v) \<in> set items. in_shape (shape (as ! j)) ix \<and> length v = nat (elem_size (as ! j))"
    using Cons.prems(5) by simp
  ultimately obtain pc2 w2 V2 where
    "copy_elements peer (as ! j) items pc1 w1 = Ret (Inr (), pc2, w2)" "py_linked ready store pc2 w2 V2" "same_py pc1 pc2"
    "contents as V2 (?M(j := assign items (?M j)))"
    using Cons.IH [OF 1(2) _ 1(4) Cons.prems(4)] by blast
  then show ?case
    using 1(1) x same_py_trans [OF 1(3)]
    by (intro exI [of _ pc2] exI [of _ w2] exI [of _ V2]) (simp add: fun_upd_def cong: if_cong)
qed

lemma to_numpy_loop_ok:
  assumes "py_linked ready store pc w V" and "array_ok (virtual_pages pc) a" and "\<forall>d \<in> set (shape a). 0 < d"
    and "\<forall>k \<in> set ks. int k < array_size a"
    and np: "\<And>r ix v jx. np_get (np_set r ix v) jx = (if jx = ix then v else np_get r jx)"
  shows "\<exists>r' pc' w'. to_numpy_loop np_set peer a ks r pc w = Ret (Inr r', pc', w') \<and> py_linked ready store pc' w' V \<and>
    same_py pc pc' \<and> (\<forall>jx. in_shape (shape a) jx \<longrightarrow> np_get r' jx =
      (if nat (row_major (shape a) jx) \<in> set ks then element a V (row_major (shape a) jx) else np_get r jx))"
  using assms(1-4)
proof (induction ks arbitrary: r pc w)
  case Nil
  then show ?case using same_py_refl [OF Nil(1)] by auto
next
  case (Cons k ks)
  let ?ix = "unflatten (strides a) (int k)"
  have st: "strides a = row_strides (shape a)" and "int k < prod_list (shape a)"
    using Cons.prems(2,4) by (simp_all add: array_ok_def)
  then have ix: "in_shape (shape a) ?ix" "row_major (shape a) ?ix = int k"
    using row_major_unflatten [OF Cons.prems(3), of "int k"] by simp_all
  obtain pc1 w1 where 1: "getitem peer a ?ix pc w = Ret (Inr (element a V (int k)), pc1, w1)"
    "py_linked ready store pc1 w1 V" "same_py pc pc1"
    using getitem_ok [OF Cons.prems(1,2), of ?ix] index_in_shape [OF ix(1)] ix(2) by auto
  have "array_ok (virtual_pages pc1) a"
    using Cons.prems(2) same_py_sel [OF 1(3)] by simp
  from Cons.IH [OF 1(2) this Cons.prems(3), of "np_set r ?ix (element a V (int k))"] Cons.prems(4) obtain r' pc2 w2 where
    2: "to_numpy_loop np_set peer a ks (np_set r ?ix (element a V (int k))) pc1 w1 = Ret (Inr r', pc2, w2)"
    "py_linked ready store pc2 w2 V" "same_py pc1 pc2"
    and r': "\<And>jx. in_shape (shape a) jx \<Longrightarrow> np_get r' jx = (if nat (row_major (shape a) jx) \<in> set ks
      then element a V (row_major (shape a) jx) else np_get (np_set r ?ix (element a V (int k))) jx)"
    by auto
  have "np_get r' jx = (if nat (row_major (shape a) jx) \<in> set (k # ks) then element a V (row_major (shape a) jx) else np_get r jx)"
    if jx: "in_shape (shape a) jx" for jx
  proof -
    have "jx = ?ix \<longleftrightarrow> nat (row_major (shape a) jx) = k"
      using row_major_inj [OF jx ix(1)] ix(2) row_major_bounds [OF jx] by auto
    then show ?thesis
      using r' [OF jx] np ix(2) by auto
  qed
  then show ?case
    using 1(1) 2 same_py_trans [OF 1(3) 2(3)]
    by (intro exI [of _ r'] exI [of _ pc2] exI [of _ w2]) (simp add: Let_def)
qed

lemma py_linked_next_page [simp]: "py_linked ready store (pc\<lparr>next_page := n\<rparr>) w V = py_linked ready store pc w V"
  by (simp add: py_linked_def split: option.splits)

lemma py_open_linked:
  assumes "py_open alloc sock_ok connect_ok fd port local virtual = (Inr (), pc)" and "0 \<le> fd"
    and v: "0 \<le> virtual" "virtual < 2 ^ 32" and "synced ready w" and "reliable (kern w)"
    and "\<forall>p < word_of_int virtual. p \<in> pages (store (far w))"
  shows "py_linked ready store pc w (store (far w))" "next_page pc = 0" "virtual_pages pc = virtual"
proof -
  let ?np = "word_of_int local :: u32" and ?nv = "word_of_int virtual :: u32"
  obtain c held where c: "dsm_create_context alloc ?np ?nv = (Some c, held)"
    and pc: "py_ctx pc = Some (dsm_context_set_socket c fd)" "next_page pc = 0" "virtual_pages pc = virtual"
    using assms(1) by (cases "dsm_create_context alloc ?np ?nv")
      (auto simp: py_open_def Let_def split: option.splits if_splits)
  have c': "?np \<noteq> 0" "c = fresh_context ?np ?nv"
    using create_context_Some [OF c] by simp_all
  have "uint ?nv = virtual"
    by (rule word_of_int_range) (use v in simp_all)
  moreover have "linked ready store ((fresh_context ?np ?nv)\<lparr>sock_fd := fd\<rparr>) w (store (far w))"
    by (rule start_linked [OF c'(1) assms(2,5,6,7)])
  moreover have "num_virtual_pages (fresh_context ?np ?nv) = ?nv"
    by (simp add: fresh_context_def)
  ultimately show "py_linked ready store pc w (store (far w))"
    unfolding py_linked_def pc(1,3) option.case c'(2) dsm_context_set_socket_def by simp
  show "next_page pc = 0" "virtual_pages pc = virtual"
    by (fact pc(2,3))+
qed

lemma to_numpy_ok:
  assumes l: "py_linked ready store pc w V" and a: "array_ok (virtual_pages pc) a" and d: "\<forall>d \<in> set (shape a). 0 \<le> d"
    and e: "np_empty (shape a) (array_dtype a) = Some r0"
    and np: "\<And>r ix v jx. np_get (np_set r ix v) jx = (if jx = ix then v else np_get r jx)"
  shows "\<exists>r pc' w'. to_numpy True np_empty np_set peer a pc w = Ret (Inr r, pc', w') \<and>
    (\<forall>ix. in_shape (shape a) ix \<longrightarrow> np_get r ix = element a V (row_major (shape a) ix))"
proof (cases "0 < array_size a")
  case True
  have d': "\<forall>d \<in> set (shape a). 0 < d"
    using dims_positive [OF d] True a by (simp add: array_ok_def)
  have "\<forall>k \<in> set [0..<nat (array_size a)]. int k < array_size a"
    by auto
  from to_numpy_loop_ok [OF l a d' this np, of r0] obtain r pc' w' where
    1: "to_numpy_loop np_set peer a [0..<nat (array_size a)] r0 pc w = Ret (Inr r, pc', w')"
    and r: "\<And>ix. in_shape (shape a) ix \<Longrightarrow> np_get r ix =
      (if nat (row_major (shape a) ix) \<in> set [0..<nat (array_size a)] then element a V (row_major (shape a) ix) else np_get r0 ix)"
    by blast
  have "nat (row_major (shape a) ix) \<in> set [0..<nat (array_size a)]" if "in_shape (shape a) ix" for ix
    using row_major_bounds [OF that] a by (simp add: array_ok_def)
  with r have "\<forall>ix. in_shape (shape a) ix \<longrightarrow> np_get r ix = element a V (row_major (shape a) ix)"
    by simp
  with 1 e show ?thesis by (simp add: to_numpy_def)
next
  case False
  have "\<not> in_shape (shape a) ix" for ix
    using row_major_bounds [of "shape a" ix] False a by (auto simp: array_ok_def)
  with False e show ?thesis by (simp add: to_numpy_def)
qed

lemma from_numpy_ok:
  assumes l: "py_linked ready store pc w V" and n: "0 \<le> next_page pc" "new_array shp ty pc = Inr (a, pc1)"
    and d: "\<forall>d \<in> set shp. 0 \<le> d" and items: "distinct (map fst items)"
    "\<forall>(ix, v) \<in> set items. in_shape shp ix \<and> length v = nat (elem_size_of ty)"
  shows "\<exists>pc' w' V'. from_numpy True peer shp (Some ty) items pc w = Ret (Inr a, pc', w') \<and> py_linked ready store pc' w' V' \<and>
    array_ok (virtual_pages pc') a \<and> (\<forall>(ix, v) \<in> set items. element a V' (row_major shp ix) = v)"
proof -
  note a = new_array_ok [OF n(2,1) d]
  have vp: "virtual_pages pc1 = virtual_pages pc" and l1: "py_linked ready store pc1 w V"
    using a(6) l by simp_all
  have ok: "arrays_ok (virtual_pages pc1) [a]"
    using a(1) vp by (simp add: arrays_ok_def)
  let ?M = "\<lambda>(j :: nat) ix. element a V (row_major shp ix)"
  have M: "contents [a] V ?M"
    using a(2) by (simp add: contents_def)
  have "\<forall>(ix, v) \<in> set items. in_shape (shape ([a] ! 0)) ix \<and> length v = nat (elem_size ([a] ! 0))"
    using items(2) a(1-3) by (auto simp: array_ok_def)
  from copy_elements_ok [OF l1 ok M _ this] obtain pc' w' V' where
    1: "copy_elements peer a items pc1 w = Ret (Inr (), pc', w')" "py_linked ready store pc' w' V'" "same_py pc1 pc'"
    "contents [a] V' (?M(0 := assign items (?M 0)))"
    by (simp only: nth_Cons_0 list.size) blast
  have "element a V' (row_major shp ix) = v" if "(ix, v) \<in> set items" for ix v
    using 1(4) assign_item [OF items(1) that] items(2) that a(2) by (auto simp: contents_def)
  then show ?thesis
    using 1(1-3) n(2) a(1) vp same_py_sel [OF 1(3)]
    by (intro exI [of _ pc'] exI [of _ w'] exI [of _ V']) (auto simp: from_numpy_def)
qed

end

subsection \<open>Closed contexts\<close>

lemma create_context_held:
  "dsm_create_context alloc np nv = (ctx, held) \<Longrightarrow> dsm_destroy_context (Some c) held = {} \<and> (ctx = None \<longrightarrow> held = {})"
  by (auto simp: dsm_create_context_def dsm_destroy_context_def Let_def split: if_splits)

lemma closed_context:
  assumes "py_ctx pc = None"
  shows "py_sock pc = None \<Longrightarrow> py_close pc = pc" "alloc_pages n pc = Inl RuntimeError" "py_stats pc = Inl RuntimeError"
    "py_access_page peer p wr pc w = Ret (Inl RuntimeError, pc, w)" "py_prefetch peer p m pc w = Ret (Inl RuntimeError, pc, w)"
  using assms by (simp_all add: py_close_def alloc_pages_def py_stats_def py_access_page_def py_prefetch_def)

text \<open>What the constructor leaves behind, and what closing makes of it.\<close>

lemma opened_context:
  "py_held (py_close (snd (py_open alloc sock_ok connect_ok fd port local virtual)))
     = (if sock_ok \<and> 0 \<le> port \<and> port \<le> 65535 then {} else snd (dsm_create_context alloc (word_of_int local) (word_of_int virtual)))"
  "py_fds (py_close (snd (py_open alloc sock_ok connect_ok fd port local virtual))) = {}"
proof -
  obtain ctx held where c: "dsm_create_context alloc (word_of_int local) (word_of_int virtual) = (ctx, held)"
    by fastforce
  show "py_held (py_close (snd (py_open alloc sock_ok connect_ok fd port local virtual)))
     = (if sock_ok \<and> 0 \<le> port \<and> port \<le> 65535 then {} else snd (dsm_create_context alloc (word_of_int local) (word_of_int virtual)))"
    using create_context_held [OF c] by (cases ctx) (auto simp: py_open_def c py_close_def Let_def)
  show "py_fds (py_close (snd (py_open alloc sock_ok connect_ok fd port local virtual))) = {}"
    by (cases ctx) (simp_all add: py_open_def c py_close_def Let_def)
qed

lemma py_closed: "py_ctx (py_close pc) = None" "py_sock (py_close pc) = None"
  by (simp_all add: py_close_def Let_def split: option.split)

text \<open>
  Leaving a \<open>with\<close> block closes the context, and an exception of its body goes on.
\<close>

lemma py_with_closes:
  "py_with body pc = Ret (r, pc', w) \<Longrightarrow> py_ctx pc' = None \<and> py_sock pc' = None"
  by (auto simp: py_with_def py_exit_def outcome_simps py_closed)

lemma py_with_raises:
  "body pc = Ret (Inl e, pc', w) \<Longrightarrow> py_with body pc = Ret (Inl e, py_close pc', w)"
  by (simp add: py_with_def py_enter_def py_exit_def)

text \<open>The page table of an open context, and an access outside it.\<close>

lemma create_context_granted:
  "np \<noteq> 0 \<Longrightarrow> \<exists>held. dsm_create_context (\<lambda>_. True) np nv = (Some (fresh_context np nv), held)"
  by (auto simp: dsm_create_context_def Let_def)

lemma py_open_table:
  assumes "py_open alloc sock_ok connect_ok fd port local virtual = (Inr (), pc)"
  shows "\<exists>c. py_ctx pc = Some c \<and> next_page pc = 0 \<and> virtual_pages pc = virtual \<and>
    length (page_table c) = nat (virtual mod 2 ^ 32)"
proof -
  let ?np = "word_of_int local :: u32" and ?nv = "word_of_int virtual :: u32"
  obtain c held where c: "dsm_create_context alloc ?np ?nv = (Some c, held)"
    and pc: "py_ctx pc = Some (dsm_context_set_socket c fd)" "next_page pc = 0" "virtual_pages pc = virtual"
    using assms by (cases "dsm_create_context alloc ?np ?nv")
      (auto simp: py_open_def Let_def split: option.splits if_splits)
  have "length (page_table c) = unat ?nv"
    using create_context_Some [OF c] by (simp add: fresh_context_def)
  also have "\<dots> = nat (virtual mod 2 ^ 32)"
    by (simp add: unat_eq_nat_uint uint_word_of_int)
  finally show ?thesis
    using pc by (simp add: dsm_context_set_socket_def)
qed

lemma access_outside_table:
  assumes "py_ctx pc = Some c" and "length (page_table c) = nat (v mod 2 ^ 32)" and "v mod 2 ^ 32 \<le> p mod 2 ^ 32"
  shows "py_access_page peer p wr pc w = Undef"
proof -
  have "\<not> unat (word_of_int p :: u32) < length (page_table c)"
    using assms(2,3) by (simp add: unat_eq_nat_uint uint_word_of_int not_less nat_mono)
  then show ?thesis
    by (simp add: py_access_page_def assms(1) dsm_access_page_def idx_def)
qed

subsection \<open>Properties\<close>



text \<open>
  Indices and positions correspond one to one. For an array with dimensions that are
  not negative, \<open>_flat_index\<close> accepts exactly the indices in range, negative ones counting
  from the end, and gives each a position inside the array; the unflattening in
  \<open>to_numpy\<close> finds the indices of every position again. All other indices raise
  \<open>IndexError\<close>.
\<close>

lemma flat_index_bijective:
  assumes "new_array shp ty pc = Inr (a, pc')" and "0 \<le> next_page pc" and "\<forall>d \<in> set shp. 0 \<le> d"
  shows "(\<forall>k. 0 \<le> k \<and> k < array_size a \<longrightarrow> flat_index a (unflatten (strides a) k) = Inr k) \<and>
    (\<forall>ix. if index_ok a ix
       then \<exists>k. flat_index a ix = Inr k \<and> 0 \<le> k \<and> k < array_size a \<and> unflatten (strides a) k = wrap a ix
       else flat_index a ix = Inl IndexError)"
proof -
  note a = new_array_ok [OF assms]
  have st: "strides a = row_strides (shape a)" "array_size a = prod_list (shape a)"
    using a(1) by (simp_all add: array_ok_def)
  have "flat_index a (unflatten (strides a) k) = Inr k" if k: "0 \<le> k" "k < array_size a" for k
  proof -
    have "\<forall>d \<in> set (shape a). 0 < d"
      using dims_positive assms(3) a(2) st(2) k by simp
    from row_major_unflatten [OF this k(1)] k(2) st show ?thesis
      using flat_index_eq [OF a(1)] index_in_shape by simp
  qed
  moreover have "unflatten (strides a) (position a ix) = wrap a ix" if "index_ok a ix" for ix
    using that unflatten_row_major st by (simp add: index_ok_def position_def)
  ultimately show ?thesis
    using flat_index_eq [OF a(1)] position_bounds [OF a(1)] by auto
qed



text \<open>
  C33. Page numbers are never checked against the table: \<open>Context.access_page\<close> passes any number on,
  and one that the table of the C library has no entry for makes \<open>dsm_access_page\<close> read outside
  the table. That table has the virtual page count modulo 2 to the 32, whereas arrays are
  placed by the count itself. So in a context of 2 to the 32 pages or more an array
  is created without an error, and an access to those of its elements that lie beyond the
  shortened table is undefined, although their indices are in range.
\<close>

theorem unchecked_pages_overrun:
  assumes "py_open alloc sock_ok connect_ok fd port local virtual = (Inr (), pc)"
    and "0 \<le> i" and "i < n" and "n \<le> virtual * 4096"
    and "virtual mod 2 ^ 32 \<le> i div 4096" and "i div 4096 < 2 ^ 32"
  shows "(\<exists>a pc1. new_array [n] Uint8 pc = Inr (a, pc1) \<and>
      getitem peer a [i] pc1 w = Undef \<and> setitem peer a [i] v pc1 w = Undef) \<and>
    (\<forall>p. virtual mod 2 ^ 32 \<le> p mod 2 ^ 32 \<longrightarrow> py_access_page peer p wr pc w = Undef)"
proof -
  obtain c where pc: "py_ctx pc = Some c" "next_page pc = 0" "virtual_pages pc = virtual"
    and c: "length (page_table c) = nat (virtual mod 2 ^ 32)"
    using py_open_table [OF assms(1)] by blast
  have acc: "py_access_page peer p wr q w = Undef" if "virtual mod 2 ^ 32 \<le> p mod 2 ^ 32" "py_ctx q = Some c" for p wr q
    by (rule access_outside_table [OF that(2) c that(1)])
  have pgs: "- ((- n) div 4096) \<le> virtual"
    using assms(4) by linarith
  let ?a = "\<lparr>shape = [n], array_dtype = Uint8, elem_size = 1, array_size = n, strides = [1], elems_per_page = 4096,
    array_pages = - ((- n) div 4096), base_page = 0\<rparr>"
  have new: "new_array [n] Uint8 pc = Inr (?a, pc\<lparr>next_page := - ((- n) div 4096)\<rparr>)"
    using pgs pc by (simp add: new_array_def alloc_pages_def PY_PAGE_SIZE_def compute_strides_def Let_def)
  have "flat_index ?a [i] = Inr i"
    using assms(2,3) by (simp add: flat_index_def Let_def)
  moreover have "virtual mod 2 ^ 32 \<le> (i div 4096) mod 2 ^ 32"
    using assms(2,5,6) by (simp add: pos_imp_zdiv_nonneg_iff)
  ultimately have "getitem peer ?a [i] (pc\<lparr>next_page := m\<rparr>) w = Undef" "setitem peer ?a [i] v (pc\<lparr>next_page := m\<rparr>) w = Undef" for m
    using acc [of "i div 4096" "pc\<lparr>next_page := m\<rparr>"] pc(1) by (simp_all add: getitem_def setitem_def array_page_def)
  with new acc [OF _ pc(1)] show ?thesis
    by blast
qed

theorem unchecked_pages_overrun_witness:
  "\<exists>pc. py_open (\<lambda>_. True) True True 3 9999 1 (2 ^ 32 + 1) = (Inr (), pc) \<and>
     (\<exists>a pc1. new_array [8192] Uint8 pc = Inr (a, pc1) \<and> getitem (\<lambda>s bs. (s, [])) a [4096] pc1
        \<lparr>tx = [], rx = [], far = (), kern = \<lambda>_. [], calls = 0\<rparr> = Undef) \<and>
     py_access_page (\<lambda>s bs. (s, [])) (-1) False pc \<lparr>tx = [], rx = [], far = (), kern = \<lambda>_. [], calls = 0\<rparr> = Undef"
proof -
  obtain pc where pc: "py_open (\<lambda>_. True) True True 3 9999 1 (2 ^ 32 + 1) = (Inr (), pc)"
    using create_context_granted [of 1 "word_of_int (2 ^ 32 + 1)"] by (auto simp: py_open_def Let_def)
  from unchecked_pages_overrun [OF this, of 4096 8192 "\<lambda>s bs. (s, [])"
      "\<lparr>tx = [], rx = [], far = (), kern = \<lambda>_. [], calls = 0\<rparr>" "[]" False] pc show ?thesis
    by auto
qed

end
