(* ===== verification/DSM_Node.thy ===== *)
theory DSM_Node
  imports DSM_Server DSM_Client DSM_Array
begin

section \<open>A server as the other end of a connection (dsm\_server.c)\<close>

text \<open>
  A session is a server with one client thread at the other end of a client's connection.
  \<open>serve\<close> is its behaviour as a transducer of bytes. The results: a session keeps the wire
  contract \<open>page_peer\<close> for the pages in its storage and for those it forwards to members
  that keep the contract themselves; the interpretations at the end give every fact proved
  from the contract, in particular those of the page cache, for a server on its own and for
  a member of a cluster. The server's side of a connection is a \<open>net\<close> whose other end, the
  client, only collects the bytes it is sent (\<open>sink\<close>).
\<close>

subsection \<open>Definitions\<close>

text \<open>
  A session is a server with one client thread. \<open>serve\<close> lets the thread work through the
  requests that are complete in its receive buffer and returns what it sends back; an
  incomplete request waits for the rest of its bytes. A thread that has left its loop, or
  hangs in a call that does not return, answers nothing any more.
\<close>

record 's session =
  sess_server :: "'s server"
  sess_counters :: counters
  sess_fd :: int
  sess_net :: "bytes net"
  sess_live :: bool

definition sink :: "bytes peer" where
  "sink got bs = (got @ bs, [])"

definition request_complete :: "bytes \<Rightarrow> bool" where
  "request_complete bs \<longleftrightarrow> HDR_SIZE \<le> length bs \<and>
     (h_op (header_of_bytes bs) = OP_PUT_PAGE \<longrightarrow> HDR_SIZE + PAGE_SIZE \<le> length bs)"

definition sent_bytes :: "bytes net \<Rightarrow> bytes" where
  "sent_bytes w = far w @ tx w"

definition flush :: "bytes net \<Rightarrow> bytes net" where
  "flush w = w\<lparr>far := [], tx := []\<rparr>"

text \<open>The connection after \<open>n\<close> bytes were received from it, and after \<open>bs\<close> was sent.\<close>

definition took :: "nat \<Rightarrow> bytes net \<Rightarrow> bytes net" where
  "took n w = (deliver sink (called w))\<lparr>rx := drop n (rx w)\<rparr>"

definition put_out :: "bytes \<Rightarrow> 'c net \<Rightarrow> 'c net" where
  "put_out bs w = (called w)\<lparr>tx := tx w @ bs\<rparr>"

fun serve_loop :: "nat \<Rightarrow> 's peer \<Rightarrow> 's session \<Rightarrow> 's session \<times> bytes" where
  "serve_loop 0 np s = (s, [])"
| "serve_loop (Suc fuel) np s =
     (if \<not> sess_live s \<or> \<not> running (sess_server s) \<or> \<not> request_complete (rx (sess_net s)) then (s, [])
      else case handle_request sink np (sess_fd s) (sess_counters s) (sess_server s) (sess_net s) of
        Ret (go, st, srv, w) \<Rightarrow>
          (let s = s\<lparr>sess_server := srv, sess_counters := st, sess_net := flush w, sess_live := go\<rparr>
           in (fst (serve_loop fuel np s), sent_bytes w @ snd (serve_loop fuel np s)))
      | _ \<Rightarrow> (s\<lparr>sess_live := False\<rparr>, []))"

definition arrive :: "bytes \<Rightarrow> 's session \<Rightarrow> 's session" where
  "arrive bs s = s\<lparr>sess_net := (sess_net s)\<lparr>rx := rx (sess_net s) @ bs\<rparr>\<rparr>"

definition serve :: "'s peer \<Rightarrow> 's session peer" where
  "serve np s bs =
     (if bs = [] then (s, []) else serve_loop (length (rx (sess_net (arrive bs s)))) np (arrive bs s))"

paragraph \<open>Sessions that are ready for a request, and the pages they serve\<close>

definition sess_ready :: "'s session \<Rightarrow> bool" where
  "sess_ready s \<longleftrightarrow> sess_live s \<and> running (sess_server s) \<and> server_ok (sess_server s) \<and> 0 \<le> sess_fd s \<and>
     tx (sess_net s) = [] \<and> rx (sess_net s) = [] \<and> far (sess_net s) = [] \<and> reliable (kern (sess_net s))"

abbreviation sess_store :: "('s \<Rightarrow> bool) \<Rightarrow> ('s \<Rightarrow> u32 \<Rightarrow> bytes) \<Rightarrow> 's session \<Rightarrow> u32 \<Rightarrow> bytes" where
  "sess_store nready nstore s \<equiv> server_store nready nstore (sess_server s)"

text \<open>
  What of a server no request changes; and what a forwarded request changes of it: the
  connection \<open>g\<close> to member \<open>i\<close>, which is now cached, has become \<open>v\<close>.
\<close>

definition holdings :: "'s server \<Rightarrow> u32 \<times> (u32 \<Rightarrow> bool)" where
  "holdings srv = (g_storage_pages srv, is_local srv)"

definition relinked :: "nat \<Rightarrow> int \<Rightarrow> 's net \<Rightarrow> 's server \<Rightarrow> 's server \<Rightarrow> bool" where
  "relinked i g v srv srv' \<longleftrightarrow> (\<exists>ctx ctx' os'. g_cluster srv = Some ctx \<and> srv' = srv\<lparr>g_cluster := Some ctx', g_os := os'\<rparr> \<and>
     links_ok ctx' os' \<and> cl_self ctx' = cl_self ctx \<and> (\<forall>q. route ctx' os' q = relink i v (route ctx (g_os srv) q)) \<and>
     conns os' g = v \<and> (\<forall>h. h \<noteq> g \<longrightarrow> conns os' h = conns (g_os srv) h))"

text \<open>
  A connection on which every call fails; a page whose owner is known but reached over a cached
  connection that is broken; and what a failed forward changes of the server, the call count of
  that connection.
\<close>

definition broken :: "(nat \<Rightarrow> io_ans list) \<Rightarrow> bool" where
  "broken k \<longleftrightarrow> (\<forall>n. \<exists>rest. k n = Fail # rest)"

definition lost_owner :: "'s server \<Rightarrow> u32 \<Rightarrow> bool" where
  "lost_owner srv pid \<longleftrightarrow> \<not> (is_local srv pid \<and> pid < g_storage_pages srv) \<and>
     (\<exists>ctx n i. g_cluster srv = Some ctx \<and> ctx_ok ctx \<and> cluster_get_owner ctx pid = Some n \<and>
        find_node_by_id (cl_state ctx) (n_id n) = Some i \<and> 0 \<le> peer_fds ctx ! i \<and>
        broken (kern (conns (g_os srv) (peer_fds ctx ! i))))"

definition lost_call :: "'s server \<Rightarrow> 's server \<Rightarrow> bool" where
  "lost_call srv srv' \<longleftrightarrow> (\<exists>g. srv' = srv\<lparr>g_os := (g_os srv)\<lparr>conns := (conns (g_os srv))(g := called (conns (g_os srv) g))\<rparr>\<rparr>)"

text \<open>A server that is not in a cluster has no other nodes.\<close>

definition no_peer :: "unit peer" where
  "no_peer s bs = (s, [])"

paragraph \<open>Several clients of one server\<close>

text \<open>
  Every client has a thread of its own with its own connection; they share the server. A
  schedule says whose next request is served: the bytes of the request arrive on the
  connection of client \<open>i\<close> and the thread runs one round of its loop. The replies are listed in
  the order of the schedule. A thread that leaves its loop ends the run. The requests are served one
  at a time here; the program takes no lock around the storage, so two threads that copy the
  same page at the same moment may interleave within it.
\<close>

datatype request = Get u32 | Put u32 bytes

fun request_bytes :: "request \<Rightarrow> bytes" where
  "request_bytes (Get pid) = get_req pid"
| "request_bytes (Put pid pg) = put_req pid pg"

record client_thread =
  ct_counters :: counters
  ct_fd :: int
  ct_net :: "bytes net"

fun serve_schedule ::
  "'s peer \<Rightarrow> (nat \<times> request) list \<Rightarrow> 's server \<Rightarrow> (nat \<Rightarrow> client_thread) \<Rightarrow> (bytes list \<times> 's server) outcome" where
  "serve_schedule np [] srv ths = Ret ([], srv)"
| "serve_schedule np ((i, rq) # rest) srv ths =
     (let th = ths i; w = ct_net th in
      bind_oc (handle_request sink np (ct_fd th) (ct_counters th) srv (w\<lparr>rx := rx w @ request_bytes rq\<rparr>))
        (\<lambda>(go, st, srv, w).
          if \<not> go then Ret ([], srv)
          else bind_oc (serve_schedule np rest srv (ths(i := th\<lparr>ct_counters := st, ct_net := flush w\<rparr>)))
                 (\<lambda>(replies, srv). Ret (sent_bytes w # replies, srv))))"

text \<open>The memory the server stands for: a GET reads a page, a PUT replaces it.\<close>

fun spec_request :: "request \<Rightarrow> page_memory \<Rightarrow> bytes \<times> page_memory" where
  "spec_request (Get pid) V = (V pid, V)"
| "spec_request (Put pid pg) V = (ack pid, V(pid := pg))"

fun spec_schedule :: "(nat \<times> request) list \<Rightarrow> page_memory \<Rightarrow> bytes list \<times> page_memory" where
  "spec_schedule [] V = ([], V)"
| "spec_schedule ((i, rq) # rest) V =
     (let (r, V) = spec_request rq V; (rs, V) = spec_schedule rest V in (r # rs, V))"

fun request_ok :: "u32 set \<Rightarrow> request \<Rightarrow> bool" where
  "request_ok P (Get pid) \<longleftrightarrow> pid \<in> P"
| "request_ok P (Put pid pg) \<longleftrightarrow> pid \<in> P \<and> length pg = PAGE_SIZE"

definition thread_ready :: "client_thread \<Rightarrow> bool" where
  "thread_ready th \<longleftrightarrow> 0 \<le> ct_fd th \<and> reliable (kern (ct_net th)) \<and>
     tx (ct_net th) = [] \<and> rx (ct_net th) = [] \<and> far (ct_net th) = []"

paragraph \<open>Nodes of a cluster\<close>

text \<open>
  A connection just made, and the two kinds of node a client can meet: \<open>node_peer\<close> serves its
  own pages and forwards requests to members that serve only their own.
\<close>

definition connection :: "(nat \<Rightarrow> io_ans list) \<Rightarrow> 's \<Rightarrow> 's net" where
  "connection k s = \<lparr>tx = [], rx = [], far = s, kern = k, calls = 0\<rparr>"

abbreviation solo_store :: "unit session \<Rightarrow> u32 \<Rightarrow> bytes" where
  "solo_store \<equiv> sess_store (\<lambda>_. False) (\<lambda>_ _. [])"

abbreviation node_peer :: "unit session session peer" where
  "node_peer \<equiv> serve (serve no_peer)"

abbreviation node_store :: "unit session session \<Rightarrow> u32 \<Rightarrow> bytes" where
  "node_store \<equiv> sess_store sess_ready solo_store"

text \<open>
  Examples: a kernel that moves whatever it is given, a new session of a server, a server on
  its own with \<open>n\<close> pages of zeros, and the first of two nodes, which owns page 0 and has a connection to the
  owner of page 1.
\<close>

definition swift_kernel :: "nat \<Rightarrow> io_ans list" where
  "swift_kernel = (\<lambda>_. replicate (HDR_SIZE + PAGE_SIZE) (Xfer 5000))"

definition new_session :: "'s server \<Rightarrow> 's session" where
  "new_session srv =
     \<lparr>sess_server = srv, sess_counters = \<lparr>pages_served = 0, pages_written = 0, pages_forwarded = 0\<rparr>, sess_fd = 4,
      sess_net = connection swift_kernel [], sess_live = True\<rparr>"

definition solo_server :: "'s \<Rightarrow> u32 \<Rightarrow> 's server" where
  "solo_server x n = \<lparr>running = True, g_cluster = None, g_storage = replicate (unat n * PAGE_SIZE) 0, g_storage_pages = n,
     g_os = \<lparr>conns = \<lambda>_. connection swift_kernel x, dial = \<lambda>_ _ _. Refused, dials = 0\<rparr>\<rparr>"

definition duo_server :: "unit session server" where
  "duo_server =
     \<lparr>running = True, g_cluster = Some ((sample_ctx 0 [1])\<lparr>peer_fds := (replicate CLUSTER_MAX_NODES (-1))[1 := 5]\<rparr>),
      g_storage = replicate (2 * PAGE_SIZE) 0, g_storage_pages = 2,
      g_os = \<lparr>conns = \<lambda>_. connection swift_kernel (new_session (solo_server () 2)), dial = \<lambda>_ _ _. Refused, dials = 0\<rparr>\<rparr>"

text \<open>The same node when its connection has broken, although the owner would accept a new one.\<close>

definition cut_off_server :: "unit session server" where
  "cut_off_server = duo_server\<lparr>g_os :=
     \<lparr>conns = \<lambda>_. connection (\<lambda>_. [Fail]) (new_session (solo_server () 2)),
      dial = \<lambda>_ _ _. Connected 6 (connection swift_kernel (new_session (solo_server () 2))), dials = 0\<rparr>\<rparr>"

subsection \<open>The server's side of the connection\<close>

lemma quiet_sink [simp]: "quiet sink"
  by (simp add: quiet_def sink_def)

lemma deliver_sink [simp]: "rx (deliver sink w) = rx w" "far (deliver sink w) = far w @ tx w"
  by (simp_all add: deliver_def sink_def)

lemma took_sel [simp]:
  "rx (took n w) = drop n (rx w)" "kern (took n w) = kern w" "sent_bytes (took n w) = sent_bytes w"
  by (simp_all add: took_def sent_bytes_def)

lemma put_out_sel [simp]:
  "rx (put_out bs w) = rx w" "kern (put_out bs w) = kern w" "sent_bytes (put_out bs v) = sent_bytes v @ bs"
  by (simp_all add: put_out_def sent_bytes_def)

lemma recv_sink:
  assumes "0 < n" and "n \<le> HDR_SIZE + PAGE_SIZE" and "n \<le> length (rx w)" and "reliable (kern w)" and "0 \<le> fd"
  shows "dsm_recv_full sink fd n w = Ret (0, take n (rx w), took n w)"
proof -
  obtain d w' where r: "dsm_recv_full sink fd n w = Ret (0, d, w')"
    using dsm_recv_full_good [OF quiet_sink assms(1,4,5,2)] assms(3) by auto
  from dsm_recv_full_0 [OF quiet_sink assms(1) r] show ?thesis
    using r by (simp add: took_def)
qed

lemma reply_good:
  assumes "reliable (kern w)" and "0 \<le> fd" and "length bs \<le> HDR_SIZE + PAGE_SIZE"
  shows "reply fd bs st st' srv w = Ret (True, st', srv, put_out bs w)"
  using dsm_send_full_good [OF assms, of 0] by (simp add: reply_def put_out_def)

text \<open>A round that goes on has taken a header off the receive buffer.\<close>

lemma recv_sink_0:
  assumes "dsm_recv_full sink fd n w = Ret (rc, d, w')" and "\<not> rc < 0" and "0 < n"
  shows "length (rx w') + n = length (rx w)"
proof -
  have "rc = 0"
    using ensures_recv_full [of sink fd n w] assms by auto
  with dsm_recv_full_0 [OF quiet_sink assms(3), of fd w d w'] assms(1) show ?thesis by auto
qed

lemma reply_rx: "reply fd bs st st' srv w = Ret (go, st1, srv1, w') \<Longrightarrow> rx w' = rx w"
  by (auto simp: reply_def outcome_simps dsm_send_full_def split: if_splits dest!: send_loop_Ret)

lemma handle_get_rx: "handle_get np fd pid st srv w = Ret (go, st', srv', w') \<Longrightarrow> rx w' = rx w"
  by (auto simp: handle_get_def Let_def outcome_simps split: if_splits option.splits dest: reply_rx)

lemma handle_put_rx: "handle_put sink np fd pid st srv w = Ret (True, st', srv', w') \<Longrightarrow> length (rx w') \<le> length (rx w)"
proof -
  assume r: "handle_put sink np fd pid st srv w = Ret (True, st', srv', w')"
  then obtain rc d w1 where 1: "dsm_recv_full sink fd PAGE_SIZE w = Ret (rc, d, w1)" "\<not> rc < 0" and 2: "rx w' = rx w1"
    by (auto simp: handle_put_def Let_def outcome_simps split: if_splits dest: reply_rx)
  from recv_sink_0 [OF 1] 2 show ?thesis by simp
qed

lemma handle_request_rx:
  assumes "handle_request sink np fd st srv w = Ret (True, st', srv', w')"
  shows "length (rx w') < length (rx w)"
proof -
  from assms obtain rc d w1 where 1: "dsm_recv_full sink fd HDR_SIZE w = Ret (rc, d, w1)" "\<not> rc < 0"
    and 2: "length (rx w') \<le> length (rx w1)"
    by (auto simp: handle_request_def Let_def outcome_simps split: if_splits dest: handle_get_rx handle_put_rx)
  from recv_sink_0 [OF 1] 2 show ?thesis by (simp add: HDR_SIZE_def)
qed

lemma serve_loop_stop [simp]: "\<not> sess_live s \<Longrightarrow> serve_loop n np s = (s, [])"
  by (cases n) simp_all

lemma flush_sel [simp]: "rx (flush w) = rx w" "kern (flush w) = kern w" "tx (flush w) = []" "far (flush w) = []"
  by (simp_all add: flush_def)

text \<open>The buffer's length is fuel enough.\<close>

lemma serve_loop_fuel:
  "length (rx (sess_net s)) \<le> n \<Longrightarrow> length (rx (sess_net s)) \<le> m \<Longrightarrow> serve_loop n np s = serve_loop m np s"
proof (induction n arbitrary: m s)
  case 0
  then have "\<not> request_complete (rx (sess_net s))"
    by (simp add: request_complete_def HDR_SIZE_def)
  then show ?case by (cases m) simp_all
next
  case (Suc n)
  show ?case
  proof (cases m)
    case 0
    with Suc have "\<not> request_complete (rx (sess_net s))"
      by (simp add: request_complete_def HDR_SIZE_def)
    with 0 show ?thesis by simp
  next
    case (Suc k)
    let ?s = "\<lambda>go st srv w. s\<lparr>sess_server := srv, sess_counters := st, sess_net := flush w, sess_live := go\<rparr>"
    have "serve_loop n np (?s go st srv w) = serve_loop k np (?s go st srv w)"
      if "handle_request sink np (sess_fd s) (sess_counters s) (sess_server s) (sess_net s) = Ret (go, st, srv, w)"
      for go st srv w
    proof (cases go)
      case True
      with that have "length (rx w) < length (rx (sess_net s))" by (simp add: handle_request_rx)
      with Suc.prems Suc show ?thesis by (intro Suc.IH) simp_all
    qed simp
    with Suc show ?thesis
      by (auto simp: Let_def split: outcome.split)
  qed
qed

subsection \<open>Serving a request\<close>

lemma request_complete_get [simp]: "request_complete (get_req pid @ bs)"
  by (simp add: request_complete_def get_req_def)

lemma request_complete_put [simp]: "length pg = PAGE_SIZE \<Longrightarrow> request_complete (put_req pid pg @ bs)"
  by (simp add: request_complete_def put_req_def)

lemma HDR_SIZE_pos [simp]: "0 < HDR_SIZE"
  by (simp add: HDR_SIZE_def)

lemma handle_request_get:
  assumes "rx w = get_req pid @ bs" and "reliable (kern w)" and "0 \<le> fd"
  shows "handle_request sink np fd st srv w = handle_get np fd pid st srv (took HDR_SIZE w)"
  using recv_sink [of HDR_SIZE w fd] assms by (simp add: handle_request_def get_req_def)

lemma handle_request_put:
  assumes "rx w = put_req pid pg @ bs" and "reliable (kern w)" and "0 \<le> fd"
  shows "handle_request sink np fd st srv w = handle_put sink np fd pid st srv (took HDR_SIZE w)"
  using recv_sink [of HDR_SIZE w fd] assms by (simp add: handle_request_def put_req_def)

lemma reply_ack:
  assumes "reliable (kern w)" and "0 \<le> fd"
  shows "reply fd (header_bytes (dsm_rpc_make_header OP_ACK pid)) st st' srv w = Ret (True, st', srv, put_out (ack pid) w)"
  using reply_good [OF assms, of "ack pid"] by (simp add: ack_def)

lemma recv_page:
  assumes "rx w = pg @ bs" and "reliable (kern w)" and "0 \<le> fd" and "length pg = PAGE_SIZE"
  shows "dsm_recv_full sink fd PAGE_SIZE w = Ret (0, pg, took PAGE_SIZE w)"
  using recv_sink [of PAGE_SIZE w fd] assms by simp

text \<open>Pages of the storage are read and written there.\<close>

lemma handle_get_local:
  assumes "server_ok srv" and "is_local srv pid" and "pid < g_storage_pages srv" and "reliable (kern w)" and "0 \<le> fd"
  shows "handle_get np fd pid st srv w = Ret (True, st\<lparr>pages_served := pages_served st + 1\<rparr>, srv,
    put_out (mem_read (g_storage srv) (storage_offset pid) PAGE_SIZE) w)"
  using assms storage_bound [OF assms(1,3)]
    reply_good [OF assms(4,5), of "mem_read (g_storage srv) (storage_offset pid) PAGE_SIZE"]
  by (simp add: handle_get_def storage_read_def length_mem_read)

lemma handle_put_local:
  assumes "server_ok srv" and "is_local srv pid" and "pid < g_storage_pages srv" and "length pg = PAGE_SIZE"
    and "rx w = pg @ bs" and "reliable (kern w)" and "0 \<le> fd"
  shows "handle_put sink np fd pid st srv w = Ret (True, st\<lparr>pages_written := pages_written st + 1\<rparr>,
    srv\<lparr>g_storage := mem_write (g_storage srv) (storage_offset pid) pg\<rparr>, put_out (ack pid) (took PAGE_SIZE w))"
  using assms storage_bound [OF assms(1,3)]
  by (simp add: handle_put_def storage_write_def recv_page [OF assms(5,6,7,4)] reply_ack)

lemma relinked_holdings: "relinked i g v srv srv' \<Longrightarrow> holdings srv' = holdings srv"
  by (auto simp: relinked_def holdings_def is_local_def cluster_is_local_def)

lemma relinked_ok: "relinked i g v srv srv' \<Longrightarrow> server_ok srv \<Longrightarrow> server_ok srv' \<and> running srv' = running srv"
  by (auto simp: relinked_def server_ok_def)

context page_peer
begin

text \<open>A node the requests go through, seen from the server in front of it.\<close>

lemma store_remote:
  assumes "\<not> (is_local srv pid \<and> pid < g_storage_pages srv)" and "pid \<in> pages (server_store ready store srv)"
  obtains ctx i fd w where "g_cluster srv = Some ctx" "route ctx (g_os srv) pid = Some (i, fd, w)"
    "synced ready w" "reliable (kern w)" "pid \<in> pages (store (far w))" "server_store ready store srv pid = store (far w) pid"
proof -
  have "length ([] :: bytes) \<noteq> PAGE_SIZE" by (simp add: PAGE_SIZE_def)
  with assms that show ?thesis
    by (fastforce simp: server_store_def pages_def split: option.splits if_splits)
qed

lemma route_inj:
  assumes "links_ok ctx os" and "route ctx os pid = Some (i, fd, w)" and "route ctx os q = Some (j, fd', v)" and "j = i"
  shows "v = w"
proof -
  have "table_ok (cl_state ctx)"
    using assms(1) by (simp add: links_ok_def ctx_ok_def)
  from route_Some(3) [OF this assms(2)] route_Some(3) [OF this assms(3)] assms(4) show ?thesis by simp
qed

lemma store_relink:
  assumes rl: "relinked i g w' srv srv'" and c: "g_cluster srv = Some ctx" "route ctx (g_os srv) pid = Some (i, g, w)"
    and ok: "links_ok ctx (g_os srv)" and w: "synced ready w" "reliable (kern w)" "synced ready w'" "kern w' = kern w"
    and st: "store (far w') = (store (far w))(pid := pg)" and nl: "\<not> (is_local srv pid \<and> pid < g_storage_pages srv)"
  shows "server_store ready store srv' = (server_store ready store srv)(pid := pg)"
proof
  fix q
  obtain ctx' os' where r: "srv' = srv\<lparr>g_cluster := Some ctx', g_os := os'\<rparr>"
    "\<forall>q. route ctx' os' q = relink i w' (route ctx (g_os srv) q)"
    using rl c(1) unfolding relinked_def by auto
  have loc: "is_local srv' q = is_local srv q"
    using relinked_holdings [OF rl] by (simp add: holdings_def)
  show "server_store ready store srv' q = ((server_store ready store srv)(pid := pg)) q"
  proof (cases "is_local srv q \<and> q < g_storage_pages srv")
    case True
    with loc nl r(1) show ?thesis by (auto simp: server_store_def)
  next
    case False
    note F = this
    show ?thesis
    proof (cases "route ctx (g_os srv) q")
      case None
      with c(2) have "q \<noteq> pid" by auto
      with None F loc c(1) r show ?thesis by (auto simp: server_store_def relink_def)
    next
      case (Some x)
      obtain j fd v where x: "x = (j, fd, v)" by (cases x)
      show ?thesis
      proof (cases "j = i")
        case True
        with route_inj [OF ok c(2)] Some x have "v = w" by blast
        with True Some x F loc c(1) r w st show ?thesis
          by (auto simp: server_store_def relink_def)
      next
        case False
        with c(2) Some x have "q \<noteq> pid" by auto
        with False Some x F loc c(1) r show ?thesis
          by (auto simp: server_store_def relink_def)
      qed
    qed
  qed
qed

text \<open>Requests for the pages of another member are forwarded.\<close>

lemma handle_get_forward:
  assumes ok: "server_ok srv" and nl: "\<not> (is_local srv pid \<and> pid < g_storage_pages srv)"
    and c: "g_cluster srv = Some ctx" "route ctx (g_os srv) pid = Some (i, g, v)"
    and v: "synced ready v" "reliable (kern v)" "pid \<in> pages (store (far v))" and fd: "0 \<le> fd"
  shows "\<exists>srv' v'. relinked i g v' srv srv' \<and> synced ready v' \<and> kern v' = kern v \<and> store (far v') = store (far v) \<and>
    (\<forall>w :: 'c net. reliable (kern w) \<longrightarrow> handle_get peer fd pid st srv w
       = Ret (True, st\<lparr>pages_forwarded := pages_forwarded st + 1\<rparr>, srv', put_out (store (far v) pid) w))"
proof -
  have lk: "links_ok ctx (g_os srv)"
    using ok c(1) by (simp add: server_ok_def)
  obtain ctx' os' v' where f: "cluster_forward_get peer ctx pid (g_os srv) = Ret (0, store (far v) pid, ctx', os')"
    "links_ok ctx' os'" "cl_self ctx' = cl_self ctx" "\<forall>q. route ctx' os' q = relink i v' (route ctx (g_os srv) q)"
    and v': "synced ready v'" "kern v' = kern v" "store (far v') = store (far v)"
    and cn: "conns os' g = v'" "\<forall>h. h \<noteq> g \<longrightarrow> conns os' h = conns (g_os srv) h"
    using forward_get_ok [OF lk c(2) v] by (elim exE conjE)
  let ?srv = "srv\<lparr>g_cluster := Some ctx', g_os := os'\<rparr>"
  have "length (store (far v) pid) \<le> HDR_SIZE + PAGE_SIZE"
    using v(3) by (simp add: pages_def)
  then have "handle_get peer fd pid st srv w
      = Ret (True, st\<lparr>pages_forwarded := pages_forwarded st + 1\<rparr>, ?srv, put_out (store (far v) pid) w)"
    if "reliable (kern w)" for w :: "'c net"
    unfolding handle_get_def if_not_P [OF nl] by (simp add: c(1) f(1) Let_def reply_good [OF that fd])
  moreover have "relinked i g v' srv ?srv"
    using f(2-4) cn c(1) by (auto simp: relinked_def)
  ultimately show ?thesis
    using v' by blast
qed

lemma handle_put_forward:
  assumes ok: "server_ok srv" and nl: "\<not> (is_local srv pid \<and> pid < g_storage_pages srv)"
    and c: "g_cluster srv = Some ctx" "route ctx (g_os srv) pid = Some (i, g, v)"
    and v: "synced ready v" "reliable (kern v)" "pid \<in> pages (store (far v))" and fd: "0 \<le> fd" and len: "length pg = PAGE_SIZE"
  shows "\<exists>srv' v'. relinked i g v' srv srv' \<and> synced ready v' \<and> kern v' = kern v \<and> store (far v') = (store (far v))(pid := pg) \<and>
    (\<forall>w bs. rx w = pg @ bs \<longrightarrow> reliable (kern w) \<longrightarrow> handle_put sink peer fd pid st srv w
       = Ret (True, st\<lparr>pages_forwarded := pages_forwarded st + 1\<rparr>, srv', put_out (ack pid) (took PAGE_SIZE w)))"
proof -
  have lk: "links_ok ctx (g_os srv)"
    using ok c(1) by (simp add: server_ok_def)
  obtain ctx' os' v' where f: "cluster_forward_put peer ctx pid pg (g_os srv) = Ret (0, ctx', os')"
    "links_ok ctx' os'" "cl_self ctx' = cl_self ctx" "\<forall>q. route ctx' os' q = relink i v' (route ctx (g_os srv) q)"
    and v': "synced ready v'" "kern v' = kern v" "store (far v') = (store (far v))(pid := pg)"
    and cn: "conns os' g = v'" "\<forall>h. h \<noteq> g \<longrightarrow> conns os' h = conns (g_os srv) h"
    using forward_put_ok [OF lk c(2) v len] by (elim exE conjE)
  let ?srv = "srv\<lparr>g_cluster := Some ctx', g_os := os'\<rparr>"
  have "handle_put sink peer fd pid st srv w
      = Ret (True, st\<lparr>pages_forwarded := pages_forwarded st + 1\<rparr>, ?srv, put_out (ack pid) (took PAGE_SIZE w))"
    if "rx w = pg @ bs" "reliable (kern w)" for w bs
    unfolding handle_put_def if_not_P [OF nl] using that fd
    by (simp add: c(1) f(1) recv_page [OF that fd len] reply_ack)
  moreover have "relinked i g v' srv ?srv"
    using f(2-4) cn c(1) by (auto simp: relinked_def)
  ultimately show ?thesis
    using v' by blast
qed

lemma handle_get_ok:
  assumes ok: "server_ok srv" and p: "pid \<in> pages (server_store ready store srv)" and fd: "0 \<le> fd"
  shows "\<exists>st' srv'. server_ok srv' \<and> running srv' = running srv \<and> holdings srv' = holdings srv \<and>
    server_store ready store srv' = server_store ready store srv \<and>
    (\<forall>w :: 'c net. reliable (kern w) \<longrightarrow> handle_get peer fd pid st srv w
       = Ret (True, st', srv', put_out (server_store ready store srv pid) w))"
proof (cases "is_local srv pid \<and> pid < g_storage_pages srv")
  case True
  then show ?thesis
    using ok fd by (intro exI [of _ "st\<lparr>pages_served := pages_served st + 1\<rparr>"] exI [of _ srv])
      (simp add: server_store_def handle_get_local)
next
  case False
  obtain ctx i g v where c: "g_cluster srv = Some ctx" "route ctx (g_os srv) pid = Some (i, g, v)"
    and v: "synced ready v" "reliable (kern v)" "pid \<in> pages (store (far v))"
    and st: "server_store ready store srv pid = store (far v) pid"
    by (rule store_remote [OF False p])
  have lk: "links_ok ctx (g_os srv)"
    using ok c(1) by (simp add: server_ok_def)
  obtain srv' v' where f: "relinked i g v' srv srv'" "synced ready v'" "kern v' = kern v" "store (far v') = store (far v)"
    and h: "\<forall>w :: 'c net. reliable (kern w) \<longrightarrow> handle_get peer fd pid st srv w
      = Ret (True, st\<lparr>pages_forwarded := pages_forwarded st + 1\<rparr>, srv', put_out (store (far v) pid) w)"
    using handle_get_forward [OF ok False c v fd, of st] by (elim exE conjE)
  have "server_store ready store srv' = (server_store ready store srv)(pid := store (far v) pid)"
    by (rule store_relink [OF f(1) c lk v(1,2) f(2,3) _ False]) (simp add: f(4))
  then have "server_store ready store srv' = server_store ready store srv"
    using st by (metis fun_upd_triv)
  with h st relinked_ok [OF f(1) ok] relinked_holdings [OF f(1)] show ?thesis
    by auto
qed

lemma handle_put_ok:
  assumes ok: "server_ok srv" and p: "pid \<in> pages (server_store ready store srv)" and len: "length pg = PAGE_SIZE"
    and fd: "0 \<le> fd"
  shows "\<exists>st' srv'. server_ok srv' \<and> running srv' = running srv \<and> holdings srv' = holdings srv \<and>
    server_store ready store srv' = (server_store ready store srv)(pid := pg) \<and>
    (\<forall>w bs. rx w = pg @ bs \<longrightarrow> reliable (kern w) \<longrightarrow> handle_put sink peer fd pid st srv w
       = Ret (True, st', srv', put_out (ack pid) (took PAGE_SIZE w)))"
proof (cases "is_local srv pid \<and> pid < g_storage_pages srv")
  case True
  let ?srv = "srv\<lparr>g_storage := mem_write (g_storage srv) (storage_offset pid) pg\<rparr>"
  have "storage_write srv pid pg = Ret ?srv"
    using storage_bound [OF ok, of pid] True len by (simp add: storage_write_def)
  with storage_write_ok [OF ok _ _ len, of pid ready store] True
  have "server_ok ?srv" "running ?srv = running srv" "server_store ready store ?srv = (server_store ready store srv)(pid := pg)"
    by auto
  moreover have "holdings ?srv = holdings srv"
    by (auto simp: holdings_def is_local_def fun_eq_iff)
  moreover have "handle_put sink peer fd pid st srv w = Ret (True, st\<lparr>pages_written := pages_written st + 1\<rparr>, ?srv,
      put_out (ack pid) (took PAGE_SIZE w))" if "rx w = pg @ bs" "reliable (kern w)" for w bs
    using handle_put_local [OF ok _ _ len that fd] True by blast
  ultimately show ?thesis
    by blast
next
  case False
  obtain ctx i g v where c: "g_cluster srv = Some ctx" "route ctx (g_os srv) pid = Some (i, g, v)"
    and v: "synced ready v" "reliable (kern v)" "pid \<in> pages (store (far v))"
    by (rule store_remote [OF False p])
  have lk: "links_ok ctx (g_os srv)"
    using ok c(1) by (simp add: server_ok_def)
  obtain srv' v' where f: "relinked i g v' srv srv'" "synced ready v'" "kern v' = kern v"
    "store (far v') = (store (far v))(pid := pg)"
    and h: "\<forall>w bs. rx w = pg @ bs \<longrightarrow> reliable (kern w) \<longrightarrow> handle_put sink peer fd pid st srv w
      = Ret (True, st\<lparr>pages_forwarded := pages_forwarded st + 1\<rparr>, srv', put_out (ack pid) (took PAGE_SIZE w))"
    using handle_put_forward [OF ok False c v fd len, of st] by (elim exE conjE)
  from h relinked_ok [OF f(1) ok] relinked_holdings [OF f(1)] store_relink [OF f(1) c lk v(1,2) f(2,3,4) False]
  show ?thesis
    by auto
qed

text \<open>One request through the session, whatever follows it in the buffer.\<close>

lemma serve_request:
  assumes r: "sess_ready s" and rq: "0 < length req" "\<And>bs. request_complete (req @ bs)"
    and k: "\<And>bs. handle_request sink peer (sess_fd s) (sess_counters s) (sess_server s)
        ((sess_net s)\<lparr>rx := req @ bs\<rparr>) = Ret (True, st, srv, w bs)"
    and w: "\<And>bs. flush (w bs) = (sess_net s)\<lparr>calls := n, rx := bs\<rparr>" "\<And>bs. sent_bytes (w bs) = out"
  shows "serve peer s (req @ bs) =
    (fst (serve peer (s\<lparr>sess_server := srv, sess_counters := st, sess_net := (sess_net s)\<lparr>calls := n\<rparr>\<rparr>) bs),
     out @ snd (serve peer (s\<lparr>sess_server := srv, sess_counters := st, sess_net := (sess_net s)\<lparr>calls := n\<rparr>\<rparr>) bs))"
proof -
  let ?s = "s\<lparr>sess_server := srv, sess_counters := st, sess_net := (sess_net s)\<lparr>calls := n\<rparr>\<rparr>"
  let ?k = "length req + length bs"
  have live: "sess_live s" "running (sess_server s)" and rx: "rx (sess_net s) = []"
    using r by (simp_all add: sess_ready_def)
  have id: "s\<lparr>sess_server := srv, sess_counters := st, sess_net := (sess_net s)\<lparr>calls := n, rx := bs\<rparr>, sess_live := True\<rparr>
      = arrive bs ?s"
    using live(1) rx by (simp add: arrive_def)
  have in_buf: "arrive (req @ bs) s = s\<lparr>sess_net := (sess_net s)\<lparr>rx := req @ bs\<rparr>\<rparr>"
    using rx by (simp add: arrive_def)
  have "serve_loop ?k peer (arrive (req @ bs) s) =
      (fst (serve_loop (?k - 1) peer (arrive bs ?s)), out @ snd (serve_loop (?k - 1) peer (arrive bs ?s)))"
    using rq live k [of bs] w [of bs] by (cases ?k) (simp_all add: in_buf Let_def id)
  moreover have "serve_loop (?k - 1) peer (arrive bs ?s) = serve peer ?s bs"
  proof (cases "bs = []")
    case True
    have "\<not> request_complete []" by (simp add: request_complete_def HDR_SIZE_def)
    moreover have "arrive [] ?s = ?s" by (simp add: arrive_def)
    ultimately show ?thesis
      using True rx by (cases "?k - 1") (simp_all add: serve_def)
  next
    case False
    have "length bs \<le> ?k - 1" using rq(1) by linarith
    with False show ?thesis
      using rx by (simp add: serve_def) (rule serve_loop_fuel, simp_all add: arrive_def)
  qed
  ultimately show ?thesis
    using rq(1) rx by (simp add: serve_def arrive_def)
qed

lemma serve_get:
  assumes r: "sess_ready s" and p: "pid \<in> pages (sess_store ready store s)"
  shows "\<exists>s'. sess_ready s' \<and> holdings (sess_server s') = holdings (sess_server s) \<and>
    sess_store ready store s' = sess_store ready store s \<and>
    (\<forall>bs. serve peer s (get_req pid @ bs) = (fst (serve peer s' bs), sess_store ready store s pid @ snd (serve peer s' bs)))"
proof -
  have ok: "server_ok (sess_server s)" and fd: "0 \<le> sess_fd s" and rel: "reliable (kern (sess_net s))"
    and net: "tx (sess_net s) = []" "rx (sess_net s) = []" "far (sess_net s) = []"
    using r by (simp_all add: sess_ready_def)
  have none_sent: "sent_bytes ((sess_net s)\<lparr>rx := x\<rparr>) = []" for x
    using net by (simp add: sent_bytes_def)
  let ?d = "sess_store ready store s pid" and ?n = "calls (sess_net s) + 2"
  obtain st srv where h: "server_ok srv" "running srv = running (sess_server s)" "holdings srv = holdings (sess_server s)"
    "server_store ready store srv = sess_store ready store s"
    "\<forall>w :: bytes net. reliable (kern w) \<longrightarrow> handle_get peer (sess_fd s) pid (sess_counters s) (sess_server s) w
       = Ret (True, st, srv, put_out ?d w)"
    using handle_get_ok [OF ok p fd, of "sess_counters s"] by (elim exE conjE)
  let ?s = "s\<lparr>sess_server := srv, sess_counters := st, sess_net := (sess_net s)\<lparr>calls := ?n\<rparr>\<rparr>"
  have "serve peer s (get_req pid @ bs) = (fst (serve peer ?s bs), ?d @ snd (serve peer ?s bs))" for bs
  proof (rule serve_request [OF r])
    show "0 < length (get_req pid)" by (simp add: get_req_def)
    show "handle_request sink peer (sess_fd s) (sess_counters s) (sess_server s) ((sess_net s)\<lparr>rx := get_req pid @ bs\<rparr>)
        = Ret (True, st, srv, put_out ?d (took HDR_SIZE ((sess_net s)\<lparr>rx := get_req pid @ bs\<rparr>)))" for bs
      using h(5) rel fd by (simp add: handle_request_get)
    show "flush (put_out ?d (took HDR_SIZE ((sess_net s)\<lparr>rx := get_req pid @ bs\<rparr>))) = (sess_net s)\<lparr>calls := ?n, rx := bs\<rparr>" for bs
      using net by (simp add: flush_def put_out_def took_def deliver_def called_def get_req_def)
    show "sent_bytes (put_out ?d (took HDR_SIZE ((sess_net s)\<lparr>rx := get_req pid @ bs\<rparr>))) = ?d" for bs
      by (simp add: none_sent)
  qed simp
  moreover have "sess_ready ?s"
    using r h(1,2) by (simp add: sess_ready_def)
  ultimately show ?thesis
    using h(3,4) by (intro exI [of _ ?s]) simp
qed

lemma serve_put:
  assumes r: "sess_ready s" and p: "pid \<in> pages (sess_store ready store s)" and len: "length pg = PAGE_SIZE"
  shows "\<exists>s'. sess_ready s' \<and> holdings (sess_server s') = holdings (sess_server s) \<and>
    sess_store ready store s' = (sess_store ready store s)(pid := pg) \<and>
    (\<forall>bs. serve peer s (put_req pid pg @ bs) = (fst (serve peer s' bs), ack pid @ snd (serve peer s' bs)))"
proof -
  have ok: "server_ok (sess_server s)" and fd: "0 \<le> sess_fd s" and rel: "reliable (kern (sess_net s))"
    and net: "tx (sess_net s) = []" "rx (sess_net s) = []" "far (sess_net s) = []"
    using r by (simp_all add: sess_ready_def)
  have none_sent: "sent_bytes ((sess_net s)\<lparr>rx := x\<rparr>) = []" for x
    using net by (simp add: sent_bytes_def)
  let ?n = "calls (sess_net s) + 3" and ?w = "\<lambda>bs. (sess_net s)\<lparr>rx := put_req pid pg @ bs\<rparr>"
  obtain st srv where h: "server_ok srv" "running srv = running (sess_server s)" "holdings srv = holdings (sess_server s)"
    "server_store ready store srv = (sess_store ready store s)(pid := pg)"
    "\<forall>w bs. rx w = pg @ bs \<longrightarrow> reliable (kern w) \<longrightarrow>
       handle_put sink peer (sess_fd s) pid (sess_counters s) (sess_server s) w
         = Ret (True, st, srv, put_out (ack pid) (took PAGE_SIZE w))"
    using handle_put_ok [OF ok p len fd, of "sess_counters s"] by (elim exE conjE)
  let ?s = "s\<lparr>sess_server := srv, sess_counters := st, sess_net := (sess_net s)\<lparr>calls := ?n\<rparr>\<rparr>"
  have "serve peer s (put_req pid pg @ bs) = (fst (serve peer ?s bs), ack pid @ snd (serve peer ?s bs))" for bs
  proof (rule serve_request [OF r])
    show "0 < length (put_req pid pg)" by (simp add: put_req_def)
    show "request_complete (put_req pid pg @ bs)" for bs using len by simp
    show "handle_request sink peer (sess_fd s) (sess_counters s) (sess_server s) (?w bs)
        = Ret (True, st, srv, put_out (ack pid) (took PAGE_SIZE (took HDR_SIZE (?w bs))))" for bs
    proof -
      have "rx (took HDR_SIZE (?w bs)) = pg @ bs" by (simp add: put_req_def)
      with h(5) rel fd show ?thesis by (simp add: handle_request_put)
    qed
    show "flush (put_out (ack pid) (took PAGE_SIZE (took HDR_SIZE (?w bs)))) = (sess_net s)\<lparr>calls := ?n, rx := bs\<rparr>" for bs
      using net len by (simp add: flush_def put_out_def took_def deliver_def called_def put_req_def numeral_3_eq_3)
    show "sent_bytes (put_out (ack pid) (took PAGE_SIZE (took HDR_SIZE (?w bs)))) = ack pid" for bs
      by (simp add: none_sent)
  qed
  moreover have "sess_ready ?s"
    using r h(1,2) by (simp add: sess_ready_def)
  ultimately show ?thesis
    using h(3,4) by (intro exI [of _ ?s]) simp
qed

lemma handle_request_ok:
  assumes ok: "server_ok srv" and rq: "request_ok (pages (server_store ready store srv)) rq" and th: "thread_ready th"
  shows "\<exists>st' srv' w'. handle_request sink peer (ct_fd th) (ct_counters th) srv ((ct_net th)\<lparr>rx := request_bytes rq\<rparr>)
      = Ret (True, st', srv', w') \<and> server_ok srv' \<and>
    server_store ready store srv' = snd (spec_request rq (server_store ready store srv)) \<and>
    sent_bytes w' = fst (spec_request rq (server_store ready store srv)) \<and> rx w' = [] \<and> kern w' = kern (ct_net th)"
proof -
  let ?w = "(ct_net th)\<lparr>rx := request_bytes rq\<rparr>"
  have fd: "0 \<le> ct_fd th" and rel: "reliable (kern ?w)" and none: "sent_bytes ?w = []"
    using th by (simp_all add: thread_ready_def sent_bytes_def)
  show ?thesis
  proof (cases rq)
    case (Get pid)
    then have p: "pid \<in> pages (server_store ready store srv)" using rq by simp
    obtain st srv' where h: "server_ok srv'" "server_store ready store srv' = server_store ready store srv"
      "\<forall>w :: bytes net. reliable (kern w) \<longrightarrow> handle_get peer (ct_fd th) pid (ct_counters th) srv w
         = Ret (True, st, srv', put_out (server_store ready store srv pid) w)"
      using handle_get_ok [OF ok p fd, of "ct_counters th"] by (elim exE conjE)
    have "handle_request sink peer (ct_fd th) (ct_counters th) srv ?w
        = Ret (True, st, srv', put_out (server_store ready store srv pid) (took HDR_SIZE ?w))"
      using handle_request_get [of ?w pid "[]" "ct_fd th" peer "ct_counters th" srv] Get rel fd h(3) by simp
    with h(1,2) none Get show ?thesis
      by (intro exI conjI) (assumption | simp add: get_req_def)+
  next
    case (Put pid pg)
    then have p: "pid \<in> pages (server_store ready store srv)" and len: "length pg = PAGE_SIZE" using rq by simp_all
    obtain st srv' where h: "server_ok srv'" "server_store ready store srv' = (server_store ready store srv)(pid := pg)"
      "\<forall>w bs. rx w = pg @ bs \<longrightarrow> reliable (kern w) \<longrightarrow> handle_put sink peer (ct_fd th) pid (ct_counters th) srv w
         = Ret (True, st, srv', put_out (ack pid) (took PAGE_SIZE w))"
      using handle_put_ok [OF ok p len fd, of "ct_counters th"] by (elim exE conjE)
    have "rx (took HDR_SIZE ?w) = pg @ []"
      using Put by (simp add: put_req_def)
    then have "handle_put sink peer (ct_fd th) pid (ct_counters th) srv (took HDR_SIZE ?w)
        = Ret (True, st, srv', put_out (ack pid) (took PAGE_SIZE (took HDR_SIZE ?w)))"
      using h(3) rel by simp
    then have "handle_request sink peer (ct_fd th) (ct_counters th) srv ?w
        = Ret (True, st, srv', put_out (ack pid) (took PAGE_SIZE (took HDR_SIZE ?w)))"
      using handle_request_put [of ?w pid pg "[]" "ct_fd th" peer "ct_counters th" srv] Put rel fd by simp
    with h(1,2) none Put len show ?thesis
      by (intro exI conjI) (assumption | simp add: put_req_def)+
  qed
qed

lemma serve_schedule_ok:
  assumes "server_ok srv" and "\<forall>(i, rq) \<in> set rqs. request_ok P rq" and "\<forall>i. thread_ready (ths i)"
    and "P = pages (server_store ready store srv)"
  shows "\<exists>srv'. serve_schedule peer rqs srv ths = Ret (fst (spec_schedule rqs (server_store ready store srv)), srv') \<and>
    server_ok srv' \<and> server_store ready store srv' = snd (spec_schedule rqs (server_store ready store srv))"
  using assms
proof (induction rqs arbitrary: srv ths)
  case (Cons x rqs)
  obtain i rq where x: "x = (i, rq)" by (cases x)
  let ?V = "server_store ready store srv"
  have rq: "request_ok (pages ?V) rq" and th: "thread_ready (ths i)" and "rx (ct_net (ths i)) = []"
    using Cons.prems x by (auto simp: thread_ready_def)
  then obtain st srv1 w1 where 1: "handle_request sink peer (ct_fd (ths i)) (ct_counters (ths i)) srv
      ((ct_net (ths i))\<lparr>rx := rx (ct_net (ths i)) @ request_bytes rq\<rparr>) = Ret (True, st, srv1, w1)" "server_ok srv1"
    "server_store ready store srv1 = snd (spec_request rq ?V)" "sent_bytes w1 = fst (spec_request rq ?V)"
    "rx w1 = []" "kern w1 = kern (ct_net (ths i))"
    using handle_request_ok [OF Cons.prems(1) rq th] by auto
  let ?ths = "ths(i := (ths i)\<lparr>ct_counters := st, ct_net := flush w1\<rparr>)"
  have "\<forall>j. thread_ready (?ths j)"
    using Cons.prems(3) 1(5,6) by (simp add: thread_ready_def)
  moreover have "P = pages (server_store ready store srv1)"
    using Cons.prems(4) rq 1(3) by (cases rq) (auto simp: pages_def)
  moreover have "\<forall>(i, rq) \<in> set rqs. request_ok P rq"
    using Cons.prems(2) by simp
  ultimately obtain srv2 where "serve_schedule peer rqs srv1 ?ths
      = Ret (fst (spec_schedule rqs (server_store ready store srv1)), srv2)" "server_ok srv2"
    "server_store ready store srv2 = snd (spec_schedule rqs (server_store ready store srv1))"
    using Cons.IH [OF 1(2)] by blast
  with 1 show ?case
    unfolding x by (simp add: Let_def case_prod_unfold)
qed simp

text \<open>
  A server over lawful nodes is a lawful node: requests may be forwarded any number of
  times.
\<close>

lemma serve_quiet: "quiet (serve peer)"
  by (simp add: quiet_def serve_def)

lemma serve_lawful: "page_peer (serve peer) sess_ready (sess_store ready store)"
  using serve_quiet serve_get serve_put by unfold_locales blast+

text \<open>It also keeps its holdings.\<close>

lemma serve_lawful_holdings:
  "page_peer (serve peer) (\<lambda>s. sess_ready s \<and> holdings (sess_server s) = c) (sess_store ready store)"
  using serve_quiet serve_get serve_put by unfold_locales blast+

end

subsection \<open>Servers are lawful page peers\<close>

lemma no_peer_lawful: "page_peer no_peer (\<lambda>_. False) (\<lambda>_ _. [])"
  by unfold_locales (simp_all add: quiet_def no_peer_def)

text \<open>A server on its own, and a member of a cluster whose other members it forwards to.\<close>

interpretation standalone: page_peer "serve no_peer" sess_ready "sess_store (\<lambda>_. False) (\<lambda>_ _. [])"
  by (rule page_peer.serve_lawful [OF no_peer_lawful])

interpretation member: page_peer "serve (serve no_peer)" sess_ready
  "sess_store sess_ready (sess_store (\<lambda>_. False) (\<lambda>_ _. []))"
  by (rule standalone.serve_lawful)

subsection \<open>Examples\<close>

lemma connection_sel [simp]:
  "kern (connection k s) = k" "far (connection k s) = s" "tx (connection k s) = []" "rx (connection k s) = []"
  "synced rd (connection k s) = rd s"
  by (simp_all add: connection_def synced_def)

lemma swift_kernel_reliable [simp]: "reliable swift_kernel"
  by (simp add: reliable_def swift_kernel_def good_ans_def)

lemma new_session_ready: "server_ok srv \<Longrightarrow> running srv \<Longrightarrow> sess_ready (new_session srv)"
  by (simp add: sess_ready_def new_session_def)

lemma new_session_server [simp]: "sess_server (new_session srv) = srv"
  by (simp add: new_session_def)

lemma solo_server_ok: "server_ok (solo_server x n)" "running (solo_server x n)"
  by (simp_all add: server_ok_def solo_server_def)

lemma server_pages_local:
  assumes "server_ok srv" and "is_local srv p" and "p < g_storage_pages srv"
  shows "p \<in> pages (server_store nr ns srv)"
  using storage_bound [OF assms(1,3)] assms by (simp add: pages_def server_store_def length_mem_read)

lemma solo_server_pages: "p < n \<Longrightarrow> p \<in> pages (server_store nr ns (solo_server x n))"
  by (rule server_pages_local [OF solo_server_ok(1)]) (simp_all add: solo_server_def is_local_def)

lemma duo_server_ok: "server_ok duo_server" "running duo_server"
proof -
  let ?ctx = "(sample_ctx 0 [1])\<lparr>peer_fds := (replicate CLUSTER_MAX_NODES (-1))[1 := 5]\<rparr>"
  have "ctx_ok (sample_ctx 0 [1])"
    by (rule sample_ctx_ok) (simp_all add: CLUSTER_MAX_NODES_def)
  then have "ctx_ok ?ctx" by (simp add: ctx_ok_def)
  moreover have "link_of ?ctx (g_os duo_server) 0 = None"
    by (simp add: link_of_def duo_server_def CLUSTER_MAX_NODES_def)
  moreover have "length (nodes (cl_state ?ctx)) = 2"
    by (simp add: sample_ctx_def)
  ultimately show "server_ok duo_server"
    by (auto simp: server_ok_def links_ok_def duo_server_def less_2_cases_iff)
  show "running duo_server" by (simp add: duo_server_def)
qed

lemma duo_route: "\<exists>i fd. route ((sample_ctx 0 [1])\<lparr>peer_fds := (replicate CLUSTER_MAX_NODES (-1))[1 := 5]\<rparr>) (g_os duo_server) 1
    = Some (i, fd, connection swift_kernel (new_session (solo_server () 2)))"
  by (simp add: route_def cluster_get_owner_def sample_ctx_def sample_node_def covers_def NODE_STATE_ALIVE_def
      NODE_STATE_DEAD_def find_node_by_id_def NODE_ID_LEN_def link_of_def duo_server_def CLUSTER_MAX_NODES_def)

lemma duo_server_pages: "p < 2 \<Longrightarrow> p \<in> pages (server_store sess_ready solo_store duo_server)"
proof -
  assume "p < 2"
  then consider "p = 0" | "p = 1" by (auto simp: word_less_2_iff)
  then show ?thesis
  proof cases
    case 1
    then show ?thesis
      using duo_server_ok(1)
      by (intro server_pages_local) (simp_all add: duo_server_def is_local_def cluster_is_local_def sample_ctx_def sample_node_def)
  next
    case 2
    have "\<not> is_local duo_server 1"
      by (simp add: duo_server_def is_local_def cluster_is_local_def sample_ctx_def sample_node_def)
    moreover have "g_cluster duo_server = Some ((sample_ctx 0 [1])\<lparr>peer_fds := (replicate CLUSTER_MAX_NODES (-1))[1 := 5]\<rparr>)"
      by (simp add: duo_server_def)
    moreover have "sess_ready (new_session (solo_server () 2))"
      by (rule new_session_ready) (rule solo_server_ok)+
    ultimately have "server_store sess_ready solo_store duo_server 1 = solo_store (new_session (solo_server () 2)) 1"
      using duo_route by (auto simp: server_store_def)
    with 2 solo_server_pages [of 1 2 "\<lambda>_. False" "\<lambda>_ _. []" "()"] show ?thesis
      by (simp add: pages_def)
  qed
qed

subsection \<open>A client that is never answered\<close>

lemma recv_loop_silent:
  assumes "rx w = []" and "snd (peer (far w) (tx w)) = []" and "0 < n" and "Fail \<notin> set ans" and "Xfer 0 \<notin> set ans"
  shows "recv_loop peer ans n got w = Blocked"
  using assms(4,5)
proof (induction ans)
  case (Cons a ans)
  with assms show ?case
    by (cases a) (auto simp: Let_def deliver_def)
qed (use assms(3) in simp)

lemma serve_refused_put:
  assumes r: "sess_ready s" and srv: "g_cluster (sess_server s) = None" "g_storage_pages (sess_server s) \<le> pid"
    and len: "length pg = PAGE_SIZE"
  shows "snd (serve np s (put_req pid pg)) = []"
proof -
  let ?w = "(sess_net s)\<lparr>rx := put_req pid pg\<rparr>" and ?srv = "sess_server s"
  have rel: "reliable (kern ?w)" and fd: "0 \<le> sess_fd s" and net: "rx (sess_net s) = []" "sent_bytes ?w = []"
    using r by (simp_all add: sess_ready_def sent_bytes_def)
  have n: "\<not> (is_local ?srv pid \<and> pid < g_storage_pages ?srv)"
    using srv(2) by (simp add: not_less)
  have "rx (took HDR_SIZE ?w) = pg"
    by (simp add: put_req_def)
  then have rcv: "dsm_recv_full sink (sess_fd s) PAGE_SIZE (took HDR_SIZE ?w) = Ret (0, pg, took PAGE_SIZE (took HDR_SIZE ?w))"
    using recv_sink [of PAGE_SIZE "took HDR_SIZE ?w" "sess_fd s"] rel fd len by simp
  have "handle_request sink np (sess_fd s) (sess_counters s) ?srv ?w
      = handle_put sink np (sess_fd s) pid (sess_counters s) ?srv (took HDR_SIZE ?w)"
    using handle_request_put [of ?w pid pg "[]"] rel fd by simp
  also have "\<dots> = Ret (False, sess_counters s, ?srv, took PAGE_SIZE (took HDR_SIZE ?w))"
    unfolding handle_put_def if_not_P [OF n] srv(1) option.case by (simp add: rcv)
  finally have h: "handle_request sink np (sess_fd s) (sess_counters s) ?srv ?w
    = Ret (False, sess_counters s, ?srv, took PAGE_SIZE (took HDR_SIZE ?w))" .
  have "arrive (put_req pid pg) s = s\<lparr>sess_net := ?w\<rparr>"
    using net(1) by (simp add: arrive_def)
  moreover have "snd (serve_loop n np (s\<lparr>sess_net := ?w\<rparr>)) = []" for n
    using h net(2) by (cases n) (simp_all add: Let_def)
  ultimately show ?thesis
    by (simp add: serve_def)
qed

subsection \<open>An owner whose connection has broken\<close>

lemma rpc_get_broken:
  assumes "broken (kern w)" and "0 \<le> fd"
  shows "dsm_rpc_get peer fd pid w = Ret (-1, [], called w)"
proof -
  obtain rest where "kern w (calls w) = Fail # rest"
    using assms(1) by (auto simp: broken_def)
  with assms(2) show ?thesis
    by (simp add: dsm_rpc_get_def dsm_send_full_def answers_def header_bytes_def)
qed

lemma rpc_put_broken:
  assumes "broken (kern w)" and "0 \<le> fd"
  shows "dsm_rpc_put peer fd pid pg w = Ret (-1, called w)"
proof -
  obtain rest where "kern w (calls w) = Fail # rest"
    using assms(1) by (auto simp: broken_def)
  with assms(2) show ?thesis
    by (simp add: dsm_rpc_put_def dsm_sendv_def answers_def)
qed

text \<open>A forward over the broken connection fails and leaves everything as it is but the call count.\<close>

lemma get_peer_connection_cached:
  assumes "ctx_ok ctx" and "find_node_by_id (cl_state ctx) (n_id n) = Some i" and "0 \<le> peer_fds ctx ! i"
  shows "get_peer_connection ctx n os = Ret (peer_fds ctx ! i, ctx, os)"
proof -
  have "i < length (peer_fds ctx)"
    using assms(1) find_node_by_id_Some(1) [OF assms(2)] by (auto simp: ctx_ok_def table_ok_def)
  with assms(2,3) show ?thesis
    by (simp add: get_peer_connection_def)
qed

lemma lost_call_keeps:
  assumes "lost_call srv srv'"
  shows "g_cluster srv' = g_cluster srv" "g_storage srv' = g_storage srv" "dials (g_os srv') = dials (g_os srv)"
    "lost_owner srv' pid = lost_owner srv pid"
  using assms by (auto simp: lost_call_def lost_owner_def is_local_def fun_upd_apply called_def split: if_splits)

lemma server_same_cluster: "g_cluster srv = Some ctx \<Longrightarrow> srv\<lparr>g_cluster := Some ctx, g_os := os\<rparr> = srv\<lparr>g_os := os\<rparr>"
  by (cases srv) simp

lemma handle_get_lost:
  assumes l: "lost_owner srv pid" and fd: "0 \<le> fd"
  shows "\<exists>srv'. lost_call srv srv' \<and>
    (\<forall>w :: 'c net. reliable (kern w) \<longrightarrow> handle_get np fd pid st srv w = Ret (True, st, srv', put_out zero_page w))"
proof -
  obtain ctx n i where c: "g_cluster srv = Some ctx" "ctx_ok ctx" "cluster_get_owner ctx pid = Some n"
    "find_node_by_id (cl_state ctx) (n_id n) = Some i" "0 \<le> peer_fds ctx ! i"
    "broken (kern (conns (g_os srv) (peer_fds ctx ! i)))" and nl: "\<not> (is_local srv pid \<and> pid < g_storage_pages srv)"
    using l unfolding lost_owner_def by blast
  let ?g = "peer_fds ctx ! i"
  let ?os = "(g_os srv)\<lparr>conns := (conns (g_os srv))(?g := called (conns (g_os srv) ?g))\<rparr>"
  have "cluster_forward_get np ctx pid (g_os srv) = Ret (-1, [], ctx, ?os)"
    using c(5) by (simp add: cluster_forward_get_def c(3) get_peer_connection_cached [OF c(2,4,5)] rpc_get_broken [OF c(6,5)])
  then have "handle_get np fd pid st srv w = Ret (True, st, srv\<lparr>g_os := ?os\<rparr>, put_out zero_page w)"
    if "reliable (kern w)" for w :: "'c net"
    unfolding handle_get_def if_not_P [OF nl]
    by (simp add: c(1) Let_def reply_good [OF that fd] zero_page_def server_same_cluster [OF c(1)])
  then show ?thesis
    unfolding lost_call_def by blast
qed

lemma handle_put_lost:
  assumes l: "lost_owner srv pid" and fd: "0 \<le> fd" and len: "length pg = PAGE_SIZE"
  shows "\<exists>srv'. lost_call srv srv' \<and>
    (\<forall>w bs. rx w = pg @ bs \<longrightarrow> reliable (kern w) \<longrightarrow>
       handle_put sink np fd pid st srv w = Ret (False, st, srv', took PAGE_SIZE w))"
proof -
  obtain ctx n i where c: "g_cluster srv = Some ctx" "ctx_ok ctx" "cluster_get_owner ctx pid = Some n"
    "find_node_by_id (cl_state ctx) (n_id n) = Some i" "0 \<le> peer_fds ctx ! i"
    "broken (kern (conns (g_os srv) (peer_fds ctx ! i)))" and nl: "\<not> (is_local srv pid \<and> pid < g_storage_pages srv)"
    using l unfolding lost_owner_def by blast
  let ?g = "peer_fds ctx ! i"
  let ?os = "(g_os srv)\<lparr>conns := (conns (g_os srv))(?g := called (conns (g_os srv) ?g))\<rparr>"
  have "cluster_forward_put np ctx pid pg (g_os srv) = Ret (-1, ctx, ?os)"
    using c(5) by (simp add: cluster_forward_put_def c(3) get_peer_connection_cached [OF c(2,4,5)] rpc_put_broken [OF c(6,5)])
  then have "handle_put sink np fd pid st srv w = Ret (False, st, srv\<lparr>g_os := ?os\<rparr>, took PAGE_SIZE w)"
    if "rx w = pg @ bs" "reliable (kern w)" for w bs
    unfolding handle_put_def if_not_P [OF nl]
    by (simp add: c(1) Let_def recv_page [OF that fd len] server_same_cluster [OF c(1)])
  then show ?thesis
    unfolding lost_call_def by blast
qed

lemma cut_off_lost: "lost_owner cut_off_server 1"
proof -
  let ?ctx = "(sample_ctx 0 [1])\<lparr>peer_fds := (replicate CLUSTER_MAX_NODES (-1))[1 := 5]\<rparr>"
  have "ctx_ok (sample_ctx 0 [1])"
    by (rule sample_ctx_ok) (simp_all add: CLUSTER_MAX_NODES_def)
  then have "ctx_ok ?ctx" by (simp add: ctx_ok_def)
  moreover have "cluster_get_owner ?ctx 1 = Some (sample_node 1)" "find_node_by_id (cl_state ?ctx) (n_id (sample_node 1)) = Some 1"
    by (simp_all add: cluster_get_owner_def sample_ctx_def sample_node_def covers_def NODE_STATE_ALIVE_def
      NODE_STATE_DEAD_def find_node_by_id_def NODE_ID_LEN_def)
  moreover have "g_cluster cut_off_server = Some ?ctx" "\<not> is_local cut_off_server 1"
    by (simp_all add: cut_off_server_def duo_server_def is_local_def cluster_is_local_def sample_ctx_def sample_node_def)
  moreover have "0 \<le> peer_fds ?ctx ! 1" "broken (kern (conns (g_os cut_off_server) g))" for g
    by (simp_all add: CLUSTER_MAX_NODES_def cut_off_server_def broken_def)
  ultimately show ?thesis
    unfolding lost_owner_def by blast
qed

subsection \<open>Properties\<close>

text \<open>
  What is put can be got back: over a connection to a node, a PUT of a page the node serves
  is acknowledged, and a GET that follows returns the new contents for that page and the old
  ones for every other page, whether the node stores the pages itself or forwards the
  requests to their owners.
\<close>

lemma node_put_get:
  assumes "synced sess_ready w" and "reliable (kern w)" and "0 \<le> fd" and "length pg = PAGE_SIZE"
    and "p \<in> pages (node_store (far w))" and "q \<in> pages (node_store (far w))"
  shows "\<exists>w1 w2. dsm_rpc_put node_peer fd p pg w = Ret (0, w1) \<and>
    dsm_rpc_get node_peer fd q w1 = Ret (0, if q = p then pg else node_store (far w) q, w2)"
proof -
  obtain w1 where 1: "dsm_rpc_put node_peer fd p pg w = Ret (0, w1)"
    using member.rpc_put_good [OF assms(1,5,4,2,3)] by blast
  note w1 = member.rpc_put_0 [OF assms(1,5,4) 1]
  have k: "kern w1 = kern w"
    using ensures_rpc_put [of node_peer fd p pg w] 1 by simp
  have q: "q \<in> pages (node_store (far w1))"
    using w1 assms(4,6) by (simp add: pages_def)
  have s1: "synced sess_ready w1" "reliable (kern w1)"
    using w1 k assms(2) by simp_all
  obtain d w2 where 2: "dsm_rpc_get node_peer fd q w1 = Ret (0, d, w2)"
    using member.rpc_get_good [OF s1(1) q s1(2) assms(3)] by blast
  with member.rpc_get_0 [OF s1(1) q 2] w1 1 show ?thesis
    by simp
qed




text \<open>
  A batch of GETs, sent back to back before the first reply is read, returns the pages in
  the order they were asked for.
\<close>

lemma node_get_batch:
  assumes "synced sess_ready w" and "reliable (kern w)" and "0 \<le> fd" and "set ids \<subseteq> pages (node_store (far w))"
  shows "\<exists>w'. dsm_rpc_get_batch node_peer fd ids w = Ret (0, concat (map (node_store (far w)) ids), w') \<and>
    node_store (far w') = node_store (far w)"
proof -
  obtain bufs w' where r: "dsm_rpc_get_batch node_peer fd ids w = Ret (0, bufs, w')"
    using member.rpc_get_batch_good [OF assms(1,4,2,3)] by blast
  with member.rpc_get_batch_0 [OF assms(1,4) r] show ?thesis
    by simp
qed

text \<open>
  The last writer wins: however the requests of any number of clients are interleaved, the
  server answers them as one memory would that serves them in that order. A GET returns what
  the last PUT of the page before it stored, no matter which clients made them.
\<close>

lemma last_writer_wins:
  assumes "server_ok srv" and "\<forall>i. thread_ready (ths i)"
    and "\<forall>(i, rq) \<in> set rqs. request_ok (pages (server_store sess_ready solo_store srv)) rq"
  shows "\<exists>srv'. serve_schedule (serve no_peer) rqs srv ths
      = Ret (fst (spec_schedule rqs (server_store sess_ready solo_store srv)), srv') \<and> server_ok srv' \<and>
    server_store sess_ready solo_store srv' = snd (spec_schedule rqs (server_store sess_ready solo_store srv))"
  using standalone.serve_schedule_ok [OF assms(1,3,2) refl] .



end
