(* ===== verification/DSM_Fabric.thy ===== *)
theory DSM_Fabric
  imports DSM_Node
begin

section \<open>The nodes of a cluster as one memory (dsm\_server.c, dsm\_cluster.c)\<close>

text \<open>
  Every server of a cluster takes requests from clients of its own, serves the pages it owns
  and forwards the rest. This theory runs all of them together. A node is a \<open>server\<close>; a
  connection from node \<open>i\<close> to node \<open>k\<close> ends in a client thread of \<open>k\<close>, a session of its own that
  works on the one storage of \<open>k\<close>. A request at node \<open>i\<close> is handled by \<open>handle_request\<close> on node \<open>i\<close>
  with the present storages at the far ends of its connections (\<open>attach\<close>), and what the far
  ends did to them is then the storage of their nodes (\<open>settle\<close>). The result: whichever nodes
  the clients are connected to, the cluster answers as one memory.
\<close>

subsection \<open>Definitions\<close>

text \<open>\<open>via i k\<close> is the descriptor of node \<open>i\<close>'s connection to node \<open>k\<close>.\<close>

type_synonym node = "unit session server"
type_synonym wiring = "nat \<Rightarrow> nat \<Rightarrow> int"

definition far_end :: "wiring \<Rightarrow> nat \<Rightarrow> nat \<Rightarrow> int \<Rightarrow> nat option" where
  "far_end via n i fd = find (\<lambda>k. via i k = fd) [0..<n]"

definition share :: "bytes \<Rightarrow> unit session net \<Rightarrow> unit session net" where
  "share m w = w\<lparr>far := (far w)\<lparr>sess_server := (sess_server (far w))\<lparr>g_storage := m\<rparr>\<rparr>\<rparr>"

definition current :: "wiring \<Rightarrow> node list \<Rightarrow> nat \<Rightarrow> int \<Rightarrow> unit session net \<Rightarrow> unit session net" where
  "current via G i fd w =
     (case far_end via (length G) i fd of None \<Rightarrow> w | Some k \<Rightarrow> share (g_storage (G ! k)) w)"

text \<open>The connections of a node, those made and those a dial would make, seen through \<open>f\<close>.\<close>

definition view_os :: "(int \<Rightarrow> 's net \<Rightarrow> 's net) \<Rightarrow> 's os \<Rightarrow> 's os" where
  "view_os f os = os\<lparr>conns := \<lambda>fd. f fd (conns os fd),
     dial := \<lambda>k a p. case dial os k a p of Connected fd w \<Rightarrow> Connected fd (f fd w) | ans \<Rightarrow> ans\<rparr>"

definition attach :: "wiring \<Rightarrow> node list \<Rightarrow> nat \<Rightarrow> node" where
  "attach via G i = (G ! i)\<lparr>g_os := view_os (current via G i) (g_os (G ! i))\<rparr>"

definition far_storage :: "node \<Rightarrow> int \<Rightarrow> bytes" where
  "far_storage srv fd = g_storage (sess_server (far (conns (g_os srv) fd)))"

definition settle :: "wiring \<Rightarrow> node list \<Rightarrow> nat \<Rightarrow> node \<Rightarrow> node list" where
  "settle via G i srv =
     map (\<lambda>k. if k = i then srv else (G ! k)\<lparr>g_storage := far_storage srv (via i k)\<rparr>) [0..<length G]"

text \<open>
  A run: each request names the node it arrives at, the client thread there that takes it, and
  the request. A thread that leaves its loop ends the run.
\<close>

fun serve_cluster ::
  "wiring \<Rightarrow> (nat \<times> nat \<times> request) list \<Rightarrow> node list \<Rightarrow> (nat \<Rightarrow> nat \<Rightarrow> client_thread) \<Rightarrow> (bytes list \<times> node list) outcome" where
  "serve_cluster via [] G ths = Ret ([], G)"
| "serve_cluster via ((i, c, rq) # rest) G ths =
     (let th = ths i c; w = ct_net th in
      bind_oc (handle_request sink (serve no_peer) (ct_fd th) (ct_counters th) (attach via G i) (w\<lparr>rx := rx w @ request_bytes rq\<rparr>))
        (\<lambda>(go, st, srv, w).
          let G = settle via G i srv in
          if \<not> go then Ret ([], G)
          else bind_oc (serve_cluster via rest G (ths(i := (ths i)(c := th\<lparr>ct_counters := st, ct_net := flush w\<rparr>))))
                 (\<lambda>(replies, G). Ret (sent_bytes w # replies, G))))"

text \<open>The requests of a run without the nodes they arrive at.\<close>

abbreviation requests :: "(nat \<times> nat \<times> request) list \<Rightarrow> (nat \<times> request) list" where
  "requests \<equiv> map snd"

text \<open>
  A cluster that is in working order for a set of pages: each page has an owner, which serves
  it from its storage, and every other node has a route for it that ends in a thread of that
  owner. Its memory is that of the owners.
\<close>

abbreviation page_at :: "bytes \<Rightarrow> u32 \<Rightarrow> bytes" where
  "page_at m p \<equiv> mem_read m (storage_offset p) PAGE_SIZE"

definition serves :: "'s server \<Rightarrow> u32 \<Rightarrow> bool" where
  "serves srv p \<longleftrightarrow> is_local srv p \<and> p < g_storage_pages srv"

definition member_link :: "node \<Rightarrow> unit session net \<Rightarrow> bool" where
  "member_link owner w \<longleftrightarrow> synced sess_ready w \<and> reliable (kern w) \<and> holdings (sess_server (far w)) = holdings owner"

definition reaches :: "node \<Rightarrow> u32 \<Rightarrow> int \<Rightarrow> node \<Rightarrow> bool" where
  "reaches srv p fd owner \<longleftrightarrow>
     (\<exists>ctx j w. g_cluster srv = Some ctx \<and> route ctx (g_os srv) p = Some (j, fd, w) \<and> member_link owner w)"

definition wired :: "wiring \<Rightarrow> (u32 \<Rightarrow> nat) \<Rightarrow> u32 set \<Rightarrow> node list \<Rightarrow> bool" where
  "wired via own P G \<longleftrightarrow> (\<forall>i < length G. inj_on (via i) {..<length G} \<and> server_ok (G ! i)) \<and>
     (\<forall>p \<in> P. own p < length G \<and> serves (G ! own p) p \<and>
       (\<forall>i < length G. i \<noteq> own p \<longrightarrow> \<not> serves (G ! i) p \<and> reaches (G ! i) p (via i (own p)) (G ! own p)))"

definition cluster_store :: "(u32 \<Rightarrow> nat) \<Rightarrow> node list \<Rightarrow> page_memory" where
  "cluster_store own G p = page_at (g_storage (G ! own p)) p"

text \<open>The page a request is for, and what it does to a storage that has the page.\<close>

fun request_page :: "request \<Rightarrow> u32" where
  "request_page (Get p) = p"
| "request_page (Put p pg) = p"

fun request_storage :: "request \<Rightarrow> bytes \<Rightarrow> bytes" where
  "request_storage (Get p) m = m"
| "request_storage (Put p pg) m = mem_write m (storage_offset p) pg"

text \<open>
  Example: two nodes, each the owner of one page, that dial each other when the first request
  has to be forwarded.
\<close>

definition pair_node :: "'s net \<Rightarrow> u8 \<Rightarrow> u8 \<Rightarrow> 's server" where
  "pair_node w a b =
     \<lparr>running = True, g_cluster = Some (sample_ctx a [b]), g_storage = replicate (2 * PAGE_SIZE) 0, g_storage_pages = 2,
      g_os = \<lparr>conns = \<lambda>_. w, dial = \<lambda>_ addr _. if addr = ucast b then Connected 5 w else Refused, dials = 0\<rparr>\<rparr>"

definition pair_link :: "u8 \<Rightarrow> u8 \<Rightarrow> unit session net" where
  "pair_link a b = connection swift_kernel (new_session (pair_node (connection swift_kernel ()) a b))"

definition pair_cluster :: "node list" where
  "pair_cluster = [pair_node (pair_link 1 0) 0 1, pair_node (pair_link 0 1) 1 0]"

definition pair_via :: wiring where
  "pair_via i k = (if k = i then 3 else 5)"

subsection \<open>Connections seen through a function\<close>

lemma link_of_view:
  "link_of ctx (view_os f os) i = map_option (\<lambda>(fd, w). (fd, f fd w)) (link_of ctx os i)"
  by (auto simp: link_of_def view_os_def split: dial_ans.split)

lemma route_view:
  "route ctx (view_os f os) p = map_option (\<lambda>(j, fd, w). (j, fd, f fd w)) (route ctx os p)"
  by (auto simp: route_def link_of_view split: option.split)

lemma links_ok_view:
  assumes "links_ok ctx os"
  shows "links_ok ctx (view_os f os)"
proof -
  have "dial (view_os f os) k a p = dial (view_os f os) (dials (view_os f os)) a p" for k a p
    using links_ok_dial [OF assms, of k a p "dials os"] by (simp add: view_os_def)
  moreover have "fd \<noteq> fd'" if "i < length (nodes (cl_state ctx))" "j < length (nodes (cl_state ctx))" "i \<noteq> j"
    "link_of ctx (view_os f os) i = Some (fd, w)" "link_of ctx (view_os f os) j = Some (fd', w')" for i j fd fd' w w'
    using that links_ok_distinct [OF assms that(1-3)] by (auto simp: link_of_view)
  ultimately show ?thesis
    using assms unfolding links_ok_def by blast
qed

lemma share_sel [simp]:
  "kern (share m w) = kern w" "tx (share m w) = tx w" "rx (share m w) = rx w"
  "g_storage (sess_server (far (share m w))) = m"
  "holdings (sess_server (far (share m w))) = holdings (sess_server (far w))"
  by (auto simp: share_def holdings_def is_local_def fun_eq_iff)

lemma server_ok_length: "server_ok srv \<Longrightarrow> length (g_storage srv) = unat (fst (holdings srv)) * PAGE_SIZE"
  by (simp add: server_ok_def holdings_def)

lemma serves_holdings: "holdings a = holdings b \<Longrightarrow> serves a p = serves b p"
  by (simp add: serves_def holdings_def)

lemma member_link_share:
  assumes "member_link owner w" and "server_ok owner"
  shows "member_link owner (share (g_storage owner) w)"
  using assms server_ok_length [OF assms(2)]
  by (auto simp: member_link_def synced_def sess_ready_def share_def server_ok_def holdings_def is_local_def fun_eq_iff
      split: option.splits)

lemma member_link_store:
  assumes "member_link owner w" and "serves owner q"
  shows "solo_store (far w) q = page_at (g_storage (sess_server (far w))) q"
  using assms by (simp add: member_link_def server_store_def serves_def holdings_def)

lemma far_end_via:
  assumes "inj_on (via i) {..<n}" and "k < n"
  shows "far_end via n i (via i k) = Some k"
  unfolding far_end_def find_Some_iff
  using assms by (intro exI [of _ k]) (auto dest: inj_onD)

lemma current_via:
  assumes "inj_on (via i) {..<length G}" and "k < length G"
  shows "current via G i (via i k) w = share (g_storage (G ! k)) w"
  using far_end_via [of via i "length G", OF assms] by (simp add: current_def)

subsection \<open>One node in the cluster\<close>

lemma wiredD:
  assumes "wired via own P G"
  shows "i < length G \<Longrightarrow> inj_on (via i) {..<length G}" "i < length G \<Longrightarrow> server_ok (G ! i)"
    "p \<in> P \<Longrightarrow> own p < length G" "p \<in> P \<Longrightarrow> serves (G ! own p) p"
    "p \<in> P \<Longrightarrow> i < length G \<Longrightarrow> i \<noteq> own p \<Longrightarrow> \<not> serves (G ! i) p"
    "p \<in> P \<Longrightarrow> i < length G \<Longrightarrow> i \<noteq> own p \<Longrightarrow> reaches (G ! i) p (via i (own p)) (G ! own p)"
  using assms by (auto simp: wired_def)

lemma attach_sel [simp]:
  "g_storage (attach via G i) = g_storage (G ! i)" "g_cluster (attach via G i) = g_cluster (G ! i)"
  "holdings (attach via G i) = holdings (G ! i)"
  by (auto simp: attach_def holdings_def is_local_def fun_eq_iff)

lemma attach_ok: "server_ok (G ! i) \<Longrightarrow> server_ok (attach via G i)"
  by (auto simp: attach_def server_ok_def intro: links_ok_view split: option.splits)

lemma attach_far_storage:
  assumes "inj_on (via i) {..<length G}" and "k < length G"
  shows "far_storage (attach via G i) (via i k) = g_storage (G ! k)"
  using current_via [of via i G, OF assms] by (simp add: far_storage_def attach_def view_os_def)

lemma attach_reaches:
  assumes w: "wired via own P G" and p: "p \<in> P" and i: "i < length G" "i \<noteq> own p"
  obtains ctx j v where "g_cluster (attach via G i) = Some ctx"
    "route ctx (g_os (attach via G i)) p = Some (j, via i (own p), v)" "member_link (G ! own p) v"
    "g_storage (sess_server (far v)) = g_storage (G ! own p)"
proof -
  obtain ctx j v where r: "g_cluster (G ! i) = Some ctx" "route ctx (g_os (G ! i)) p = Some (j, via i (own p), v)"
    "member_link (G ! own p) v"
    using wiredD(6) [OF w p i] by (auto simp: reaches_def)
  note own = wiredD(3) [OF w p]
  have "route ctx (g_os (attach via G i)) p = Some (j, via i (own p), share (g_storage (G ! own p)) v)"
    using r(2) current_via [of via i G, OF wiredD(1) [OF w i(1)] own] by (simp add: attach_def route_view)
  with r member_link_share [OF r(3) wiredD(2) [OF w own]] that show ?thesis
    by simp
qed

lemma settle_sel [simp]:
  "length (settle via G i srv) = length G"
  "k < length G \<Longrightarrow> settle via G i srv ! k = (if k = i then srv else (G ! k)\<lparr>g_storage := far_storage srv (via i k)\<rparr>)"
  by (simp_all add: settle_def)

lemma storage_holdings [simp]: "holdings (srv\<lparr>g_storage := m\<rparr>) = holdings srv"
  by (auto simp: holdings_def is_local_def fun_eq_iff)

lemma storage_ok: "server_ok srv \<Longrightarrow> length m = length (g_storage srv) \<Longrightarrow> server_ok (srv\<lparr>g_storage := m\<rparr>)"
  by (auto simp: server_ok_def split: option.splits)

lemma storage_reaches [simp]: "reaches (srv\<lparr>g_storage := m\<rparr>) p fd owner = reaches srv p fd owner"
  by (simp add: reaches_def)

lemma reaches_holdings: "holdings a = holdings b \<Longrightarrow> reaches srv p fd a = reaches srv p fd b"
  by (simp add: reaches_def member_link_def)

text \<open>A node that kept its holdings and its connections, and storages that kept their lengths.\<close>

lemma settle_wired:
  assumes w: "wired via own P G" and i: "i < length G" and ok: "server_ok srv" "holdings srv = holdings (G ! i)"
    and reach: "\<And>p. p \<in> P \<Longrightarrow> own p \<noteq> i \<Longrightarrow> reaches srv p (via i (own p)) (G ! own p)"
    and len: "\<And>k. k < length G \<Longrightarrow> k \<noteq> i \<Longrightarrow> length (far_storage srv (via i k)) = length (g_storage (G ! k))"
  shows "wired via own P (settle via G i srv)"
proof -
  let ?G = "settle via G i srv"
  have holdings: "holdings (?G ! k) = holdings (G ! k)" if "k < length G" for k
    using that ok(2) by simp
  have "server_ok (?G ! k)" if "k < length G" for k
    using that ok(1) len wiredD(2) [OF w that] by (simp add: storage_ok)
  moreover have "reaches (?G ! k) p (via k (own p)) (?G ! own p)" if "p \<in> P" "k < length G" "k \<noteq> own p" for k p
  proof -
    note own = wiredD(3) [OF w that(1)]
    have "reaches (?G ! k) p (via k (own p)) (G ! own p)"
      using that reach [OF that(1)] wiredD(6) [OF w that] by (cases "k = i") simp_all
    then show ?thesis
      by (simp only: reaches_holdings [OF holdings [OF own]])
  qed
  moreover have "serves (?G ! k) p = serves (G ! k) p" if "k < length G" for k p
    using serves_holdings [OF holdings [OF that]] .
  ultimately show ?thesis
    using wiredD(1,3-5) [OF w] unfolding wired_def settle_sel(1) by (simp del: settle_sel(2))
qed

subsection \<open>One request\<close>

lemma request_okD: "request_ok P rq \<Longrightarrow> request_page rq \<in> P"
  by (cases rq) simp_all

lemma spec_request_cong:
  "V (request_page rq) = V' (request_page rq) \<Longrightarrow> fst (spec_request rq V) = fst (spec_request rq V')"
  "V q = V' q \<Longrightarrow> snd (spec_request rq V) q = snd (spec_request rq V') q"
  "q \<noteq> request_page rq \<Longrightarrow> snd (spec_request rq V) q = V q"
  by (cases rq, simp_all)+

lemma request_storage_ok:
  assumes ok: "server_ok srv" and s: "serves srv (request_page rq)" and rq: "request_ok UNIV rq"
  shows "length (request_storage rq (g_storage srv)) = length (g_storage srv)"
    and "serves srv q \<Longrightarrow> page_at (request_storage rq (g_storage srv)) q = snd (spec_request rq (page_at (g_storage srv))) q"
proof (atomize (full), cases rq)
  case (Put p pg)
  note b = storage_bound [OF ok]
  have p: "p < g_storage_pages srv" and len: "length pg = PAGE_SIZE"
    using s rq Put by (simp_all add: serves_def)
  have "page_at (mem_write (g_storage srv) (storage_offset p) pg) q = (if q = p then pg else page_at (g_storage srv) q)"
    if "serves srv q"
  proof (cases "q = p")
    case True
    then show ?thesis
      using mem_read_write_same [of "storage_offset p" pg "g_storage srv"] b [OF p] len by simp
  next
    case False
    moreover have "q < g_storage_pages srv" using that by (simp add: serves_def)
    ultimately show ?thesis
      using mem_read_write_other [of "storage_offset p" pg "g_storage srv" "storage_offset q" PAGE_SIZE]
        b [of q] b [OF p] len storage_disjoint [of q p] by auto
  qed
  with Put b [OF p] len show "length (request_storage rq (g_storage srv)) = length (g_storage srv) \<and>
    (serves srv q \<longrightarrow> page_at (request_storage rq (g_storage srv)) q = snd (spec_request rq (page_at (g_storage srv))) q)"
    by (simp add: length_mem_write)
qed simp

lemma handle_request_local:
  assumes ok: "server_ok srv" and s: "serves srv (request_page rq)" and rq: "request_ok UNIV rq" and th: "thread_ready th"
  shows "\<exists>st' w'. handle_request sink np (ct_fd th) (ct_counters th) srv ((ct_net th)\<lparr>rx := request_bytes rq\<rparr>)
      = Ret (True, st', srv\<lparr>g_storage := request_storage rq (g_storage srv)\<rparr>, w') \<and>
    sent_bytes w' = fst (spec_request rq (page_at (g_storage srv))) \<and> rx w' = [] \<and> kern w' = kern (ct_net th)"
proof -
  let ?w = "(ct_net th)\<lparr>rx := request_bytes rq\<rparr>"
  have fd: "0 \<le> ct_fd th" and rel: "reliable (kern ?w)" and none: "sent_bytes ?w = []"
    using th by (simp_all add: thread_ready_def sent_bytes_def)
  have l: "is_local srv (request_page rq)" "request_page rq < g_storage_pages srv"
    using s by (simp_all add: serves_def)
  show ?thesis
  proof (cases rq)
    case (Get p)
    have "handle_request sink np (ct_fd th) (ct_counters th) srv ?w
        = handle_get np (ct_fd th) p (ct_counters th) srv (took HDR_SIZE ?w)"
      using handle_request_get [of ?w p "[]" "ct_fd th" np "ct_counters th" srv] Get rel fd by simp
    with handle_get_local [OF ok l _ fd, of "took HDR_SIZE ?w" np "ct_counters th"] rel Get none show ?thesis
      by (simp add: get_req_def)
  next
    case (Put p pg)
    have rx: "rx (took HDR_SIZE ?w) = pg @ []"
      using Put by (simp add: put_req_def)
    have len: "length pg = PAGE_SIZE" using rq Put by simp
    have "handle_request sink np (ct_fd th) (ct_counters th) srv ?w
        = handle_put sink np (ct_fd th) p (ct_counters th) srv (took HDR_SIZE ?w)"
      using handle_request_put [of ?w p pg "[]" "ct_fd th" np "ct_counters th" srv] Put rel fd by simp
    with handle_put_local [OF ok l len rx _ fd, of np "ct_counters th"] rel Put none len show ?thesis
      by (simp add: put_req_def)
  qed
qed

context page_peer
begin

lemma handle_request_forward:
  assumes ok: "server_ok srv" and nl: "\<not> serves srv (request_page rq)" and rq: "request_ok UNIV rq" and th: "thread_ready th"
    and c: "g_cluster srv = Some ctx" "route ctx (g_os srv) (request_page rq) = Some (i, g, v)"
    and v: "synced ready v" "reliable (kern v)" "request_page rq \<in> pages (store (far v))"
  shows "\<exists>st' srv' w' v'. handle_request sink peer (ct_fd th) (ct_counters th) srv ((ct_net th)\<lparr>rx := request_bytes rq\<rparr>)
      = Ret (True, st', srv', w') \<and> relinked i g v' srv srv' \<and> synced ready v' \<and> kern v' = kern v \<and>
    store (far v') = snd (spec_request rq (store (far v))) \<and>
    sent_bytes w' = fst (spec_request rq (store (far v))) \<and> rx w' = [] \<and> kern w' = kern (ct_net th)"
proof -
  let ?w = "(ct_net th)\<lparr>rx := request_bytes rq\<rparr>"
  have fd: "0 \<le> ct_fd th" and rel: "reliable (kern ?w)" and none: "sent_bytes ?w = []"
    using th by (simp_all add: thread_ready_def sent_bytes_def)
  note nl = nl [unfolded serves_def]
  show ?thesis
  proof (cases rq)
    case (Get p)
    have "handle_request sink peer (ct_fd th) (ct_counters th) srv ?w
        = handle_get peer (ct_fd th) p (ct_counters th) srv (took HDR_SIZE ?w)"
      using handle_request_get [of ?w p "[]" "ct_fd th" peer "ct_counters th" srv] Get rel fd by simp
    moreover obtain srv' v' where f: "relinked i g v' srv srv'" "synced ready v'" "kern v' = kern v" "store (far v') = store (far v)"
      "\<forall>w :: bytes net. reliable (kern w) \<longrightarrow> handle_get peer (ct_fd th) (request_page rq) (ct_counters th) srv w
        = Ret (True, (ct_counters th)\<lparr>pages_forwarded := pages_forwarded (ct_counters th) + 1\<rparr>, srv',
            put_out (store (far v) (request_page rq)) w)"
      using handle_get_forward [OF ok nl c v fd, of "ct_counters th"] by (elim exE conjE)
    ultimately have "handle_request sink peer (ct_fd th) (ct_counters th) srv ?w
        = Ret (True, (ct_counters th)\<lparr>pages_forwarded := pages_forwarded (ct_counters th) + 1\<rparr>, srv',
            put_out (store (far v) p) (took HDR_SIZE ?w))"
      using rel Get by simp
    with f(1-4) Get none show ?thesis
      by (intro exI conjI) (assumption | simp add: get_req_def)+
  next
    case (Put p pg)
    have rx: "rx (took HDR_SIZE ?w) = pg @ []"
      using Put by (simp add: put_req_def)
    have len: "length pg = PAGE_SIZE" using rq Put by simp
    have "handle_request sink peer (ct_fd th) (ct_counters th) srv ?w
        = handle_put sink peer (ct_fd th) p (ct_counters th) srv (took HDR_SIZE ?w)"
      using handle_request_put [of ?w p pg "[]" "ct_fd th" peer "ct_counters th" srv] Put rel fd by simp
    moreover obtain srv' v' where f: "relinked i g v' srv srv'" "synced ready v'" "kern v' = kern v"
      "store (far v') = (store (far v))(request_page rq := pg)"
      "\<forall>w bs. rx w = pg @ bs \<longrightarrow> reliable (kern w) \<longrightarrow>
        handle_put sink peer (ct_fd th) (request_page rq) (ct_counters th) srv w
          = Ret (True, (ct_counters th)\<lparr>pages_forwarded := pages_forwarded (ct_counters th) + 1\<rparr>, srv',
              put_out (ack (request_page rq)) (took PAGE_SIZE w))"
      using handle_put_forward [OF ok nl c v fd len, of "ct_counters th"] by (elim exE conjE)
    moreover have "handle_put sink peer (ct_fd th) (request_page rq) (ct_counters th) srv (took HDR_SIZE ?w)
        = Ret (True, (ct_counters th)\<lparr>pages_forwarded := pages_forwarded (ct_counters th) + 1\<rparr>, srv',
            put_out (ack (request_page rq)) (took PAGE_SIZE (took HDR_SIZE ?w)))"
      by (rule f(5) [rule_format, OF rx]) (use rel in simp)
    ultimately have "handle_request sink peer (ct_fd th) (ct_counters th) srv ?w
        = Ret (True, (ct_counters th)\<lparr>pages_forwarded := pages_forwarded (ct_counters th) + 1\<rparr>, srv',
            put_out (ack p) (took PAGE_SIZE (took HDR_SIZE ?w)))"
      using Put by simp
    with f(1-4) Put none len show ?thesis
      by (intro exI conjI) (assumption | simp add: put_req_def)+
  qed
qed

end

subsection \<open>One request in the cluster\<close>

text \<open>At the owner: its storage changes, and no other.\<close>

lemma cluster_request_local:
  assumes w: "wired via own P G" and i: "i < length G" and rq: "request_ok P rq" and own: "own (request_page rq) = i"
    and srv: "srv = (attach via G i)\<lparr>g_storage := request_storage rq (g_storage (G ! i))\<rparr>"
  shows "wired via own P (settle via G i srv)"
    and "q \<in> P \<Longrightarrow> cluster_store own (settle via G i srv) q = snd (spec_request rq (cluster_store own G)) q"
proof -
  have p: "request_page rq \<in> P" and rq': "request_ok UNIV rq"
    using rq by (cases rq; simp)+
  note ok = wiredD(2) [OF w i] and inj = wiredD(1) [OF w i]
  have s: "serves (G ! i) (request_page rq)"
    using wiredD(4) [OF w p] own by simp
  have far: "far_storage srv (via i k) = g_storage (G ! k)" if "k < length G" for k
    using attach_far_storage [of via i G, OF inj that] by (simp add: srv far_storage_def)
  note st = request_storage_ok [OF ok s rq']
  show "wired via own P (settle via G i srv)"
  proof (rule settle_wired [OF w i])
    show "server_ok srv"
      using storage_ok [OF attach_ok [OF ok], of "request_storage rq (g_storage (G ! i))"] st(1) by (simp add: srv)
    show "holdings srv = holdings (G ! i)" by (simp add: srv)
    show "reaches srv p (via i (own p)) (G ! own p)" if pP: "p \<in> P" and po: "own p \<noteq> i" for p
    proof -
      obtain ctx j v where "g_cluster (attach via G i) = Some ctx"
        "route ctx (g_os (attach via G i)) p = Some (j, via i (own p), v)" "member_link (G ! own p) v"
        by (rule attach_reaches [OF w pP i po [symmetric]])
      then show ?thesis by (auto simp: srv reaches_def)
    qed
  qed (simp add: far)
  show "cluster_store own (settle via G i srv) q = snd (spec_request rq (cluster_store own G)) q" if q: "q \<in> P"
  proof (cases "own q = i")
    case True
    then have sq: "serves (G ! i) q" using wiredD(4) [OF w q] by simp
    have "cluster_store own (settle via G i srv) q = page_at (request_storage rq (g_storage (G ! i))) q"
      using True i by (simp add: cluster_store_def srv)
    also have "\<dots> = snd (spec_request rq (page_at (g_storage (G ! i)))) q"
      by (rule st(2) [OF sq])
    also have "\<dots> = snd (spec_request rq (cluster_store own G)) q"
      by (rule spec_request_cong(2)) (simp add: cluster_store_def True)
    finally show ?thesis .
  next
    case False
    then have "q \<noteq> request_page rq" using own by auto
    with False wiredD(3) [OF w q] far spec_request_cong(3) show ?thesis
      by (simp add: cluster_store_def)
  qed
qed

text \<open>Elsewhere: the owner's storage changes through the connection to it.\<close>

lemma relinked_far:
  assumes "relinked j g v srv srv'"
  shows "far_storage srv' g = g_storage (sess_server (far v))" "h \<noteq> g \<Longrightarrow> far_storage srv' h = far_storage srv h"
    "g_storage srv' = g_storage srv"
  using assms by (auto simp: relinked_def far_storage_def)

lemma relinked_reaches:
  assumes rl: "relinked j g v' srv srv'" and ok: "server_ok srv"
    and c: "g_cluster srv = Some ctx" "route ctx (g_os srv) p = Some (j, g, v)"
    and r: "reaches srv q h owner" and v': "h = g \<Longrightarrow> member_link owner v'"
  shows "reaches srv' q h owner"
proof -
  obtain ctx' os' where s: "srv' = srv\<lparr>g_cluster := Some ctx', g_os := os'\<rparr>"
    "route ctx' os' q = relink j v' (route ctx (g_os srv) q)"
    using rl c(1) unfolding relinked_def by auto
  obtain j' w where q: "route ctx (g_os srv) q = Some (j', h, w)" "member_link owner w"
    using r c(1) by (auto simp: reaches_def)
  have "table_ok (cl_state ctx)"
    using ok c(1) by (simp add: server_ok_def links_ok_def ctx_ok_def)
  from route_Some(3) [OF this c(2)] route_Some(3) [OF this q(1)] have "j' = j \<Longrightarrow> h = g"
    by simp
  with s q v' show ?thesis
    by (auto simp: reaches_def relink_def)
qed

lemma cluster_request_forward:
  assumes w: "wired via own P G" and i: "i < length G" and rq: "request_ok P rq" and own: "own (request_page rq) \<noteq> i"
    and c: "g_cluster (attach via G i) = Some ctx"
      "route ctx (g_os (attach via G i)) (request_page rq) = Some (j, via i (own (request_page rq)), v)"
    and v: "member_link (G ! own (request_page rq)) v" "g_storage (sess_server (far v)) = g_storage (G ! own (request_page rq))"
    and rl: "relinked j (via i (own (request_page rq))) v' (attach via G i) srv"
    and v': "member_link (G ! own (request_page rq)) v'" "solo_store (far v') = snd (spec_request rq (solo_store (far v)))"
  shows "wired via own P (settle via G i srv)"
    and "q \<in> P \<Longrightarrow> cluster_store own (settle via G i srv) q = snd (spec_request rq (cluster_store own G)) q"
proof -
  let ?k = "own (request_page rq)"
  have p: "request_page rq \<in> P"
    using rq by (cases rq) simp_all
  note k = wiredD(3) [OF w p] and inj = wiredD(1) [OF w i] and aok = attach_ok [OF wiredD(2) [OF w i], of via]
  note far = relinked_far [OF rl]
  have g: "via i m = via i ?k \<longleftrightarrow> m = ?k" if "m < length G" for m
    using inj that k by (auto dest: inj_onD)
  have other: "far_storage srv (via i m) = g_storage (G ! m)" if "m < length G" "m \<noteq> ?k" for m
    using far(2) [of "via i m"] g [OF that(1)] that(2) attach_far_storage [of via i G, OF inj that(1)] by simp
  have len: "length (g_storage (sess_server (far v'))) = length (g_storage (G ! ?k))"
    using v'(1) server_ok_length [OF wiredD(2) [OF w k]]
    by (auto simp: member_link_def synced_def sess_ready_def dest!: server_ok_length)
  show "wired via own P (settle via G i srv)"
  proof (rule settle_wired [OF w i])
    show "server_ok srv" using relinked_ok [OF rl aok] by simp
    show "holdings srv = holdings (G ! i)" using relinked_holdings [OF rl] by simp
    show "reaches srv p (via i (own p)) (G ! own p)" if pP: "p \<in> P" and po: "own p \<noteq> i" for p
    proof -
      obtain ctx j v where "g_cluster (attach via G i) = Some ctx"
        "route ctx (g_os (attach via G i)) p = Some (j, via i (own p), v)" "member_link (G ! own p) v"
        by (rule attach_reaches [OF w pP i po [symmetric]])
      then have r: "reaches (attach via G i) p (via i (own p)) (G ! own p)"
        by (auto simp: reaches_def)
      show ?thesis
        by (rule relinked_reaches [OF rl aok c r]) (use g [OF wiredD(3) [OF w pP]] v'(1) in simp)
    qed
    show "length (far_storage srv (via i m)) = length (g_storage (G ! m))" if "m < length G" "m \<noteq> i" for m
      using that other far(1) len by (cases "m = ?k") simp_all
  qed
  show "cluster_store own (settle via G i srv) q = snd (spec_request rq (cluster_store own G)) q" if q: "q \<in> P"
  proof (cases "own q = ?k")
    case True
    then have sq: "serves (G ! ?k) q" using wiredD(4) [OF w q] by simp
    have "cluster_store own (settle via G i srv) q = page_at (g_storage (sess_server (far v'))) q"
      using True k own far(1) by (simp add: cluster_store_def)
    also have "\<dots> = snd (spec_request rq (solo_store (far v))) q"
      using member_link_store [OF v'(1) sq] v'(2) by simp
    also have "\<dots> = snd (spec_request rq (cluster_store own G)) q"
      by (rule spec_request_cong(2)) (simp add: member_link_store [OF v(1) sq] v(2) cluster_store_def True)
    finally show ?thesis .
  next
    case False
    then have "q \<noteq> request_page rq" by auto
    with False wiredD(3) [OF w q] other far(3) spec_request_cong(3) show ?thesis
      by (simp add: cluster_store_def)
  qed
qed

lemma cluster_request:
  assumes w: "wired via own P G" and i: "i < length G" and rq: "request_ok P rq" and th: "thread_ready th"
  shows "\<exists>st' srv w'. handle_request sink (serve no_peer) (ct_fd th) (ct_counters th) (attach via G i)
      ((ct_net th)\<lparr>rx := request_bytes rq\<rparr>) = Ret (True, st', srv, w') \<and>
    wired via own P (settle via G i srv) \<and>
    (\<forall>q \<in> P. cluster_store own (settle via G i srv) q = snd (spec_request rq (cluster_store own G)) q) \<and>
    sent_bytes w' = fst (spec_request rq (cluster_store own G)) \<and> rx w' = [] \<and> kern w' = kern (ct_net th)"
proof -
  have p: "request_page rq \<in> P" and rq': "request_ok UNIV rq"
    using rq by (cases rq; simp)+
  note aok = attach_ok [OF wiredD(2) [OF w i], of via]
  show ?thesis
  proof (cases "own (request_page rq) = i")
    case True
    then have "serves (attach via G i) (request_page rq)"
      using wiredD(4) [OF w p] serves_holdings [OF attach_sel(3)] by simp
    from handle_request_local [OF aok this rq' th, of "serve no_peer"]
    show ?thesis
      using cluster_request_local [OF w i rq True refl]
        spec_request_cong(1) [of "page_at (g_storage (G ! i))" rq "cluster_store own G"] True
      by (fastforce simp: cluster_store_def)
  next
    case False
    let ?k = "own (request_page rq)"
    obtain ctx j v where c: "g_cluster (attach via G i) = Some ctx"
      "route ctx (g_os (attach via G i)) (request_page rq) = Some (j, via i ?k, v)"
      and v: "member_link (G ! ?k) v" "g_storage (sess_server (far v)) = g_storage (G ! ?k)"
      by (rule attach_reaches [OF w p i False [symmetric]])
    have nl: "\<not> serves (attach via G i) (request_page rq)"
      using wiredD(5) [OF w p i False [symmetric]] serves_holdings [OF attach_sel(3)] by simp
    have v0: "solo_store (far v) (request_page rq) = cluster_store own G (request_page rq)"
      using member_link_store [OF v(1) wiredD(4) [OF w p]] v(2) by (simp add: cluster_store_def)
    let ?ready = "\<lambda>s. sess_ready s \<and> holdings (sess_server s) = holdings (G ! ?k)"
    have ml: "member_link (G ! ?k) u \<longleftrightarrow> synced ?ready u \<and> reliable (kern u)" for u
      by (auto simp: member_link_def synced_def)
    have pg: "request_page rq \<in> pages (solo_store (far v))"
      using v0 wiredD(3,4) [OF w p] storage_bound [OF wiredD(2) [OF w wiredD(3) [OF w p]], of "request_page rq"]
      by (simp add: pages_def cluster_store_def serves_def length_mem_read)
    obtain st srv w' v' where h: "handle_request sink (serve no_peer) (ct_fd th) (ct_counters th) (attach via G i)
        ((ct_net th)\<lparr>rx := request_bytes rq\<rparr>) = Ret (True, st, srv, w')"
      "relinked j (via i ?k) v' (attach via G i) srv" "synced ?ready v'" "kern v' = kern v"
      "solo_store (far v') = snd (spec_request rq (solo_store (far v)))"
      "sent_bytes w' = fst (spec_request rq (solo_store (far v)))" "rx w' = []" "kern w' = kern (ct_net th)"
      using page_peer.handle_request_forward [OF page_peer.serve_lawful_holdings [OF no_peer_lawful] aok nl rq' th c _ _ pg]
        v(1) ml by blast
    have v': "member_link (G ! ?k) v'" using h(3,4) v(1) ml by simp
    from cluster_request_forward [OF w i rq False c v h(2) v' h(5)] h(1,6-8)
      spec_request_cong(1) [of "solo_store (far v)" rq "cluster_store own G", OF v0]
    show ?thesis by auto
  qed
qed

subsection \<open>Schedules\<close>

lemma spec_schedule_cong:
  assumes "\<forall>p \<in> P. V p = V' p" and "\<forall>(c, rq) \<in> set rqs. request_ok P rq"
  shows "fst (spec_schedule rqs V) = fst (spec_schedule rqs V') \<and>
    (\<forall>p \<in> P. snd (spec_schedule rqs V) p = snd (spec_schedule rqs V') p)"
  using assms
proof (induction rqs arbitrary: V V')
  case (Cons x rqs)
  obtain c rq where x: "x = (c, rq)" by (cases x)
  have ok: "request_ok P rq" "\<forall>(c, rq) \<in> set rqs. request_ok P rq"
    using Cons.prems(2) x by auto
  have "fst (spec_request rq V) = fst (spec_request rq V')"
    by (rule spec_request_cong(1)) (use Cons.prems(1) request_okD [OF ok(1)] in blast)
  moreover have "\<forall>p \<in> P. snd (spec_request rq V) p = snd (spec_request rq V') p"
    using Cons.prems(1) by (auto intro: spec_request_cong(2))
  note Cons.IH [OF this ok(2)]
  ultimately show ?case
    by (simp add: x case_prod_unfold Let_def)
qed simp

lemma serve_cluster_ok:
  assumes "wired via own P G" and "\<forall>(i, c, rq) \<in> set rqs. i < length G \<and> request_ok P rq"
    and "\<forall>i c. thread_ready (ths i c)"
  shows "\<exists>G'. serve_cluster via rqs G ths = Ret (fst (spec_schedule (requests rqs) (cluster_store own G)), G') \<and>
    wired via own P G' \<and> length G' = length G \<and>
    (\<forall>p \<in> P. cluster_store own G' p = snd (spec_schedule (requests rqs) (cluster_store own G)) p)"
  using assms
proof (induction rqs arbitrary: G ths)
  case (Cons x rqs)
  obtain i c rq where x: "x = (i, c, rq)" by (cases x)
  let ?th = "ths i c" and ?V = "cluster_store own G"
  have i: "i < length G" and rq: "request_ok P rq" and th: "thread_ready ?th" and rx: "rx (ct_net ?th) = []"
    and rest: "\<forall>(i, c, rq) \<in> set rqs. i < length G \<and> request_ok P rq"
    using Cons.prems(2,3) x by (auto simp: thread_ready_def)
  obtain st srv w' where h: "handle_request sink (serve no_peer) (ct_fd ?th) (ct_counters ?th) (attach via G i)
      ((ct_net ?th)\<lparr>rx := request_bytes rq\<rparr>) = Ret (True, st, srv, w')"
    "wired via own P (settle via G i srv)" "\<forall>q \<in> P. cluster_store own (settle via G i srv) q = snd (spec_request rq ?V) q"
    "sent_bytes w' = fst (spec_request rq ?V)" "rx w' = []" "kern w' = kern (ct_net ?th)"
    using cluster_request [OF Cons.prems(1) i rq th] by (elim exE conjE)
  let ?G = "settle via G i srv" and ?ths = "ths(i := (ths i)(c := ?th\<lparr>ct_counters := st, ct_net := flush w'\<rparr>))"
  have ths: "\<forall>i c. thread_ready (?ths i c)"
    using Cons.prems(3) h(5,6) by (simp add: thread_ready_def)
  have "\<forall>(i, c, rq) \<in> set rqs. i < length ?G \<and> request_ok P rq"
    using rest by simp
  from Cons.IH [OF h(2) this ths] obtain G' where
    G': "serve_cluster via rqs ?G ?ths = Ret (fst (spec_schedule (requests rqs) (cluster_store own ?G)), G')"
    "wired via own P G'" "length G' = length ?G"
    "\<forall>p \<in> P. cluster_store own G' p = snd (spec_schedule (requests rqs) (cluster_store own ?G)) p"
    by (elim exE conjE)
  have "\<forall>(c, rq) \<in> set (requests rqs). request_ok P rq"
    using rest by auto
  note cong = spec_schedule_cong [OF h(3) this]
  show ?case
    using h(1,4) G' cong rx by (simp add: x case_prod_unfold Let_def)
qed simp

subsection \<open>The example\<close>

lemma pair_node_ok:
  assumes "(a, b) = (0, 1) \<or> (a, b) = (1, 0)"
  shows "server_ok (pair_node w a b)"
proof -
  have "ctx_ok (sample_ctx a [b])"
    by (rule sample_ctx_ok) (use assms in \<open>auto simp: CLUSTER_MAX_NODES_def\<close>)
  moreover have "link_of (sample_ctx a [b]) (g_os (pair_node w a b)) 0 = None"
    using assms by (auto simp: link_of_def sample_ctx_def sample_node_def pair_node_def CLUSTER_MAX_NODES_def)
  moreover have "length (nodes (cl_state (sample_ctx a [b]))) = 2"
    by (simp add: sample_ctx_def)
  ultimately show ?thesis
    by (auto simp: server_ok_def links_ok_def pair_node_def less_2_cases_iff)
qed

lemma pair_node_holdings: "holdings (pair_node w a b) = holdings (pair_node w' a b)"
  by (auto simp: holdings_def pair_node_def is_local_def fun_eq_iff)

lemma pair_member_link:
  assumes "(a, b) = (0, 1) \<or> (a, b) = (1, 0)"
  shows "member_link (pair_node w a b) (pair_link a b)"
proof -
  have "sess_ready (new_session (pair_node (connection swift_kernel ()) a b))"
    by (rule new_session_ready [OF pair_node_ok [OF assms]]) (simp add: pair_node_def)
  then show ?thesis
    using pair_node_holdings [of "connection swift_kernel ()" a b w] by (simp add: member_link_def pair_link_def)
qed

lemma pair_reaches:
  "reaches (pair_node (pair_link 1 0) 0 1) 1 5 (pair_node w 1 0)"
  "reaches (pair_node (pair_link 0 1) 1 0) 0 5 (pair_node w 0 1)"
proof -
  have "route (sample_ctx a [b]) (g_os (pair_node v a b)) (ucast b) = Some (1, 5, v)" if "(a, b) = (0, 1) \<or> (a, b) = (1, 0)" for a b v
    using that by (auto simp: route_def cluster_get_owner_def sample_ctx_def sample_node_def covers_def NODE_STATE_ALIVE_def
        NODE_STATE_DEAD_def find_node_by_id_def NODE_ID_LEN_def link_of_def pair_node_def CLUSTER_MAX_NODES_def)
  from this [of 0 1] this [of 1 0] show
    "reaches (pair_node (pair_link 1 0) 0 1) 1 5 (pair_node w 1 0)"
    "reaches (pair_node (pair_link 0 1) 1 0) 0 5 (pair_node w 0 1)"
    using pair_member_link [of 1 0 w] pair_member_link [of 0 1 w] by (auto simp: reaches_def pair_node_def)
qed

lemma pair_serves:
  "serves (pair_node w 0 1) 0" "\<not> serves (pair_node w 0 1) 1" "serves (pair_node w 1 0) 1" "\<not> serves (pair_node w 1 0) 0"
  by (simp_all add: serves_def pair_node_def is_local_def cluster_is_local_def sample_ctx_def sample_node_def)

lemma pair_wired: "wired pair_via unat {0, 1} pair_cluster"
proof -
  have "inj_on (pair_via i) {..<Suc (Suc 0)}" if "i < Suc (Suc 0)" for i
    using that by (auto simp: inj_on_def pair_via_def less_Suc_eq)
  then show ?thesis
    by (simp add: wired_def pair_cluster_def less_Suc_eq all_conj_distrib imp_disjL pair_via_def pair_serves pair_reaches pair_node_ok)
qed

subsection \<open>Properties\<close>

text \<open>
  C4. A cluster is one memory: however many nodes it has, whichever of them each client is
  connected to, and in whatever order their requests are served, the replies are those of a
  single memory that serves the requests in that order, and the storages of the owners
  together hold its contents at the end. A page put through one node is the page got through
  any other.
\<close>

theorem cluster_is_one_memory:
  assumes "wired via own P G" and "\<forall>(i, c, rq) \<in> set rqs. i < length G \<and> request_ok P rq"
    and "\<forall>i c. thread_ready (ths i c)"
  shows "\<exists>G'. serve_cluster via rqs G ths = Ret (fst (spec_schedule (requests rqs) (cluster_store own G)), G') \<and>
    wired via own P G' \<and>
    (\<forall>p \<in> P. cluster_store own G' p = snd (spec_schedule (requests rqs) (cluster_store own G)) p)"
  using serve_cluster_ok [OF assms] by blast

theorem cluster_is_one_memory_witness:
  "\<exists>G'. serve_cluster pair_via [(0, 0, Put 1 (replicate PAGE_SIZE 7)), (1, 0, Put 1 (replicate PAGE_SIZE 8)), (0, 1, Get 1),
       (1, 0, Get 0)] pair_cluster
       (\<lambda>i c. \<lparr>ct_counters = \<lparr>pages_served = 0, pages_written = 0, pages_forwarded = 0\<rparr>, ct_fd = 4 + int c,
         ct_net = connection swift_kernel []\<rparr>)
     = Ret ([ack 1, ack 1, replicate PAGE_SIZE 8, replicate PAGE_SIZE 0], G')"
proof -
  let ?rqs = "[(0, 0, Put 1 (replicate PAGE_SIZE 7)), (1, 0, Put 1 (replicate PAGE_SIZE 8)), (0, 1, Get 1),
       (1, 0, Get 0)] :: (nat \<times> nat \<times> request) list"
  have "\<forall>(i, c, rq) \<in> set ?rqs. i < length pair_cluster \<and> request_ok {0, 1} rq"
    by (simp add: pair_cluster_def)
  moreover have "cluster_store unat pair_cluster 0 = replicate PAGE_SIZE 0"
    by (simp add: cluster_store_def pair_cluster_def pair_node_def mem_read_def storage_offset_def)
  ultimately show ?thesis
    using cluster_is_one_memory [OF pair_wired, of ?rqs "\<lambda>i c. \<lparr>ct_counters = \<lparr>pages_served = 0, pages_written = 0,
      pages_forwarded = 0\<rparr>, ct_fd = 4 + int c, ct_net = connection swift_kernel []\<rparr>"]
    by (auto simp: thread_ready_def Let_def)
qed

end
