(* ===== verification/DSM_Clients.thy ===== *)
theory DSM_Clients
  imports DSM_Node DSM_Statistics
begin

section \<open>Several clients of one node (dsm\_paging.c, dsm\_server.c)\<close>

text \<open>
  The consistency model: every client caches pages of the node on its own, and nothing tells it
  that another client has written one. Each client has its \<open>dsm_context\<close>, its connection and a client
  thread at the far end; the threads work on the one server of the node. A schedule says
  which client makes its next load, store or prefetch hint; what it evicts, writes back and fetches
  on the way happens at that moment. The results: as long as no client uses a page that another
  one writes, the clients together see one memory; otherwise a client that has a page cached
  does not see what others write to it.
\<close>

subsection \<open>Definitions\<close>

text \<open>The connection with the present server at its far end.\<close>

definition seat :: "'s server \<Rightarrow> 's session net \<Rightarrow> 's session net" where
  "seat srv w = w\<lparr>far := (far w)\<lparr>sess_server := srv\<rparr>\<rparr>"

fun run_clients ::
  "'s session peer \<Rightarrow> (nat \<times> mem_op) list \<Rightarrow> 's server \<Rightarrow> (dsm_context \<times> 's session net) list \<Rightarrow>
     (bytes list option \<times> 's server \<times> (dsm_context \<times> 's session net) list) outcome" where
  "run_clients peer [] srv cs = Ret (Some [], srv, cs)"
| "run_clients peer ((i, x) # rest) srv cs =
     bind_oc (run_op peer x (fst (cs ! i)) (seat srv (snd (cs ! i)))) (\<lambda>(r, c, w).
     case r of None \<Rightarrow> Ret (None, sess_server (far w), cs[i := (c, w)])
     | Some v \<Rightarrow> bind_oc (run_clients peer rest (sess_server (far w)) (cs[i := (c, w)])) (\<lambda>(rs, srv, cs).
         Ret (map_option ((#) v) rs, srv, cs)))"

text \<open>A client that has just connected, with an address space of \<open>n\<close> pages.\<close>

definition newcomer :: "u32 \<Rightarrow> dsm_context \<times> 's session net \<Rightarrow> bool" where
  "newcomer n cl \<longleftrightarrow> (\<exists>alloc np c held fd k s. dsm_create_context alloc np n = (Some c, held) \<and> 0 \<le> fd \<and>
     reliable k \<and> sess_ready s \<and> cl = (dsm_context_set_socket c fd, connection k s))"

text \<open>An operation that uses a page of \<open>U\<close> and, if it is a store, writes a page of \<open>W\<close>.\<close>

fun op_within :: "u32 set \<Rightarrow> u32 set \<Rightarrow> mem_op \<Rightarrow> bool" where
  "op_within U W (Load p off n) \<longleftrightarrow> p \<in> U"
| "op_within U W (Store p off bs) \<longleftrightarrow> p \<in> U \<and> p \<in> W"
| "op_within U W (Hint start n) \<longleftrightarrow> True"

text \<open>
  A cache that holds only pages of \<open>U\<close> and has changed only pages of \<open>W\<close>; and a client with such
  a cache that sees the pages of \<open>U\<close> as \<open>M\<close> has them.
\<close>

definition confined :: "u32 set \<Rightarrow> u32 set \<Rightarrow> dsm_context \<Rightarrow> bool" where
  "confined U W c \<longleftrightarrow> (\<forall>p < num_virtual_pages c. valid (pte c p) \<noteq> 0 \<longrightarrow> p \<in> U \<and> (dirty (pte c p) \<noteq> 0 \<longrightarrow> p \<in> W))"

definition tenant ::
  "('s \<Rightarrow> bool) \<Rightarrow> ('s \<Rightarrow> u32 \<Rightarrow> bytes) \<Rightarrow> u32 \<Rightarrow> u32 set \<Rightarrow> u32 set \<Rightarrow> page_memory \<Rightarrow> dsm_context \<Rightarrow> 's net \<Rightarrow> bool" where
  "tenant ready store n U W M c w \<longleftrightarrow>
     linked ready store c w (view c (store (far w))) \<and> num_virtual_pages c = n \<and> idle c \<and> confined U W c \<and>
     (\<forall>p \<in> U. p < n \<longrightarrow> view c (store (far w)) p = M p)"

text \<open>Examples: a node with \<open>n\<close> pages of zeros, and a new client of it with one frame.\<close>

definition pair_server :: "u32 \<Rightarrow> unit session server" where
  "pair_server n = solo_server (new_session (solo_server () 1)) n"

definition small_client :: "u32 \<Rightarrow> dsm_context \<times> unit session session net" where
  "small_client n = (dsm_context_set_socket (fresh_context 1 n) 3, connection swift_kernel (new_session (pair_server n)))"

subsection \<open>What an access leaves in the cache\<close>

lemma confined_update [simp]:
  "confined U W (c\<lparr>last_page_id := p\<rparr>) = confined U W c" "confined U W (c\<lparr>local_memory := m\<rparr>) = confined U W c"
  "confined U W (c\<lparr>free_list_top := t\<rparr>) = confined U W c"
  by (simp_all add: confined_def)

lemma confined_swept:
  assumes "pager_inv H c" and "swept c c'" and "confined U W c"
  shows "confined U W c'"
  using assms(3) swept_pte [OF assms(2)] swept_sel(5) [OF assms(2)] pager_inv_less(2) [OF assms(1)]
  by (simp add: confined_def)

lemma confined_evict_frame:
  assumes "full c" and "confined U W c"
  shows "confined U W (evict_frame c)"
proof -
  have "pte (evict_frame c) p = (if p = victim_page c then (pte c p)\<lparr>valid := 0, dirty := 0\<rparr> else pte c p)" for p
    using full_victim(4) [OF assms(1)] pager_inv_less(2) [of "{}" c "victim_page c"] assms(1)
    by (auto simp: evict_frame_def Let_def ctx_defs full_def nth_list_update)
  with assms(2) show ?thesis
    by (auto simp: confined_def evict_frame_def Let_def ctx_defs split: if_splits)
qed

lemma confined_access:
  assumes inv: "pager_inv {} c" and p: "pid < num_virtual_pages c" and idle: "idle c" and cf: "confined U W c"
    and pid: "pid \<in> U" "ucast wr \<noteq> (0 :: u8) \<longrightarrow> pid \<in> W"
    and r: "dsm_access_page peer c pid wr w = Ret (Some ptr, c', w')"
  shows "confined U W c'"
proof (cases "valid (pte c pid) = 0")
  case True
  have ix: "unat pid < length (page_table c)" by (rule pager_inv_less(2) [OF inv p])
  with r True have "dsm_access_page_slow peer c pid wr pid w = Ret (Some ptr, c', w')"
    by (simp add: dsm_access_page_def)
  then obtain f c1 w1 buf where a: "acquire_frame peer c w = Ret (f, c1, w1)" "f \<noteq> DSM_NO_FRAME"
    "c' = (map_frame c1 pid wr f buf)\<lparr>last_page_id := pid\<rparr>"
    by (rule access_slow_fault [OF inv p True idle])
  have "confined U W c1"
  proof (cases rule: acquire_frame_cases [OF inv a(1), case_names free victim none])
    case (victim c0)
    with confined_evict_frame confined_swept [OF inv _ cf] show ?thesis by blast
  qed (use a(2) cf in simp_all)
  moreover have "pid < num_virtual_pages c1" "pager_inv {f} c1"
    using ensuresD [OF ensures_acquire_frame [OF inv] a(1)] p a(2) by (auto simp: same_dims_def)
  ultimately show ?thesis
    using pid pager_inv_less(2) [of "{f}" c1 pid]
    by (auto simp: a(3) confined_def map_frame_def Let_def ctx_defs nth_list_update)
next
  case False
  have ix: "unat pid < length (page_table c)" by (rule pager_inv_less(2) [OF inv p])
  then have "c' = set_pte pid ((pte c pid)\<lparr>reference_bit := 1, dirty := or (dirty (pte c pid)) (ucast wr)\<rparr>)
      (c\<lparr>local_hits := local_hits c + 1\<rparr>)"
    using r False by (simp add: dsm_access_page_def Let_def)
  with cf pid False p ix show ?thesis
    by (auto simp: confined_def set_pte_def nth_list_update or_eq_0_iff split: if_splits)
qed

lemma confined_op:
  assumes inv: "pager_inv {} c" and x: "op_ok (num_virtual_pages c) x" "op_within U W x" and idle: "idle c" and cf: "confined U W c"
    and r: "run_op peer x c w = Ret (Some v, c', w')"
  shows "confined U W c'"
proof (cases x)
  case (Load p off n)
  with r obtain ptr where "dsm_access_page peer c p 0 w = Ret (Some ptr, c', w')"
    by (auto simp: outcome_simps split: option.splits)
  from confined_access [OF inv _ idle cf _ _ this] x Load show ?thesis by simp
next
  case (Store p off bs)
  with r obtain ptr c1 where 1: "dsm_access_page peer c p 1 w = Ret (Some ptr, c1, w')" "store_bytes c1 (ptr + off) bs = Ret c'"
    by (auto simp: outcome_simps split: option.splits)
  have "confined U W c1"
    by (rule confined_access [OF inv _ idle cf _ _ 1(1)]) (use x Store in simp_all)
  with 1(2) show ?thesis by (auto simp: store_bytes_def split: if_splits)
next
  case (Hint start n)
  with r inv idle cf prefetch_idle [of c peer start n w] show ?thesis
    by (simp add: pager_inv_defs)
qed

subsection \<open>One client among others\<close>

text \<open>What is written to pages that a client does not use leaves it as it is.\<close>

lemma tenant_bystander:
  assumes t: "tenant ready store n U W M c w" and s: "ready s" "\<forall>p < n. p \<in> pages (store s)"
    and same: "\<forall>p < n. p \<in> U \<longrightarrow> store s p = store (far w) p" "\<forall>p < n. p \<in> U \<longrightarrow> M' p = M p"
  shows "tenant ready store n U W M' c (w\<lparr>far := s\<rparr>)"
proof -
  have l: "linked ready store c w (view c (store (far w)))" and n: "num_virtual_pages c = n" and cf: "confined U W c"
    and M: "\<forall>p \<in> U. p < n \<longrightarrow> view c (store (far w)) p = M p"
    using t by (simp_all add: tenant_def)
  have "coherent c (store s)"
    using l n cf same(1) by (auto simp: linked_def net_ok_def represents_def coherent_def confined_def)
  then have "linked ready store c (w\<lparr>far := s\<rparr>) (view c (store s))"
    using l n s by (simp add: linked_def net_ok_def synced_def represents_def)
  moreover have "view c (store s) p = M' p" if "p \<in> U" "p < n" for p
    using M same that by (auto simp: view_def split: if_splits)
  ultimately show ?thesis
    using t by (simp add: tenant_def)
qed

context page_peer
begin

lemma tenant_store:
  assumes "tenant ready store n U W M c w" and "p < n" and "p \<notin> W"
  shows "view c (store (far w)) p = store (far w) p"
  using assms by (auto simp: tenant_def linked_def net_ok_def represents_def coherent_def confined_def view_def)

lemma tenant_step:
  assumes t: "tenant ready store n U W M c w" and x: "op_ok n x" "op_within U W x"
  shows "\<exists>c' w'. run_op peer x c w = Ret (Some (fst (spec_op x M)), c', w') \<and> tenant ready store n U W (snd (spec_op x M)) c' w' \<and>
    (\<forall>p < n. p \<notin> W \<longrightarrow> store (far w') p = store (far w) p)"
proof -
  let ?V = "view c (store (far w))"
  have l: "linked ready store c w ?V" and n: "num_virtual_pages c = n" and i: "idle c" and cf: "confined U W c"
    and M: "\<forall>p \<in> U. p < n \<longrightarrow> ?V p = M p" and inv: "pager_inv {} c"
    using t by (simp_all add: tenant_def linked_def)
  obtain c' w' where r: "run_op peer x c w = Ret (Some (fst (spec_op x ?V)), c', w')"
    "linked ready store c' w' (snd (spec_op x ?V))" "same_dims c c'"
    using run_op_refines [OF l] x(1) n by blast
  have n': "num_virtual_pages c' = n" using r(3) n by (simp add: same_dims_def)
  have v': "\<forall>p < n. view c' (store (far w')) p = snd (spec_op x ?V) p"
    using r(2) n' by (simp add: linked_def net_ok_def represents_def)
  have "linked ready store c' w' (view c' (store (far w')))"
    using r(2) by (simp add: linked_def net_ok_def represents_def)
  moreover have "idle c'"
    using run_op_kept [OF inv _ i r(1)] x(1) n by (simp add: kept_def)
  moreover have "confined U W c'"
    using confined_op [OF inv _ x(2) i cf r(1)] x(1) n by simp
  moreover have "\<forall>p \<in> U. p < n \<longrightarrow> snd (spec_op x ?V) p = snd (spec_op x M) p"
    using M x by (cases x) auto
  ultimately have t': "tenant ready store n U W (snd (spec_op x M)) c' w'"
    using n' v' by (simp add: tenant_def)
  have "store (far w') p = store (far w) p" if "p < n" "p \<notin> W" for p
  proof -
    have "snd (spec_op x ?V) p = ?V p" using that x(2) by (cases x) auto
    then show ?thesis
      using tenant_store [OF t that] tenant_store [OF t' that] v' that(1) by simp
  qed
  moreover have "fst (spec_op x ?V) = fst (spec_op x M)"
    using M x by (cases x) auto
  ultimately show ?thesis using r(1) t' by auto
qed

lemma start_tenant:
  assumes "dsm_create_context alloc np n = (Some c, held)" and "0 \<le> fd" and "synced ready w" and "reliable (kern w)"
    and "\<forall>p < n. p \<in> pages (store (far w))"
  shows "tenant ready store n U W (store (far w)) (dsm_context_set_socket c fd) w"
proof -
  have c: "np \<noteq> 0" "dsm_context_set_socket c fd = (fresh_context np n)\<lparr>sock_fd := fd\<rparr>"
    using create_context_Some [OF assms(1)] by (simp_all add: dsm_context_set_socket_def)
  have v: "view (dsm_context_set_socket c fd) S p = S p" if "p < n" for S p
    using that by (simp add: c(2) view_def fresh_context_def word_less_nat_alt)
  have "linked ready store (dsm_context_set_socket c fd) w (store (far w))"
    using start_linked [OF c(1) assms(2-5)] by (simp add: c(2))
  then have "linked ready store (dsm_context_set_socket c fd) w (view (dsm_context_set_socket c fd) (store (far w)))"
    by (simp add: linked_def net_ok_def represents_def)
  moreover have "confined U W (dsm_context_set_socket c fd)"
    by (simp add: c(2) confined_def fresh_context_def word_less_nat_alt)
  ultimately show ?thesis
    using fresh_kept(2,5) [OF assms(1), of fd] v by (simp add: tenant_def)
qed

end

subsection \<open>All clients\<close>

abbreviation client_ok ::
  "u32 \<Rightarrow> u32 set \<Rightarrow> u32 set \<Rightarrow> page_memory \<Rightarrow> unit session server \<Rightarrow> dsm_context \<times> unit session session net \<Rightarrow> bool" where
  "client_ok n U W M srv cl \<equiv> tenant sess_ready node_store n U W M (fst cl) (seat srv (snd cl))"

lemma seat_sel [simp]:
  "sess_server (far (seat srv w)) = srv" "seat (sess_server (far w)) w = w" "kern (seat srv w) = kern w"
  by (simp_all add: seat_def)

lemma seat_bystander:
  assumes i: "tenant sess_ready node_store n Ui Wi Mi ci w'" and j: "client_ok n U W M srv cl"
    and same: "\<forall>p < n. p \<in> U \<longrightarrow> node_store (far w') p = server_store sess_ready solo_store srv p" "\<forall>p < n. p \<in> U \<longrightarrow> M' p = M p"
  shows "client_ok n U W M' (sess_server (far w')) cl"
proof -
  let ?s = "(far (snd cl))\<lparr>sess_server := sess_server (far w')\<rparr>"
  have "sess_ready (far w')" "\<forall>p < n. p \<in> pages (node_store ?s)" "sess_ready (far (seat srv (snd cl)))"
    using i j by (auto simp: tenant_def linked_def net_ok_def synced_def)
  then have "sess_ready ?s" "\<forall>p < n. p \<in> pages (node_store ?s)"
    by (simp_all add: sess_ready_def seat_def)
  from tenant_bystander [OF j this] same show ?thesis
    by (simp add: seat_def)
qed

lemma clients_step:
  assumes ok: "\<forall>j < length cs. client_ok n (U j) (W j) M srv (cs ! j)" and part: "\<forall>j. j \<noteq> i \<longrightarrow> W i \<inter> U j = {}"
    and x: "i < length cs" "op_ok n x" "op_within (U i) (W i) x"
  shows "\<exists>c w. run_op node_peer x (fst (cs ! i)) (seat srv (snd (cs ! i))) = Ret (Some (fst (spec_op x M)), c, w) \<and>
    (\<forall>j < length cs. client_ok n (U j) (W j) (snd (spec_op x M)) (sess_server (far w)) (cs[i := (c, w)] ! j))"
proof -
  obtain c w where r: "run_op node_peer x (fst (cs ! i)) (seat srv (snd (cs ! i))) = Ret (Some (fst (spec_op x M)), c, w)"
    "tenant sess_ready node_store n (U i) (W i) (snd (spec_op x M)) c w"
    "\<forall>p < n. p \<notin> W i \<longrightarrow> node_store (far w) p = server_store sess_ready solo_store srv p"
    using member.tenant_step [of n "U i" "W i" M "fst (cs ! i)" "seat srv (snd (cs ! i))" x] ok x by auto
  have "client_ok n (U j) (W j) (snd (spec_op x M)) (sess_server (far w)) (cs[i := (c, w)] ! j)" if "j < length cs" for j
  proof (cases "j = i")
    case True
    with r(2) x(1) show ?thesis by simp
  next
    case False
    have M: "\<forall>p < n. p \<in> U j \<longrightarrow> snd (spec_op x M) p = M p"
      using x(3) part False by (cases x) auto
    have "\<forall>p < n. p \<in> U j \<longrightarrow> node_store (far w) p = server_store sess_ready solo_store srv p"
      using r(3) part False by blast
    from seat_bystander [OF r(2) ok [rule_format, OF that] this M] False show ?thesis by simp
  qed
  with r(1) show ?thesis by blast
qed

lemma run_clients_ok:
  assumes "\<forall>j < length cs. client_ok n (U j) (W j) M srv (cs ! j)" and part: "\<forall>i j. i \<noteq> j \<longrightarrow> W i \<inter> U j = {}"
    and "\<forall>(i, x) \<in> set sched. i < length cs \<and> op_ok n x \<and> op_within (U i) (W i) x"
  shows "\<exists>srv' cs'. run_clients node_peer sched srv cs = Ret (Some (fst (spec_ops (map snd sched) M)), srv', cs')"
  using assms(1,3)
proof (induction sched arbitrary: srv cs M)
  case (Cons ix sched)
  obtain i x where ix: "ix = (i, x)" by (cases ix)
  obtain c w where r: "run_op node_peer x (fst (cs ! i)) (seat srv (snd (cs ! i))) = Ret (Some (fst (spec_op x M)), c, w)"
    "\<forall>j < length cs. client_ok n (U j) (W j) (snd (spec_op x M)) (sess_server (far w)) (cs[i := (c, w)] ! j)"
    using clients_step [OF Cons.prems(1), of i x] part Cons.prems(2) ix by auto
  from Cons.IH [of "cs[i := (c, w)]" "snd (spec_op x M)" "sess_server (far w)"] r(2) Cons.prems(2) ix
  obtain srv' cs' where "run_clients node_peer sched (sess_server (far w)) (cs[i := (c, w)])
      = Ret (Some (fst (spec_ops (map snd sched) (snd (spec_op x M)))), srv', cs')"
    by auto
  with r(1) ix show ?case by (simp add: case_prod_unfold Let_def)
qed simp

lemma newcomer_ok:
  assumes "newcomer n cl" and "server_ok srv" and "running srv" and "\<forall>p < n. p \<in> pages (server_store sess_ready solo_store srv)"
  shows "client_ok n U W (server_store sess_ready solo_store srv) srv cl"
proof -
  obtain alloc np c held fd k s where a: "dsm_create_context alloc np n = (Some c, held)" "0 \<le> fd" "reliable k" "sess_ready s"
    "cl = (dsm_context_set_socket c fd, connection k s)"
    using assms(1) by (auto simp: newcomer_def)
  have "synced sess_ready (seat srv (connection k s))"
    using a(4) assms(2,3) by (simp add: synced_def sess_ready_def seat_def connection_def)
  with member.start_tenant [OF a(1,2), of "seat srv (connection k s)" U W] a(3) assms(4) show ?thesis
    by (simp add: a(5))
qed

subsection \<open>A cached page\<close>

lemma run_op_cached:
  assumes "unat p < length (page_table c)" and "valid (pte c p) \<noteq> 0"
    and "run_op peer (Load p off n) c w = Ret (r, c', w')"
  shows "run_op peer' (Load p off n) c v = Ret (r, c', v)"
  using assms by (auto simp: dsm_access_page_def Let_def outcome_simps)

lemma run_op_caches:
  assumes "pager_inv {} c" and "p < num_virtual_pages c" and "run_op peer (Load p off n) c w = Ret (Some v, c', w')"
  shows "valid (pte c' p) \<noteq> 0" and "unat p < length (page_table c')"
proof -
  obtain ptr where "dsm_access_page peer c p 0 w = Ret (Some ptr, c', w')"
    using assms(3) by (auto simp: outcome_simps split: option.splits)
  from ensuresD [OF ensures_access_page [OF assms(1,2)] this] assms(2) pager_inv_less(2) [of "{}" c' p]
  show "valid (pte c' p) \<noteq> 0" and "unat p < length (page_table c')"
    by (auto simp: same_dims_def)
qed

text \<open>One client works alone; and a schedule in two parts.\<close>

lemma run_clients_alone:
  assumes "client_ok n UNIV UNIV M srv (cs ! i)" and "i < length cs" and "\<forall>x \<in> set ops. op_ok n x"
  shows "\<exists>srv' cl'. run_clients node_peer (map (Pair i) ops) srv cs = Ret (Some (fst (spec_ops ops M)), srv', cs[i := cl'])"
  using assms
proof (induction ops arbitrary: srv cs M)
  case Nil
  show ?case by (intro exI [of _ srv] exI [of _ "cs ! i"]) simp
next
  case (Cons x ops)
  have "op_ok n x" "op_within UNIV UNIV x"
    using Cons.prems(3) by (simp_all, cases x) simp_all
  from member.tenant_step [OF Cons.prems(1) this]
  obtain c w where r: "run_op node_peer x (fst (cs ! i)) (seat srv (snd (cs ! i))) = Ret (Some (fst (spec_op x M)), c, w)"
    "tenant sess_ready node_store n UNIV UNIV (snd (spec_op x M)) c w"
    by blast
  from Cons.IH [of "snd (spec_op x M)" "cs[i := (c, w)]" "sess_server (far w)"] r(2) Cons.prems(2,3)
  obtain srv' cl' where "run_clients node_peer (map (Pair i) ops) (sess_server (far w)) (cs[i := (c, w)])
      = Ret (Some (fst (spec_ops ops (snd (spec_op x M)))), srv', cs[i := cl'])"
    by auto
  with r(1) show ?case
    by (intro exI [of _ srv'] exI [of _ cl']) (simp add: case_prod_unfold Let_def)
qed

lemma run_clients_append:
  assumes "run_clients peer xs srv cs = Ret (Some vs, srv', cs')" and "run_clients peer ys srv' cs' = Ret (Some vs', srv'', cs'')"
  shows "run_clients peer (xs @ ys) srv cs = Ret (Some (vs @ vs'), srv'', cs'')"
  using assms
proof (induction peer xs srv cs arbitrary: vs rule: run_clients.induct)
  case (2 peer i x rest srv cs)
  from "2.prems"(1) obtain v c w rs where
    "run_op peer x (fst (cs ! i)) (seat srv (snd (cs ! i))) = Ret (Some v, c, w)"
    "run_clients peer rest (sess_server (far w)) (cs[i := (c, w)]) = Ret (Some rs, srv', cs')" "vs = v # rs"
    by (auto simp: outcome_simps split: option.splits)
  with "2.IH" "2.prems"(2) show ?case by simp
qed simp

subsection \<open>Examples\<close>

lemma pair_server_ok: "server_ok (pair_server n)" "running (pair_server n)"
  "p < n \<Longrightarrow> p \<in> pages (server_store sess_ready solo_store (pair_server n))"
  by (simp_all add: pair_server_def solo_server_ok solo_server_pages)

lemma pair_server_zero: "p < n \<Longrightarrow> server_store nr ns (pair_server n) p = replicate PAGE_SIZE 0"
  using storage_bound [OF pair_server_ok(1), of p n]
  by (simp add: pair_server_def solo_server_def server_store_def is_local_def mem_read_def)

lemma zero_page:
  "mem_read (replicate PAGE_SIZE 0) 0 (Suc 0) = [0 :: u8]" "mem_read (mem_write (replicate PAGE_SIZE 0) 0 [b]) 0 (Suc 0) = [b :: u8]"
  "Suc 0 \<le> PAGE_SIZE"
  by (simp_all add: mem_read_def mem_write_def PAGE_SIZE_def)

lemma small_client_new: "newcomer n (small_client n)"
proof -
  have "dsm_create_context (\<lambda>_. True) 1 n = (Some (fresh_context 1 n), {B_ctx, B_memory, B_page_table, B_frame_table, B_free_list})"
    by (auto simp: dsm_create_context_def Let_def)
  moreover have "sess_ready (new_session (pair_server n))"
    by (rule new_session_ready) (rule pair_server_ok)+
  ultimately show ?thesis
    unfolding newcomer_def small_client_def
    by (intro exI [of _ 3] exI [of _ swift_kernel] exI conjI) (assumption | rule refl | simp)+
qed

subsection \<open>Properties\<close>

text \<open>
  C5. Any number of clients of a node with address spaces of one size, whatever the sizes of their
  caches, and any order of their loads, stores and prefetch hints: if no client uses a page that another one writes, every operation
  returns what it returns on one memory that all of them share. Pages that nobody writes
  may be read, and cached, by everyone.
\<close>

theorem partitioned_clients_share_memory:
  assumes "server_ok srv" and "running srv" and "\<forall>p < n. p \<in> pages (server_store sess_ready solo_store srv)"
    and "\<forall>cl \<in> set cs. newcomer n cl"
    and "\<forall>i j. i \<noteq> j \<longrightarrow> W i \<inter> U j = {}"
    and "\<forall>(i, x) \<in> set sched. i < length cs \<and> op_ok n x \<and> op_within (U i) (W i) x"
  shows "\<exists>srv' cs'. run_clients node_peer sched srv cs
    = Ret (Some (fst (spec_ops (map snd sched) (server_store sess_ready solo_store srv))), srv', cs')"
  using run_clients_ok [OF _ assms(5,6)] newcomer_ok [OF _ assms(1-3)] assms(4) by simp

theorem partitioned_clients_share_memory_witness:
  "\<exists>srv' cs'. run_clients node_peer [(0, Store 0 0 [7]), (1, Load 1 0 1), (0, Load 1 0 1), (0, Load 0 0 1)]
     (pair_server 2) [small_client 2, small_client 2] = Ret (Some [[], [0], [0], [7]], srv', cs')"
  using partitioned_clients_share_memory [of "pair_server 2" 2 "[small_client 2, small_client 2]"
      "\<lambda>i. if i = 0 then {0} else {}" "\<lambda>i. if i = 0 then {0, 1} else {1}"
      "[(0, Store 0 0 [7]), (1, Load 1 0 1), (0, Load 1 0 1), (0, Load 0 0 1)]"]
  by (simp add: pair_server_ok small_client_new pair_server_zero zero_page Let_def del: run_clients.simps run_op.simps)

text \<open>
  C31. There is no read-your-writes guarantee across clients: a client that has read a page keeps
  reading the same bytes, whatever another client stores to the page in the meantime, evicts and
  so writes back to the node, and reads back itself.
\<close>

theorem cached_page_goes_stale:
  assumes "server_ok srv" and "running srv" and "\<forall>p < n. p \<in> pages (server_store sess_ready solo_store srv)"
    and "newcomer n a" and "newcomer n b" and "op_ok n (Load p off k)" and "\<forall>x \<in> set ops. op_ok n x"
  defines "M \<equiv> server_store sess_ready solo_store srv"
  shows "\<exists>srv' cs'. run_clients node_peer ([(1, Load p off k)] @ map (Pair 0) ops @ [(1, Load p off k)]) srv [a, b]
    = Ret (Some ([mem_read (M p) off k] @ fst (spec_ops ops M) @ [mem_read (M p) off k]), srv', cs')"
proof -
  let ?x = "Load p off k" and ?U = "\<lambda>i::nat. UNIV :: u32 set" and ?W = "\<lambda>i. if i = 0 then UNIV else {} :: u32 set"
  have "\<forall>j < length [a, b]. client_ok n (?U j) (?W j) M srv ([a, b] ! j)"
    using newcomer_ok [OF _ assms(1-3)] assms(4,5) unfolding M_def by (auto simp: less_Suc_eq)
  from clients_step [OF this, of 1 ?x] assms(6) obtain c w where
    1: "run_op node_peer ?x (fst b) (seat srv (snd b)) = Ret (Some (mem_read (M p) off k), c, w)"
      "client_ok n UNIV UNIV M (sess_server (far w)) a" "tenant sess_ready node_store n UNIV {} M c w"
    by (auto simp: less_Suc_eq)
  obtain srv' cl where 2: "run_clients node_peer (map (Pair 0) ops) (sess_server (far w)) [a, (c, w)]
      = Ret (Some (fst (spec_ops ops M)), srv', [cl, (c, w)])"
    using run_clients_alone [of n M "[a, (c, w)]" 0 "sess_server (far w)" ops] 1(2) assms(7) by auto
  have inv: "pager_inv {} (fst b)" "p < num_virtual_pages (fst b)"
    using newcomer_ok [OF assms(5,1-3), of UNIV UNIV] assms(6) by (simp_all add: tenant_def linked_def)
  obtain c' w' where "run_op node_peer ?x c w = Ret (Some (mem_read (M p) off k), c', w')"
    using member.tenant_step [OF 1(3), of ?x] assms(6) by auto
  from run_op_cached [OF run_op_caches(2,1) [OF inv 1(1)] this]
  have 3: "run_op node_peer ?x c (seat srv' w) = Ret (Some (mem_read (M p) off k), c', seat srv' w)" .
  have "run_clients node_peer [(1, ?x)] srv [a, b] = Ret (Some [mem_read (M p) off k], sess_server (far w), [a, (c, w)])"
    "run_clients node_peer [(1, ?x)] srv' [cl, (c, w)] = Ret (Some [mem_read (M p) off k], srv', [cl, (c', seat srv' w)])"
    using 1(1) 3 by simp_all
  from run_clients_append [OF this(1) run_clients_append [OF 2 this(2)]] show ?thesis by blast
qed

theorem cached_page_goes_stale_witness:
  "\<exists>srv' cs'. run_clients node_peer [(1, Load 0 0 1), (0, Store 0 0 [7]), (0, Load 1 0 1), (0, Load 0 0 1), (1, Load 0 0 1)]
     (pair_server 2) [small_client 2, small_client 2] = Ret (Some [[0], [], [0], [7], [0]], srv', cs')"
  using cached_page_goes_stale [of "pair_server 2" 2 "small_client 2" "small_client 2" 0 0 1
      "[Store 0 0 [7], Load 1 0 1, Load 0 0 1]"]
  by (simp add: pair_server_ok small_client_new pair_server_zero zero_page Let_def del: run_clients.simps run_op.simps)

end
