(* ===== verification/DSM_Network.thy ===== *)
theory DSM_Network
  imports DSM_Cluster
begin

section \<open>The threads of a node and a network of nodes (dsm\_cluster.c)\<close>

text \<open>
  First the two threads of a node, \<open>gossip_loop\<close> and \<open>heartbeat_loop\<close>, as one sequence of
  their iterations in any order. Then several nodes that exchange datagrams over a network
  which may lose, repeat, reorder and misdeliver them but does not invent any. The results:
  what the nodes know of each other is what each of them announced, so that all agree on the
  owner of a page and the owner serves it itself; and two nodes that gossip keep each other
  from noticing that a third one is gone.
\<close>

subsection \<open>Definitions\<close>

paragraph \<open>The two threads\<close>

text \<open>The argument of \<open>usleep\<close> in \<open>heartbeat_loop\<close>, in the 32 bits it is computed in.\<close>

definition heartbeat_sleep :: "cluster_config \<Rightarrow> u32" where
  "heartbeat_sleep cfg = heartbeat_ms cfg * 1000 div 4"

text \<open>
  An iteration of \<open>gossip_loop\<close> is \<open>Recv\<close> with what \<open>recvfrom\<close> returns (\<open>None\<close> for the time-out
  of 100 ms or an error), one of \<open>heartbeat_loop\<close> is \<open>Beat\<close> with the time it reads, and \<open>Stop\<close>
  is \<open>cluster_stop\<close> in another thread. Each thread looks at \<open>running\<close> before an iteration and
  leaves its loop when it is cleared. The result is the context, \<open>last_gossip\<close> and the
  datagrams handed to \<open>sendto\<close> with their destinations.
\<close>

datatype loop_event = Recv gossip_msg "(bytes \<times> u32 \<times> u16) option" "nat \<Rightarrow> u64" | Beat u64 | Stop

type_synonym datagram = "u32 \<times> u16 \<times> bytes"

definition gossip_iteration ::
  "cluster_ctx \<Rightarrow> gossip_msg \<Rightarrow> (bytes \<times> u32 \<times> u16) option \<Rightarrow> (nat \<Rightarrow> u64) \<Rightarrow> (cluster_ctx \<times> datagram list) outcome" where
  "gossip_iteration ctx junk ans clock =
     (if \<not> cl_running ctx then Ret (ctx, [])
      else case ans of None \<Rightarrow> Ret (ctx, [])
      | Some (dgram, addr, port) \<Rightarrow>
          bind_oc (gossip_recv ctx junk dgram addr port clock) (\<lambda>(ctx, reply).
          Ret (ctx, case reply of None \<Rightarrow> [] | Some d \<Rightarrow> [(addr, port, d)])))"

definition heartbeat_iteration :: "cluster_ctx \<Rightarrow> u64 \<Rightarrow> u64 \<Rightarrow> cluster_ctx \<times> u64 \<times> datagram list" where
  "heartbeat_iteration ctx now last_gossip =
     (if \<not> cl_running ctx then (ctx, last_gossip, []) else heartbeat_tick ctx now last_gossip)"

fun cluster_loops :: "cluster_ctx \<Rightarrow> u64 \<Rightarrow> loop_event list \<Rightarrow> (cluster_ctx \<times> u64 \<times> datagram list) outcome" where
  "cluster_loops ctx last_gossip [] = Ret (ctx, last_gossip, [])"
| "cluster_loops ctx last_gossip (Recv junk ans clock # es) =
     bind_oc (gossip_iteration ctx junk ans clock) (\<lambda>(ctx, out).
     bind_oc (cluster_loops ctx last_gossip es) (\<lambda>(ctx, lg, outs). Ret (ctx, lg, out @ outs)))"
| "cluster_loops ctx last_gossip (Beat now # es) =
     (let (ctx, lg, out) = heartbeat_iteration ctx now last_gossip
      in bind_oc (cluster_loops ctx lg es) (\<lambda>(ctx, lg, outs). Ret (ctx, lg, out @ outs)))"
| "cluster_loops ctx last_gossip (Stop # es) = cluster_loops (cluster_stop ctx) last_gossip es"

fun event_ok :: "loop_event \<Rightarrow> bool" where
  "event_ok (Recv junk ans clock) \<longleftrightarrow> msg_ok junk"
| "event_ok _ \<longleftrightarrow> True"

text \<open>Datagrams that a receiver's buffer, which is as large as \<open>gossip_msg_t\<close>, takes whole.\<close>

definition fits :: "datagram list \<Rightarrow> bool" where
  "fits out \<longleftrightarrow> (\<forall>(addr, port, d) \<in> set out. HEADER_SIZE \<le> length d \<and> length d \<le> HEADER_SIZE + GOSSIP_MSG_MAX_NODES * NODE_SIZE)"

paragraph \<open>A network of nodes\<close>

text \<open>
  \<open>in_flight\<close> holds what has been sent: the number of the sender, the destination and the
  datagram. \<open>origin i\<close> is the source address and port that receivers see on the datagrams of
  node \<open>i\<close>, which need not be the address the node found for itself. What travels over the
  connections between nodes does not matter here (\<open>unit os\<close>).
\<close>

record network =
  members :: "cluster_ctx list"
  in_flight :: "(nat \<times> (u32 \<times> u16) \<times> bytes) set"

definition post :: "nat \<Rightarrow> datagram list \<Rightarrow> network \<Rightarrow> network" where
  "post i out N = N\<lparr>in_flight := in_flight N \<union> (\<lambda>(addr, port, d). (i, (addr, port), d)) ` set out\<rparr>"

definition set_member :: "nat \<Rightarrow> cluster_ctx \<Rightarrow> network \<Rightarrow> network" where
  "set_member i ctx N = N\<lparr>members := (members N)[i := ctx]\<rparr>"

text \<open>
  What a node says of itself, which is its \<open>self\<close> without the time stamp. A node that is
  restarted under its old id, address, port and configuration announces the same.
\<close>

definition announced :: "cluster_ctx \<Rightarrow> cluster_node" where
  "announced ctx = (cl_self ctx)\<lparr>n_last_seen := 0\<rparr>"

inductive net_step :: "(nat \<Rightarrow> u32 \<times> u16) \<Rightarrow> network \<Rightarrow> network \<Rightarrow> bool" for origin where
  beat: "i < length (members N) \<Longrightarrow> heartbeat_tick (members N ! i) now lg = (ctx, lg', out) \<Longrightarrow>
    net_step origin N (post i out (set_member i ctx N))"
| join: "i < length (members N) \<Longrightarrow> cluster_join (members N ! i) seed counts = Ret (rc, Some ((addr, port), d)) \<Longrightarrow>
    net_step origin N (post i [(addr, port, d)] N)"
| deliver: "(j, dest, d) \<in> in_flight N \<Longrightarrow> i < length (members N) \<Longrightarrow> msg_ok junk \<Longrightarrow> origin j = (addr, port) \<Longrightarrow>
    gossip_recv (members N ! i) junk d addr port clock = Ret (ctx, reply) \<Longrightarrow>
    net_step origin N (post i (case reply of None \<Rightarrow> [] | Some r \<Rightarrow> [(addr, port, r)]) (set_member i ctx N))"
| lose: "net_step origin N (N\<lparr>in_flight := in_flight N - {p}\<rparr>)"
| connect: "i < length (members N) \<Longrightarrow> get_peer_connection (members N ! i) n (os :: unit os) = Ret (fd, ctx, os') \<Longrightarrow>
    net_step origin N (set_member i ctx N)"
| restart: "i < length (members N) \<Longrightarrow> length gen = NODE_ID_LEN \<Longrightarrow>
    cluster_create True True cfg addr port gen now = Some ctx \<Longrightarrow> announced ctx = announced (members N ! i) \<Longrightarrow>
    net_step origin N (set_member i ctx N)"

text \<open>An entry that is what node \<open>i\<close> of the list \<open>as\<close> announced of itself, but for state and time stamp.\<close>

definition describes :: "(nat \<Rightarrow> u32 \<times> u16) \<Rightarrow> cluster_node list \<Rightarrow> nat \<Rightarrow> cluster_node \<Rightarrow> bool" where
  "describes origin as i n \<longleftrightarrow> i < length as \<and> n_id n = n_id (as ! i) \<and> n_client_port n = n_client_port (as ! i) \<and>
     n_range_start n = n_range_start (as ! i) \<and> n_range_end n = n_range_end (as ! i) \<and>
     n_incarnation n = n_incarnation (as ! i) \<and>
     (n_addr n, n_cluster_port n) \<in> {(n_addr (as ! i), n_cluster_port (as ! i)), origin i}"

definition authentic :: "(nat \<Rightarrow> u32 \<times> u16) \<Rightarrow> cluster_node list \<Rightarrow> cluster_node \<Rightarrow> bool" where
  "authentic origin as n \<longleftrightarrow> (\<exists>i. describes origin as i n)"

text \<open>What a datagram of node \<open>j\<close> says when it is parsed.\<close>

definition authentic_dgram :: "(nat \<Rightarrow> u32 \<times> u16) \<Rightarrow> cluster_node list \<Rightarrow> nat \<Rightarrow> bytes \<Rightarrow> bool" where
  "authentic_dgram origin as j d \<longleftrightarrow>
     (\<forall>junk m. msg_ok junk \<longrightarrow> gossip_parse d junk = Ret (0, m) \<longrightarrow>
        authentic origin as (gossip_sender (hdr m) (fst (origin j)) (snd (origin j))) \<and>
        (\<forall>g \<in> set (take (unat (g_node_count (hdr m))) (msg_nodes m)). authentic origin as (gossip_node_to_cluster g))) \<and>
     length d \<le> HEADER_SIZE + GOSSIP_MSG_MAX_NODES * NODE_SIZE"

definition genuine :: "(nat \<Rightarrow> u32 \<times> u16) \<Rightarrow> cluster_node list \<Rightarrow> network \<Rightarrow> bool" where
  "genuine origin as N \<longleftrightarrow> map announced (members N) = as \<and>
     (\<forall>ctx \<in> set (members N). ctx_ok ctx \<and> (\<forall>n \<in> set (nodes (cl_state ctx)). authentic origin as n)) \<and>
     (\<forall>(j, dest, d) \<in> in_flight N. j < length as \<and> authentic_dgram origin as j d)"

text \<open>The network at the start: nodes just created, nothing sent yet.\<close>

definition created :: "cluster_ctx \<Rightarrow> bool" where
  "created ctx \<longleftrightarrow> (\<exists>cfg addr port gen now. length gen = NODE_ID_LEN \<and> cluster_create True True cfg addr port gen now = Some ctx)"

definition initial :: "network \<Rightarrow> bool" where
  "initial N \<longleftrightarrow> (\<forall>ctx \<in> set (members N). created ctx) \<and> in_flight N = {}"

definition disjoint_ranges :: "cluster_node list \<Rightarrow> bool" where
  "disjoint_ranges as \<longleftrightarrow> (\<forall>i < length as. \<forall>j < length as. \<forall>p. i \<noteq> j \<longrightarrow>
     \<not> (n_range_start (as ! i) \<le> p \<and> p < n_range_end (as ! i) \<and> n_range_start (as ! j) \<le> p \<and> p < n_range_end (as ! j)))"

paragraph \<open>Two nodes that gossip\<close>

text \<open>
  One heartbeat of node \<open>a\<close> at time \<open>now\<close> whose ping reaches \<open>b\<close>, with \<open>b\<close>'s PONG reaching \<open>a\<close>;
  and rounds in which \<open>a\<close> and \<open>b\<close> each do this in turn. Nobody else sends anything.
\<close>

definition exchange :: "gossip_msg \<Rightarrow> u64 \<Rightarrow> cluster_ctx \<Rightarrow> u64 \<Rightarrow> cluster_ctx \<Rightarrow> (cluster_ctx \<times> u64 \<times> cluster_ctx) outcome" where
  "exchange junk now a last_gossip b =
     (let (a, lg, out) = heartbeat_tick a now last_gossip
      in case find (\<lambda>(addr, port, d). addr = n_addr (cl_self b) \<and> port = n_cluster_port (cl_self b)) out of
           None \<Rightarrow> Ret (a, lg, b)
         | Some (_, _, d) \<Rightarrow>
             bind_oc (gossip_recv b junk d (n_addr (cl_self a)) (n_cluster_port (cl_self a)) (\<lambda>_. now)) (\<lambda>(b, reply).
             case reply of None \<Rightarrow> Ret (a, lg, b)
             | Some r \<Rightarrow>
                 bind_oc (gossip_recv a junk r (n_addr (cl_self b)) (n_cluster_port (cl_self b)) (\<lambda>_. now)) (\<lambda>(a, _).
                 Ret (a, lg, b))))"

fun gossip_rounds ::
  "gossip_msg \<Rightarrow> u64 list \<Rightarrow> cluster_ctx \<Rightarrow> u64 \<Rightarrow> cluster_ctx \<Rightarrow> u64 \<Rightarrow> (cluster_ctx \<times> cluster_ctx) outcome" where
  "gossip_rounds junk [] a la b lb = Ret (a, b)"
| "gossip_rounds junk (now # ts) a la b lb =
     bind_oc (exchange junk now a la b) (\<lambda>(a, la, b).
     bind_oc (exchange junk now b lb a) (\<lambda>(b, lb, a).
     gossip_rounds junk ts a la b lb))"

text \<open>Each of the times \<open>ts\<close> follows the one before, at first \<open>t\<close>, within \<open>lo\<close> and \<open>hi\<close> milliseconds.\<close>

fun paced :: "u64 \<Rightarrow> u64 \<Rightarrow> u64 \<Rightarrow> u64 list \<Rightarrow> bool" where
  "paced lo hi t [] \<longleftrightarrow> True"
| "paced lo hi t (t' # ts) \<longleftrightarrow> lo \<le> t' - t \<and> t' - t \<le> hi \<and> paced lo hi t' ts"

definition stamp :: "u64 \<Rightarrow> bytes set \<Rightarrow> cluster_state \<Rightarrow> cluster_state" where
  "stamp now X s = s\<lparr>nodes := map (\<lambda>n. if n_id n \<in> X then n\<lparr>n_last_seen := now\<rparr> else n) (nodes s)\<rparr>"

definition all_alive :: "cluster_state \<Rightarrow> bool" where
  "all_alive s \<longleftrightarrow> (\<forall>n \<in> set (nodes s). n_state n = NODE_STATE_ALIVE \<and> n_incarnation n = 1)"

definition seen_at :: "u64 \<Rightarrow> cluster_state \<Rightarrow> bool" where
  "seen_at t s \<longleftrightarrow> (\<forall>i < length (nodes s). i \<noteq> self_idx s \<longrightarrow> n_last_seen (nodes s ! i) = t)"

text \<open>
  \<open>a\<close> has a table of at most sixteen members, all of them ALIVE and not restarted, and \<open>b\<close> is
  among the first three others, at the address it has.
\<close>

definition in_touch :: "cluster_ctx \<Rightarrow> cluster_ctx \<Rightarrow> bool" where
  "in_touch a b \<longleftrightarrow> ctx_ok a \<and> all_alive (cl_state a) \<and> n_incarnation (cl_self a) = 1 \<and>
     length (nodes (cl_state a)) \<le> GOSSIP_MSG_MAX_NODES \<and> known (cl_state a) = known (cl_state b) \<and>
     (\<exists>n \<in> set (ping_targets (self_idx (cl_state a)) 0 0 (nodes (cl_state a))).
        n_addr n = n_addr (cl_self b) \<and> n_cluster_port n = n_cluster_port (cl_self b))"

paragraph \<open>A small network\<close>

text \<open>Two nodes just created, owning page 1 and page 2; node 2 is given node 1 as its seed.\<close>

definition sample_config :: "u8 \<Rightarrow> cluster_config" where
  "sample_config b = \<lparr>seed_addr = Some ''node1'', seed_port = 5556, cfg_node_id = None, cluster_port = 5556,
     heartbeat_ms = 1000, gossip_ms = 500, timeout_ms = 3000, page_range_start = ucast b, page_range_end = ucast b + 1\<rparr>"

definition sample_created :: "u8 \<Rightarrow> cluster_ctx" where
  "sample_created b = \<lparr>cl_cfg = sample_config b, cl_state = \<lparr>nodes = [sample_node b], self_idx = 0\<rparr>,
     cl_self = sample_node b, udp_fd = -1, cl_running = False, peer_fds = replicate CLUSTER_MAX_NODES (-1)\<rparr>"

definition sample_network :: network where
  "sample_network = \<lparr>members = [sample_created 1, sample_created 2], in_flight = {}\<rparr>"

definition sample_origin :: "nat \<Rightarrow> u32 \<times> u16" where
  "sample_origin i = (of_nat i + 1, 5556)"

subsection \<open>Datagrams of a node\<close>

lemma dgram_max: "HEADER_SIZE + GOSSIP_MSG_MAX_NODES * NODE_SIZE = 676"
  by (simp add: gossip_consts)

text \<open>What the three kinds of message say, to whoever parses them.\<close>

lemma authentic_send_msg:
  assumes m: "msg_ok m" "g_magic (hdr m) = GOSSIP_MAGIC" "unat (g_node_count (hdr m)) \<le> GOSSIP_MSG_MAX_NODES"
    and s: "authentic origin as (gossip_sender (hdr m) (fst (origin j)) (snd (origin j)))"
    and ns: "\<forall>g \<in> set (take (unat (g_node_count (hdr m))) (msg_nodes m)). authentic origin as (gossip_node_to_cluster g)"
  shows "authentic_dgram origin as j (fst (send_msg m n))"
proof -
  have parse: "hdr m' = hdr m \<and> take (unat (g_node_count (hdr m))) (msg_nodes m') = take (unat (g_node_count (hdr m))) (msg_nodes m)"
    if "msg_ok junk" "gossip_parse (fst (send_msg m n)) junk = Ret (0, m')" for junk m'
  proof -
    have "length (msg_nodes junk) = GOSSIP_MSG_MAX_NODES"
      using that(1) by (simp add: msg_ok_def)
    from parse_sent [OF m this, of n] that(2) show ?thesis by auto
  qed
  show ?thesis
    unfolding authentic_dgram_def
  proof (intro conjI allI impI)
    fix junk m' assume j: "msg_ok junk" "gossip_parse (fst (send_msg m n)) junk = Ret (0, m')"
    note p = parse [OF j]
    show "authentic origin as (gossip_sender (hdr m') (fst (origin j)) (snd (origin j)))"
      using s p by simp
    show "\<forall>g \<in> set (take (unat (g_node_count (hdr m'))) (msg_nodes m')). authentic origin as (gossip_node_to_cluster g)"
      using ns p by simp
  next
    show "length (fst (send_msg m n)) \<le> HEADER_SIZE + GOSSIP_MSG_MAX_NODES * NODE_SIZE"
      using length_send_msg [OF m(1,3), of n] m(3) by simp
  qed
qed

lemma announced_sel [simp]:
  "n_id (announced ctx) = n_id (cl_self ctx)" "n_client_port (announced ctx) = n_client_port (cl_self ctx)"
  "n_range_start (announced ctx) = n_range_start (cl_self ctx)" "n_range_end (announced ctx) = n_range_end (cl_self ctx)"
  "n_incarnation (announced ctx) = n_incarnation (cl_self ctx)" "n_addr (announced ctx) = n_addr (cl_self ctx)"
  "n_cluster_port (announced ctx) = n_cluster_port (cl_self ctx)"
  by (simp_all add: announced_def)

lemma authentic_update [simp]:
  "authentic origin as (n\<lparr>n_last_seen := t\<rparr>) = authentic origin as n"
  "authentic origin as (n\<lparr>n_state := st\<rparr>) = authentic origin as n"
  by (simp_all add: authentic_def describes_def)

lemma authentic_self:
  assumes "i < length as" and "as ! i = announced ctx"
  shows "authentic origin as (cl_self ctx)"
  using assms by (auto simp: authentic_def describes_def intro!: exI [of _ i])

lemma authentic_sender:
  assumes "i < length as" and "as ! i = announced ctx"
  shows "authentic origin as (gossip_sender (hdr (fill_header t (cl_self ctx))\<lparr>g_node_count := c\<rparr>) (fst (origin i)) (snd (origin i)))"
  using assms by (auto simp: authentic_def describes_def gossip_sender_def fill_header_def intro!: exI [of _ i])

lemma authentic_ping:
  assumes i: "i < length as" "as ! i = announced ctx" and ok: "ctx_ok ctx"
  shows "authentic_dgram origin as i (fst (gossip_send_ping (cl_self ctx) n))"
  unfolding gossip_send_ping_def
proof (rule authentic_send_msg)
  show "msg_ok (set_node_count 0 (fill_header GOSSIP_PING (cl_self ctx)))"
    using ok by (intro ping_msg_ok) (simp add: ctx_ok_def)
  show "authentic origin as (gossip_sender (hdr (set_node_count 0 (fill_header GOSSIP_PING (cl_self ctx)))) (fst (origin i)) (snd (origin i)))"
    using authentic_sender [OF i] by (simp add: set_node_count_def)
qed (simp_all add: set_node_count_def)

lemma authentic_pong:
  assumes i: "i < length as" "as ! i = announced ctx" and ok: "ctx_ok ctx"
    and ns: "\<forall>n \<in> set (nodes (cl_state ctx)). authentic origin as n"
    and d: "gossip_send_pong (cl_self ctx) (nodes (cl_state ctx)) n = Ret (d, rc)"
  shows "authentic_dgram origin as i d"
proof -
  have ids: "length (n_id (cl_self ctx)) = NODE_ID_LEN" "\<forall>n \<in> set (nodes (cl_state ctx)). length (n_id n) = NODE_ID_LEN"
    using ok by (simp_all add: ctx_ok_def table_ok_def)
  obtain m where m: "pong_msg (cl_self ctx) (nodes (cl_state ctx)) = Ret m" "msg_ok m" "g_magic (hdr m) = GOSSIP_MAGIC"
    "hdr m = (hdr (fill_header GOSSIP_PONG (cl_self ctx)))
       \<lparr>g_node_count := of_nat (min GOSSIP_MSG_MAX_NODES (length (nodes (cl_state ctx))))\<rparr>"
    "unat (g_node_count (hdr m)) = min GOSSIP_MSG_MAX_NODES (length (nodes (cl_state ctx)))"
    "take (unat (g_node_count (hdr m))) (msg_nodes m) = map cluster_node_to_gossip (take GOSSIP_MSG_MAX_NODES (nodes (cl_state ctx)))"
    using pong_msg_eq [OF ids] by blast
  have "d = fst (send_msg m n)"
    using d m(1) by (simp add: gossip_send_pong_def)
  moreover have "authentic_dgram origin as i (fst (send_msg m n))"
  proof (rule authentic_send_msg [OF m(2,3)])
    show "unat (g_node_count (hdr m)) \<le> GOSSIP_MSG_MAX_NODES"
      using m(5) by simp
    show "authentic origin as (gossip_sender (hdr m) (fst (origin i)) (snd (origin i)))"
      unfolding m(4) by (rule authentic_sender [OF i])
    show "\<forall>g \<in> set (take (unat (g_node_count (hdr m))) (msg_nodes m)). authentic origin as (gossip_node_to_cluster g)"
      unfolding m(6) using ns by (auto dest: in_set_takeD)
  qed
  ultimately show ?thesis by simp
qed

lemma authentic_join:
  assumes i: "i < length as" "as ! i = announced ctx" and ok: "ctx_ok ctx"
    and d: "gossip_send_join (cl_self ctx) n = Ret (d, rc)"
  shows "authentic_dgram origin as i d"
proof -
  have "length (n_id (cl_self ctx)) = NODE_ID_LEN"
    using ok by (simp add: ctx_ok_def)
  from join_msg_eq [OF this, of n] obtain m where m: "gossip_send_join (cl_self ctx) n = Ret (send_msg m n)" "msg_ok m"
    "g_magic (hdr m) = GOSSIP_MAGIC" "hdr m = (hdr (fill_header GOSSIP_JOIN (cl_self ctx)))\<lparr>g_node_count := 1\<rparr>"
    "take 1 (msg_nodes m) = [cluster_node_to_gossip (cl_self ctx)]"
    by blast
  have c: "unat (g_node_count (hdr m)) = 1"
    by (simp add: m(4))
  have "authentic_dgram origin as i (fst (send_msg m n))"
  proof (rule authentic_send_msg [OF m(2,3)])
    show "unat (g_node_count (hdr m)) \<le> GOSSIP_MSG_MAX_NODES"
      using c by (simp add: gossip_consts)
    show "authentic origin as (gossip_sender (hdr m) (fst (origin i)) (snd (origin i)))"
      unfolding m(4) by (rule authentic_sender [OF i])
    show "\<forall>g \<in> set (take (unat (g_node_count (hdr m))) (msg_nodes m)). authentic origin as (gossip_node_to_cluster g)"
      unfolding c m(5) using authentic_self [OF i] by simp
  qed
  with d m(1) show ?thesis by simp
qed

subsection \<open>What nodes learn\<close>

lemma merge_node_authentic:
  assumes "\<forall>n \<in> set (nodes s). authentic origin as n" and "authentic origin as node"
  shows "\<forall>n \<in> set (nodes (merge_node s node now)). authentic origin as n"
proof (cases "find_node_by_id s (n_id node)")
  case None
  with assms show ?thesis by (auto simp: merge_node_def)
next
  case (Some i)
  note i = find_node_by_id_Some [OF Some]
  have "authentic origin as (nodes s ! i)"
    using assms(1) i(1) by simp
  moreover have "authentic origin as ((nodes s ! i)\<lparr>n_addr := n_addr node, n_client_port := n_client_port node,
      n_cluster_port := n_cluster_port node, n_range_start := n_range_start node, n_range_end := n_range_end node,
      n_incarnation := n_incarnation node, n_state := n_state node, n_last_seen := now\<rparr>)"
    using assms(2) i(2) by (simp add: authentic_def describes_def)
  ultimately show ?thesis
    using assms(1) by (auto simp: merge_node_def Some Let_def dest!: set_update_subset_insert [THEN subsetD])
qed

lemma merge_nodes_authentic:
  "\<forall>n \<in> set (nodes s). authentic origin as n \<Longrightarrow> \<forall>g \<in> set gns. authentic origin as (gossip_node_to_cluster g) \<Longrightarrow>
     \<forall>n \<in> set (nodes (merge_nodes s gns clock i)). authentic origin as n"
proof (induction s gns clock i rule: merge_nodes.induct)
  case (2 s gn gns clock i)
  then have "\<forall>n \<in> set (nodes (merge_node s (gossip_node_to_cluster gn) (clock i))). authentic origin as n"
    by (intro merge_node_authentic) simp_all
  with 2 show ?case by simp
qed simp

lemma age_nodes_authentic:
  "\<forall>n \<in> set ns. authentic origin as n \<Longrightarrow> \<forall>n \<in> set (age_nodes self i timeout now ns). authentic origin as n"
  by (induction ns arbitrary: i) (auto simp: age_node_def Let_def)

lemma gossip_recv_cases:
  assumes "msg_ok junk" and "length d \<le> HEADER_SIZE + GOSSIP_MSG_MAX_NODES * NODE_SIZE"
    and "gossip_recv ctx junk d addr port clock = Ret (ctx', reply)"
  shows "ctx' = ctx \<and> reply = None \<or>
    (\<exists>m. gossip_parse d junk = Ret (0, m) \<and> handle_gossip_msg ctx m addr port clock = Ret (ctx', reply))"
proof -
  have d: "take (HEADER_SIZE + GOSSIP_MSG_MAX_NODES * NODE_SIZE) d = d"
    using assms(2) by simp
  have "\<exists>rc m. gossip_parse d junk = Ret (rc, m)"
    using gossip_parse_accept [of d junk] gossip_parse_reject [of d junk] assms(1) by (cases "gossip_accepts d") (auto simp: msg_ok_def)
  then obtain rc m where "gossip_parse d junk = Ret (rc, m)" by blast
  then show ?thesis
    using assms(3) unfolding gossip_recv_def d Let_def by (auto split: if_splits)
qed

lemma handle_gossip_msg_eq:
  assumes "handle_gossip_msg ctx m addr port clock = Ret (ctx', reply)"
  shows "\<exists>s. ctx' = ctx\<lparr>cl_state := s\<rparr> \<and>
    s = merge_nodes (merge_node (cl_state ctx) (gossip_sender (hdr m) addr port) (clock 0))
      (take (unat (g_node_count (hdr m))) (msg_nodes m)) clock 1 \<and>
    (\<forall>r. reply = Some r \<longrightarrow> (\<exists>rc. gossip_send_pong (cl_self ctx) (nodes s) 0 = Ret (r, rc)))"
  using assms
  by (cases "gossip_send_pong (cl_self ctx) (nodes (merge_nodes (merge_node (cl_state ctx) (gossip_sender (hdr m) addr port) (clock 0))
      (take (unat (g_node_count (hdr m))) (msg_nodes m)) clock 1)) 0")
    (auto simp: handle_gossip_msg_def Let_def split: if_splits)

lemma gossip_recv_authentic:
  assumes i: "i < length as" "as ! i = announced ctx" and ok: "ctx_ok ctx"
    and ns: "\<forall>n \<in> set (nodes (cl_state ctx)). authentic origin as n"
    and d: "authentic_dgram origin as j d" "origin j = (addr, port)" and junk: "msg_ok junk"
    and eq: "gossip_recv ctx junk d addr port clock = Ret (ctx', reply)"
  shows "announced ctx' = announced ctx \<and> ctx_ok ctx' \<and> (\<forall>n \<in> set (nodes (cl_state ctx')). authentic origin as n) \<and>
    (\<forall>r. reply = Some r \<longrightarrow> authentic_dgram origin as i r)"
proof -
  obtain s reply' where s: "gossip_recv ctx junk d addr port clock = Ret (ctx\<lparr>cl_state := s\<rparr>, reply')" "table_ok s" "grows (cl_state ctx) s"
    using gossip_recv_ok [OF ok junk] by blast
  have ok': "ctx_ok ctx'" and ann: "announced ctx' = announced ctx"
    using s eq ok grows_self [of "cl_state ctx" s] by (auto simp: ctx_ok_def announced_def)
  have len: "length d \<le> HEADER_SIZE + GOSSIP_MSG_MAX_NODES * NODE_SIZE"
    using d(1) by (simp add: authentic_dgram_def)
  from gossip_recv_cases [OF junk len eq] show ?thesis
  proof (elim disjE exE conjE)
    assume "ctx' = ctx" "reply = None"
    with ok ns show ?thesis by simp
  next
    fix m assume m: "gossip_parse d junk = Ret (0, m)" "handle_gossip_msg ctx m addr port clock = Ret (ctx', reply)"
    obtain s where h: "ctx' = ctx\<lparr>cl_state := s\<rparr>"
      "s = merge_nodes (merge_node (cl_state ctx) (gossip_sender (hdr m) addr port) (clock 0))
        (take (unat (g_node_count (hdr m))) (msg_nodes m)) clock 1"
      "\<forall>r. reply = Some r \<longrightarrow> (\<exists>rc. gossip_send_pong (cl_self ctx) (nodes s) 0 = Ret (r, rc))"
      using handle_gossip_msg_eq [OF m(2)] by blast
    have a: "authentic origin as (gossip_sender (hdr m) addr port)"
      "\<forall>g \<in> set (take (unat (g_node_count (hdr m))) (msg_nodes m)). authentic origin as (gossip_node_to_cluster g)"
      using d junk m(1) unfolding authentic_dgram_def by auto
    have ns': "\<forall>n \<in> set (nodes (cl_state ctx')). authentic origin as n"
      using merge_nodes_authentic [OF merge_node_authentic [OF ns a(1)] a(2)] h(1,2) by simp
    have "authentic_dgram origin as i r" if "reply = Some r" for r
      using authentic_pong [OF i(1) _ ok' ns', of 0 r] h(1,3) that i(2) ann by auto
    with ok' ann ns' show ?thesis by blast
  qed
qed

subsection \<open>The network\<close>

lemma genuine_set_member:
  assumes "genuine origin as N" and "i < length (members N)" and "announced ctx = announced (members N ! i)" and "ctx_ok ctx"
    and "\<forall>n \<in> set (nodes (cl_state ctx)). authentic origin as n"
  shows "genuine origin as (set_member i ctx N)"
proof -
  have "map announced ((members N)[i := ctx]) = map announced (members N)"
    using assms(2,3) by (simp add: map_update) (metis length_map list_update_id nth_map)
  with assms show ?thesis
    by (auto simp: genuine_def set_member_def dest!: set_update_subset_insert [THEN subsetD])
qed

lemma genuine_post:
  assumes "genuine origin as N" and "i < length (members N)" and "\<forall>(addr, port, d) \<in> set out. authentic_dgram origin as i d"
  shows "genuine origin as (post i out N)"
proof -
  have "i < length as" using assms(1,2) by (auto simp: genuine_def)
  with assms(1,3) show ?thesis by (auto simp: genuine_def post_def)
qed

lemma genuine_member:
  assumes "genuine origin as N" and "i < length (members N)"
  shows "i < length as" "as ! i = announced (members N ! i)" "ctx_ok (members N ! i)"
    "\<forall>n \<in> set (nodes (cl_state (members N ! i))). authentic origin as n"
  using assms by (auto simp: genuine_def)

lemma length_members [simp]: "length (members (set_member i ctx N)) = length (members N)"
  by (simp add: set_member_def)

lemma heartbeat_tick_authentic:
  assumes "heartbeat_tick ctx now lg = (ctx', lg', out)" and i: "i < length as" "as ! i = announced ctx" and ok: "ctx_ok ctx"
    and ns: "\<forall>n \<in> set (nodes (cl_state ctx)). authentic origin as n"
  shows "announced ctx' = announced ctx \<and> ctx_ok ctx' \<and> (\<forall>n \<in> set (nodes (cl_state ctx')). authentic origin as n) \<and>
    (\<forall>(addr, port, d) \<in> set out. authentic_dgram origin as i d)"
proof -
  have ctx': "ctx' = fst (heartbeat_tick ctx now lg)" using assms(1) by simp
  have ok': "ctx_ok ctx'"
    using cluster_step_ok [OF cluster_step.tick [OF assms(1), of "undefined :: unit os"]] ok by simp
  have ns': "\<forall>n \<in> set (nodes (cl_state ctx')). authentic origin as n"
    using age_nodes_authentic [OF ns] by (simp add: ctx' heartbeat_tick_eq)
  have ann: "cl_self ctx' = cl_self ctx" by (simp add: ctx' heartbeat_tick_eq)
  have "\<forall>(addr, port, d) \<in> set out. d = fst (gossip_send_ping (cl_self ctx) 0)"
    using assms(1) by (auto simp: heartbeat_tick_def Let_def split: if_splits)
  then have "\<forall>(addr, port, d) \<in> set out. authentic_dgram origin as i d"
    using authentic_ping [OF i ok] by auto
  with ok' ns' ann show ?thesis by (simp add: announced_def)
qed

lemma created_authentic:
  assumes "cluster_create True True cfg addr port gen now = Some ctx" and "i < length as" and "as ! i = announced ctx"
  shows "\<forall>n \<in> set (nodes (cl_state ctx)). authentic origin as n"
proof -
  have "nodes (cl_state ctx) = [cl_self ctx]"
    using assms(1) by (auto simp: cluster_create_def Let_def)
  with authentic_self [OF assms(2,3)] show ?thesis by simp
qed

lemma net_step_genuine:
  assumes "net_step origin N N'" and "genuine origin as N"
  shows "genuine origin as N'"
  using assms
proof (induction rule: net_step.induct)
  case (beat i N now lg ctx lg' out)
  note g = genuine_member [OF beat(3,1)]
  have "announced ctx = announced (members N ! i) \<and> ctx_ok ctx \<and> (\<forall>n \<in> set (nodes (cl_state ctx)). authentic origin as n) \<and>
      (\<forall>(addr, port, d) \<in> set out. authentic_dgram origin as i d)"
    by (rule heartbeat_tick_authentic [OF beat(2) g])
  then show ?case
    using genuine_set_member [OF beat(3,1)] beat(1) by (intro genuine_post) simp_all
next
  case (join i N seed counts rc addr port d)
  note g = genuine_member [OF join(3,1)]
  have "\<exists>rc. gossip_send_join (cl_self (members N ! i)) 0 = Ret (d, rc)"
    using join(2) by (cases "gossip_send_join (cl_self (members N ! i)) 0")
      (auto simp: cluster_join_def split: if_splits option.splits)
  then have "authentic_dgram origin as i d"
    using authentic_join [OF g(1-3), of 0 d] by auto
  then show ?case
    using join(1,3) by (intro genuine_post) simp_all
next
  case (deliver j dest d N i junk addr port clock ctx reply)
  note g = genuine_member [OF deliver(6,2)]
  have "authentic_dgram origin as j d"
    using deliver(1,6) by (auto simp: genuine_def)
  from gossip_recv_authentic [OF g this deliver(4,3,5)]
  have "announced ctx = announced (members N ! i) \<and> ctx_ok ctx \<and> (\<forall>n \<in> set (nodes (cl_state ctx)). authentic origin as n) \<and>
    (\<forall>r. reply = Some r \<longrightarrow> authentic_dgram origin as i r)" .
  then show ?case
    using genuine_set_member [OF deliver(6,2)] deliver(2) by (intro genuine_post) (auto split: option.splits)
next
  case (lose N p)
  then show ?case by (auto simp: genuine_def)
next
  case (connect i N n os fd ctx os')
  note g = genuine_member [OF connect(3,1)]
  obtain fds where "ctx = (members N ! i)\<lparr>peer_fds := fds\<rparr>" "length fds = length (peer_fds (members N ! i))"
    using get_peer_connection_ctx [OF connect(2)] by blast
  with g show ?case
    by (intro genuine_set_member [OF connect(3,1)]) (simp_all add: announced_def ctx_ok_def)
next
  case (restart i N gen cfg addr port now ctx)
  note g = genuine_member [OF restart(5,1)]
  show ?case
    using created_authentic [OF restart(3) g(1)] cluster_create_ok [OF restart(3,2)] restart(4) g(2)
    by (intro genuine_set_member [OF restart(5,1)]) simp_all
qed

lemma initial_genuine:
  assumes "initial N"
  shows "genuine origin (map announced (members N)) N"
proof -
  have "ctx_ok ctx \<and> (\<forall>n \<in> set (nodes (cl_state ctx)). authentic origin (map announced (members N)) n)"
    if "ctx \<in> set (members N)" for ctx
  proof -
    obtain i where i: "i < length (members N)" "ctx = members N ! i"
      using \<open>ctx \<in> set (members N)\<close> unfolding in_set_conv_nth by blast
    obtain cfg addr port gen now where c: "length gen = NODE_ID_LEN" "cluster_create True True cfg addr port gen now = Some ctx"
      using assms \<open>ctx \<in> set (members N)\<close> by (auto simp: initial_def created_def)
    from created_authentic [OF c(2), of i "map announced (members N)"] cluster_create_ok [OF c(2,1)] i show ?thesis
      by simp
  qed
  with assms show ?thesis by (simp add: genuine_def initial_def)
qed

lemma reachable_genuine:
  assumes "(net_step origin)\<^sup>*\<^sup>* N0 N" and "initial N0"
  shows "genuine origin (map announced (members N0)) N"
  using assms(1)
  by (induction rule: rtranclp_induct) (use initial_genuine [OF assms(2)] net_step_genuine in blast)+

subsection \<open>Gossip keeps entries fresh\<close>

lemma stamp_sel [simp]:
  "self_idx (stamp now X s) = self_idx s" "length (nodes (stamp now X s)) = length (nodes s)"
  "map n_id (nodes (stamp now X s)) = map n_id (nodes s)"
  by (simp_all add: stamp_def)

lemma known_stamp [simp]: "known (stamp now X s) = known s"
  unfolding known_def set_map [symmetric] stamp_sel(3) ..

lemma ball_stamp:
  assumes "\<And>n. P (n\<lparr>n_last_seen := now\<rparr>) = P n"
  shows "(\<forall>n \<in> set (nodes (stamp now X s)). P n) = (\<forall>n \<in> set (nodes s). P n)"
proof -
  have "nodes (stamp now X s) = map (\<lambda>n. if n_id n \<in> X then n\<lparr>n_last_seen := now\<rparr> else n) (nodes s)"
    by (simp add: stamp_def)
  then show ?thesis
    using assms by (simp only: set_map ball_simps) auto
qed

lemma all_alive_stamp [simp]: "all_alive (stamp now X s) = all_alive s"
  unfolding all_alive_def by (rule ball_stamp) simp

lemma stamp_stamp: "stamp now X (stamp now Y s) = stamp now (Y \<union> X) s"
  by (simp add: stamp_def comp_def if_distrib [of n_id])

lemma nth_stamp_id: "i < length (nodes s) \<Longrightarrow> n_id (nodes (stamp now X s) ! i) = n_id (nodes s ! i)"
  by (simp add: stamp_def)

lemma table_ok_stamp [simp]: "table_ok (stamp now X s) = table_ok s"
  unfolding table_ok_def by (subst ball_stamp) simp_all

lemma ctx_ok_stamp: "ctx_ok ctx \<Longrightarrow> ctx_ok (ctx\<lparr>cl_state := stamp now X (cl_state ctx)\<rparr>)"
  unfolding ctx_ok_def by (simp add: nth_stamp_id) (simp add: table_ok_def nth_stamp_id)

lemma merge_alive:
  assumes "table_ok s" and "all_alive s" and "n_id m \<in> known s" and "n_state m = NODE_STATE_ALIVE" "n_incarnation m = 1"
  shows "merge_node s m now = stamp now {n_id m} s"
proof -
  obtain i where i: "i < length (nodes s)" "n_id (nodes s ! i) = n_id m"
    using assms(3) by (auto simp: known_def in_set_conv_nth)
  then have f: "find_node_by_id s (n_id m) = Some i"
    using find_node_by_id_nth [OF assms(1) i(1)] by simp
  have e: "n_state (nodes s ! i) = NODE_STATE_ALIVE" "n_incarnation (nodes s ! i) = 1"
    using assms(2) i(1) by (simp_all add: all_alive_def)
  have up: "(nodes s ! i)\<lparr>n_last_seen := now, n_state := NODE_STATE_ALIVE\<rparr> = (nodes s ! i)\<lparr>n_last_seen := now\<rparr>"
    using e(1) by (cases "nodes s ! i") simp
  have map: "(nodes s)[i := (nodes s ! i)\<lparr>n_last_seen := now\<rparr>] = nodes (stamp now {n_id m} s)"
  proof (rule nth_equalityI)
    fix j assume "j < length ((nodes s)[i := (nodes s ! i)\<lparr>n_last_seen := now\<rparr>])"
    then have "n_id (nodes s ! j) = n_id m \<longleftrightarrow> j = i"
      using assms(1) i nth_eq_iff_index_eq [of "map n_id (nodes s)" j i] by (auto simp: table_ok_def)
    with \<open>j < _\<close> show "(nodes s)[i := (nodes s ! i)\<lparr>n_last_seen := now\<rparr>] ! j = nodes (stamp now {n_id m} s) ! j"
      by (auto simp: stamp_def nth_list_update)
  qed simp
  have "merge_node s m now = s\<lparr>nodes := (nodes s)[i := (nodes s ! i)\<lparr>n_last_seen := now, n_state := NODE_STATE_ALIVE\<rparr>]\<rparr>"
    using f e assms(4,5) by (simp add: merge_node_def)
  also have "\<dots> = s\<lparr>nodes := nodes (stamp now {n_id m} s)\<rparr>"
    by (simp only: up map)
  finally show ?thesis by (simp add: stamp_def)
qed

lemma merge_nodes_alive:
  "table_ok s \<Longrightarrow> all_alive s \<Longrightarrow> n_id ` set ns \<subseteq> known s \<Longrightarrow>
     \<forall>n \<in> set ns. n_state n = NODE_STATE_ALIVE \<and> n_incarnation n = 1 \<Longrightarrow>
     merge_nodes s (map cluster_node_to_gossip ns) (\<lambda>_. now) i = stamp now (n_id ` set ns) s"
proof (induction ns arbitrary: s i)
  case Nil
  then show ?case by (simp add: stamp_def)
next
  case (Cons n ns)
  have "merge_node s (gossip_node_to_cluster (cluster_node_to_gossip n)) now = stamp now {n_id n} s"
    using merge_alive [OF Cons.prems(1,2), of "n\<lparr>n_last_seen := 0\<rparr>"] Cons.prems(3,4) by simp
  with Cons show ?case
    by (simp add: stamp_stamp)
qed

lemma handle_PING:
  assumes b: "ctx_ok b" "all_alive (cl_state b)" and a: "n_id self \<in> known (cl_state b)" "n_incarnation self = 1"
    "length (n_id self) = NODE_ID_LEN" and junk: "msg_ok junk"
  shows "\<exists>q. gossip_recv b junk (fst (gossip_send_ping self n)) addr port (\<lambda>_. now)
      = Ret (b\<lparr>cl_state := stamp now {n_id self} (cl_state b)\<rparr>, Some (fst (send_msg q 0))) \<and>
    pong_msg (cl_self b) (nodes (stamp now {n_id self} (cl_state b))) = Ret q"
proof -
  let ?m = "set_node_count 0 (fill_header GOSSIP_PING self)" and ?s = "stamp now {n_id self} (cl_state b)"
  have "gossip_recv b junk (fst (gossip_send_ping self n)) addr port (\<lambda>_. now) = handle_gossip_msg b ?m addr port (\<lambda>_. now)"
    unfolding gossip_send_ping_def
    by (rule gossip_recv_sent [OF b(1) junk ping_msg_ok [OF a(3)]]) (simp_all add: set_node_count_def)
  moreover have "merge_node (cl_state b) (gossip_sender (hdr ?m) addr port) now = ?s"
    using merge_alive [of "cl_state b" "gossip_sender (hdr ?m) addr port" now] b a
    by (simp add: ctx_ok_def gossip_sender_def set_node_count_def fill_header_def)
  moreover obtain q where q: "pong_msg (cl_self b) (nodes ?s) = Ret q"
    using pong_msg_eq [of "cl_self b" "nodes ?s"] b(1) ctx_ok_stamp [OF b(1), of now "{n_id self}"]
    by (auto simp: ctx_ok_def table_ok_def)
  ultimately show ?thesis
    by (simp add: handle_gossip_msg_def set_node_count_def gossip_send_pong_def Let_def fill_header_def case_prod_unfold)
qed

lemma handle_PONG:
  assumes a: "ctx_ok a" "all_alive (cl_state a)" and b: "ctx_ok b" "all_alive (cl_state b)" "n_incarnation (cl_self b) = 1"
    and k: "known (cl_state a) = known (cl_state b)" "length (nodes (cl_state b)) \<le> GOSSIP_MSG_MAX_NODES"
    and q: "pong_msg (cl_self b) (nodes (cl_state b)) = Ret q" and junk: "msg_ok junk"
  shows "gossip_recv a junk (fst (send_msg q n)) addr port (\<lambda>_. now)
      = Ret (a\<lparr>cl_state := stamp now (known (cl_state a)) (cl_state a)\<rparr>, None)"
proof -
  have ids: "length (n_id (cl_self b)) = NODE_ID_LEN" "\<forall>n \<in> set (nodes (cl_state b)). length (n_id n) = NODE_ID_LEN"
    and self: "n_id (cl_self b) \<in> known (cl_state b)"
    using b(1) by (auto simp: ctx_ok_def table_ok_def known_def intro!: image_eqI [of _ _ "nodes (cl_state b) ! self_idx (cl_state b)"])
  have m: "msg_ok q" "g_magic (hdr q) = GOSSIP_MAGIC"
    "hdr q = (hdr (fill_header GOSSIP_PONG (cl_self b)))\<lparr>g_node_count := of_nat (length (nodes (cl_state b)))\<rparr>"
    "unat (g_node_count (hdr q)) = length (nodes (cl_state b))"
    "take (unat (g_node_count (hdr q))) (msg_nodes q) = map cluster_node_to_gossip (nodes (cl_state b))"
    using pong_msg_eq [OF ids] q k(2) by (auto simp: min_def)
  let ?g = "gossip_sender (hdr q) addr port"
  have g: "n_id ?g = n_id (cl_self b)" "n_state ?g = NODE_STATE_ALIVE" "n_incarnation ?g = 1"
    using b(3) by (simp_all add: gossip_sender_def m(3) fill_header_def)
  have s1: "merge_node (cl_state a) ?g now = stamp now {n_id (cl_self b)} (cl_state a)"
    using merge_alive [of "cl_state a" ?g now] a g k(1) self by (simp add: ctx_ok_def)
  have "merge_nodes (stamp now {n_id (cl_self b)} (cl_state a)) (map cluster_node_to_gossip (nodes (cl_state b))) (\<lambda>_. now) 1
      = stamp now (n_id ` set (nodes (cl_state b))) (stamp now {n_id (cl_self b)} (cl_state a))"
  proof (rule merge_nodes_alive)
    show "n_id ` set (nodes (cl_state b)) \<subseteq> known (stamp now {n_id (cl_self b)} (cl_state a))"
      unfolding known_stamp k(1) by (simp add: known_def)
    show "\<forall>n \<in> set (nodes (cl_state b)). n_state n = NODE_STATE_ALIVE \<and> n_incarnation n = 1"
      using b(2) by (simp add: all_alive_def)
  qed (use a in \<open>simp_all add: ctx_ok_def\<close>)
  also have "\<dots> = stamp now (known (cl_state b)) (stamp now {n_id (cl_self b)} (cl_state a))"
    by (simp add: known_def)
  also have "\<dots> = stamp now (known (cl_state a)) (cl_state a)"
    using k(1) self by (simp add: stamp_stamp insert_absorb)
  finally have s2: "merge_nodes (merge_node (cl_state a) ?g now) (take (unat (g_node_count (hdr q))) (msg_nodes q)) (\<lambda>_. now) 1
      = stamp now (known (cl_state a)) (cl_state a)"
    by (simp add: s1 m(5))
  have "unat (g_node_count (hdr q)) \<le> length (msg_nodes q)"
    using m(1,4) k(2) by (simp add: msg_ok_def)
  moreover have "g_type (hdr q) = GOSSIP_PONG"
    by (simp add: m(3) fill_header_def)
  ultimately have "handle_gossip_msg a q addr port (\<lambda>_. now) = Ret (a\<lparr>cl_state := stamp now (known (cl_state a)) (cl_state a)\<rparr>, None)"
    by (simp add: handle_gossip_msg_def Let_def s2 [unfolded One_nat_def] GOSSIP_PONG_def GOSSIP_PING_def GOSSIP_JOIN_def)
  moreover have "gossip_recv a junk (fst (send_msg q n)) addr port (\<lambda>_. now) = handle_gossip_msg a q addr port (\<lambda>_. now)"
    using m(4) k(2) by (intro gossip_recv_sent [OF a(1) junk m(1,2)]) simp
  ultimately show ?thesis by simp
qed

lemma age_nodes_fresh:
  assumes "\<forall>j < length ns. i + j \<noteq> self \<longrightarrow> n_state (ns ! j) = NODE_STATE_ALIVE \<and> now - n_last_seen (ns ! j) \<le> ucast (timeout div 2)"
  shows "age_nodes self i timeout now ns = ns"
  using assms
proof (induction ns arbitrary: i)
  case (Cons n ns)
  have "age_node timeout now n = n" if "i \<noteq> self"
  proof -
    have "n_state n = NODE_STATE_ALIVE" "\<not> now - n_last_seen n > ucast (timeout div 2)"
      using Cons.prems [rule_format, of 0] that by (simp_all add: not_less)
    then show ?thesis by (simp add: age_node_def Let_def NODE_STATE_ALIVE_def NODE_STATE_SUSPECT_def)
  qed
  moreover have "age_nodes self (Suc i) timeout now ns = ns"
    using Cons.prems [rule_format, of "Suc _"] by (intro Cons.IH) simp
  ultimately show ?case by simp
qed simp

lemma heartbeat_tick_fresh:
  assumes "all_alive (cl_state a)" and "\<forall>i < length (nodes (cl_state a)). i \<noteq> self_idx (cl_state a) \<longrightarrow>
      now - n_last_seen (nodes (cl_state a) ! i) \<le> ucast (timeout_ms (cl_cfg a) div 2)"
    and "ucast (gossip_ms (cl_cfg a)) \<le> now - lg"
  shows "heartbeat_tick a now lg = (a, now, map (\<lambda>n. (n_addr n, n_cluster_port n, fst (gossip_send_ping (cl_self a) 0)))
    (ping_targets (self_idx (cl_state a)) 0 0 (nodes (cl_state a))))"
proof -
  have "age_nodes (self_idx (cl_state a)) 0 (timeout_ms (cl_cfg a)) now (nodes (cl_state a)) = nodes (cl_state a)"
    using assms(1,2) by (intro age_nodes_fresh) (simp add: all_alive_def)
  with assms(3) show ?thesis by (simp add: heartbeat_tick_def Let_def)
qed

lemma find_ping:
  assumes "\<exists>n \<in> set ns. n_addr n = addr \<and> n_cluster_port n = port"
  shows "\<exists>x y. find (\<lambda>(a, p, _). a = addr \<and> p = port) (map (\<lambda>n. (n_addr n, n_cluster_port n, d)) ns) = Some (x, y, d)"
  using assms by (induction ns) auto

lemma exchange_fresh:
  assumes a: "in_touch a b" and b: "ctx_ok b" "all_alive (cl_state b)" "n_incarnation (cl_self b) = 1"
      "length (nodes (cl_state b)) \<le> GOSSIP_MSG_MAX_NODES"
    and t: "\<forall>i < length (nodes (cl_state a)). i \<noteq> self_idx (cl_state a) \<longrightarrow>
      now - n_last_seen (nodes (cl_state a) ! i) \<le> ucast (timeout_ms (cl_cfg a) div 2)"
    and lg: "ucast (gossip_ms (cl_cfg a)) \<le> now - lg" and junk: "msg_ok junk"
  shows "exchange junk now a lg b = Ret (a\<lparr>cl_state := stamp now (known (cl_state a)) (cl_state a)\<rparr>, now,
    b\<lparr>cl_state := stamp now {n_id (cl_self a)} (cl_state b)\<rparr>)"
proof -
  have a': "ctx_ok a" "all_alive (cl_state a)" "n_incarnation (cl_self a) = 1" "known (cl_state a) = known (cl_state b)"
    "\<exists>n \<in> set (ping_targets (self_idx (cl_state a)) 0 0 (nodes (cl_state a))).
        n_addr n = n_addr (cl_self b) \<and> n_cluster_port n = n_cluster_port (cl_self b)"
    using a by (simp_all add: in_touch_def)
  have id: "length (n_id (cl_self a)) = NODE_ID_LEN" "n_id (cl_self a) \<in> known (cl_state a)"
    using a'(1) by (auto simp: ctx_ok_def table_ok_def known_def intro!: image_eqI [of _ _ "nodes (cl_state a) ! self_idx (cl_state a)"])
  let ?b = "b\<lparr>cl_state := stamp now {n_id (cl_self a)} (cl_state b)\<rparr>"
  obtain q where q: "gossip_recv b junk (fst (gossip_send_ping (cl_self a) 0)) (n_addr (cl_self a)) (n_cluster_port (cl_self a)) (\<lambda>_. now)
      = Ret (?b, Some (fst (send_msg q 0)))" "pong_msg (cl_self b) (nodes (cl_state ?b)) = Ret q"
    using handle_PING [OF b(1,2) _ a'(3) id(1) junk, of 0 "n_addr (cl_self a)" "n_cluster_port (cl_self a)" now] id(2) a'(4) by auto
  have r: "gossip_recv a junk (fst (send_msg q 0)) (n_addr (cl_self b)) (n_cluster_port (cl_self b)) (\<lambda>_. now)
      = Ret (a\<lparr>cl_state := stamp now (known (cl_state a)) (cl_state a)\<rparr>, None)"
    using b a'(4) q(2) by (intro handle_PONG [OF a'(1,2) ctx_ok_stamp [OF b(1)] _ _ _ _ _ junk]) simp_all
  obtain x y where f: "find (\<lambda>(addr, port, d). addr = n_addr (cl_self b) \<and> port = n_cluster_port (cl_self b))
      (map (\<lambda>n. (n_addr n, n_cluster_port n, fst (gossip_send_ping (cl_self a) 0)))
        (ping_targets (self_idx (cl_state a)) 0 0 (nodes (cl_state a)))) = Some (x, y, fst (gossip_send_ping (cl_self a) 0))"
    using find_ping [OF a'(5), of "fst (gossip_send_ping (cl_self a) 0)"] by blast
  show ?thesis
    unfolding exchange_def heartbeat_tick_fresh [OF a'(2) t lg] Let_def prod.case f option.case
    using q(1) r by simp
qed

lemma ping_targets_stamp:
  "ping_targets self i sent (map f ns) = map f (ping_targets self i sent ns)" if "\<And>n. n_state (f n) = n_state n"
  by (induction self i sent ns rule: ping_targets.induct) (simp_all add: that)

lemma in_touch_stamp:
  assumes "in_touch a b"
  shows "in_touch (a\<lparr>cl_state := stamp t X (cl_state a)\<rparr>) (b\<lparr>cl_state := stamp t' Y (cl_state b)\<rparr>)"
proof -
  let ?f = "\<lambda>n. if n_id n \<in> X then n\<lparr>n_last_seen := t\<rparr> else n"
  have "nodes (stamp t X (cl_state a)) = map ?f (nodes (cl_state a))"
    by (simp add: stamp_def)
  then have p: "ping_targets (self_idx (cl_state a)) 0 0 (nodes (stamp t X (cl_state a)))
      = map ?f (ping_targets (self_idx (cl_state a)) 0 0 (nodes (cl_state a)))"
    using ping_targets_stamp [of ?f] by simp
  obtain n where n: "n \<in> set (ping_targets (self_idx (cl_state a)) 0 0 (nodes (cl_state a)))"
    "n_addr n = n_addr (cl_self b)" "n_cluster_port n = n_cluster_port (cl_self b)"
    using assms by (auto simp: in_touch_def)
  have "\<exists>n \<in> set (ping_targets (self_idx (cl_state a)) 0 0 (nodes (stamp t X (cl_state a)))).
      n_addr n = n_addr (cl_self b) \<and> n_cluster_port n = n_cluster_port (cl_self b)"
    unfolding p using n by (intro bexI [of _ "?f n"]) simp_all
  with assms ctx_ok_stamp show ?thesis by (simp add: in_touch_def)
qed

lemma seen_at_stamp_known: "seen_at t (stamp t (known s) s)"
  by (auto simp: seen_at_def stamp_def known_def)

lemma gossip_rounds_fresh:
  assumes "in_touch a b" "in_touch b a" and "seen_at t (cl_state a)" "seen_at t (cl_state b)" and "la = t" "lb = t"
    and "timeout_ms (cl_cfg a) = timeout" "timeout_ms (cl_cfg b) = timeout" "gossip_ms (cl_cfg a) = g" "gossip_ms (cl_cfg b) = g"
    and "paced (ucast g) (ucast (timeout div 2)) t ts" and "msg_ok junk"
  shows "\<exists>a' b'. gossip_rounds junk ts a la b lb = Ret (a', b') \<and> in_touch a' b' \<and> in_touch b' a' \<and>
    known (cl_state a') = known (cl_state a)"
  using assms
proof (induction ts arbitrary: a b t la lb)
  case (Cons now ts)
  note a = Cons.prems(1) and b = Cons.prems(2)
  have p: "ucast g \<le> now - t" "now - t \<le> ucast (timeout div 2)" "paced (ucast g) (ucast (timeout div 2)) now ts"
    using Cons.prems(11) by simp_all
  let ?a1 = "a\<lparr>cl_state := stamp now (known (cl_state a)) (cl_state a)\<rparr>"
  let ?b1 = "b\<lparr>cl_state := stamp now {n_id (cl_self a)} (cl_state b)\<rparr>"
  have b': "ctx_ok b" "all_alive (cl_state b)" "n_incarnation (cl_self b) = 1" "length (nodes (cl_state b)) \<le> GOSSIP_MSG_MAX_NODES"
    using b by (simp_all add: in_touch_def)
  have e1: "exchange junk now a la b = Ret (?a1, now, ?b1)"
    using Cons.prems p by (intro exchange_fresh [OF a b']) (simp_all add: seen_at_def)
  have i1: "in_touch ?a1 ?b1" "in_touch ?b1 ?a1"
    using in_touch_stamp [OF a] in_touch_stamp [OF b] by blast+
  then have a': "ctx_ok ?a1" "all_alive (cl_state ?a1)" "n_incarnation (cl_self ?a1) = 1" "length (nodes (cl_state ?a1)) \<le> GOSSIP_MSG_MAX_NODES"
    unfolding in_touch_def by blast+
  let ?b2 = "?b1\<lparr>cl_state := stamp now (known (cl_state ?b1)) (cl_state ?b1)\<rparr>"
  let ?a2 = "?a1\<lparr>cl_state := stamp now {n_id (cl_self ?b1)} (cl_state ?a1)\<rparr>"
  have t1: "\<forall>i < length (nodes (cl_state ?b1)). i \<noteq> self_idx (cl_state ?b1) \<longrightarrow>
      now - n_last_seen (nodes (cl_state ?b1) ! i) \<le> ucast (timeout_ms (cl_cfg ?b1) div 2)"
    using Cons.prems(4,8) p(2) by (simp add: seen_at_def stamp_def)
  have e2: "exchange junk now ?b1 lb ?a1 = Ret (?b2, now, ?a2)"
    using Cons.prems(6,10) p(1) by (intro exchange_fresh [OF i1(2) a' t1 _ Cons.prems(12)]) simp
  have i2: "in_touch ?a2 ?b2" "in_touch ?b2 ?a2"
    using in_touch_stamp [OF i1(1)] in_touch_stamp [OF i1(2)] by blast+
  have s2: "seen_at now (cl_state ?b2)" "seen_at now (cl_state ?a2)"
    using seen_at_stamp_known [of now "cl_state ?b1"] seen_at_stamp_known [of now "cl_state a"] 
    by (simp_all add: seen_at_def stamp_def)
  have "\<exists>a' b'. gossip_rounds junk ts ?a2 now ?b2 now = Ret (a', b') \<and> in_touch a' b' \<and> in_touch b' a' \<and>
      known (cl_state a') = known (cl_state ?a2)"
    using Cons.prems by (intro Cons.IH [OF i2 s2(2,1) refl refl _ _ _ _ p(3)]) simp_all
  then show ?case
    using e1 e2 by simp
qed simp

subsection \<open>The loops of a node\<close>

lemma cluster_stop_ok: "ctx_ok (cluster_stop ctx) = ctx_ok ctx"
  by (simp add: cluster_stop_def ctx_ok_def)

lemma length_ping:
  assumes "length (n_id self) = NODE_ID_LEN"
  shows "length (fst (gossip_send_ping self n)) = HEADER_SIZE"
  unfolding gossip_send_ping_def using length_send_msg [OF ping_msg_ok [OF assms], of n] by (simp add: set_node_count_def)

lemma length_reply:
  assumes ok: "ctx_ok ctx" and junk: "msg_ok junk" and eq: "gossip_recv ctx junk d addr port clock = Ret (ctx', Some r)"
  shows "HEADER_SIZE \<le> length r \<and> length r \<le> HEADER_SIZE + GOSSIP_MSG_MAX_NODES * NODE_SIZE"
proof -
  let ?d = "take (HEADER_SIZE + GOSSIP_MSG_MAX_NODES * NODE_SIZE) d"
  obtain s reply where s: "gossip_recv ctx junk d addr port clock = Ret (ctx\<lparr>cl_state := s\<rparr>, reply)" "table_ok s"
    using gossip_recv_ok [OF ok junk] by blast
  have len: "length ?d \<le> HEADER_SIZE + GOSSIP_MSG_MAX_NODES * NODE_SIZE"
    by simp
  have "gossip_recv ctx junk ?d addr port clock = Ret (ctx', Some r)"
    using eq by (simp add: gossip_recv_def)
  with gossip_recv_cases [OF junk len] obtain m where "handle_gossip_msg ctx m addr port clock = Ret (ctx', Some r)"
    by blast
  then obtain q where q: "pong_msg (cl_self ctx) (nodes (cl_state ctx')) = Ret q" "r = fst (send_msg q 0)"
    using handle_gossip_msg_reply by blast
  have ids: "length (n_id (cl_self ctx)) = NODE_ID_LEN" "\<forall>n \<in> set (nodes (cl_state ctx')). length (n_id n) = NODE_ID_LEN"
    using ok s eq by (auto simp: ctx_ok_def table_ok_def)
  from pong_msg_eq [OF ids] q(1) have "msg_ok q" "unat (g_node_count (hdr q)) \<le> GOSSIP_MSG_MAX_NODES"
    by auto
  from length_send_msg [OF this, of 0] this(2) q(2) show ?thesis by simp
qed

lemma gossip_iteration_ok:
  assumes ok: "ctx_ok ctx" and junk: "msg_ok junk"
  shows "\<exists>ctx' out. gossip_iteration ctx junk ans clock = Ret (ctx', out) \<and> ctx_ok ctx' \<and> fits out"
proof (cases "cl_running ctx \<and> ans \<noteq> None")
  case True
  then obtain d addr port where ans: "ans = Some (d, addr, port)" by auto
  obtain s reply where s: "gossip_recv ctx junk d addr port clock = Ret (ctx\<lparr>cl_state := s\<rparr>, reply)" "table_ok s" "grows (cl_state ctx) s"
    using gossip_recv_ok [OF ok junk] by blast
  have "ctx_ok (ctx\<lparr>cl_state := s\<rparr>)"
    using ok s(2,3) grows_self [of "cl_state ctx" s] by (simp add: ctx_ok_def)
  moreover have "fits (case reply of None \<Rightarrow> [] | Some r \<Rightarrow> [(addr, port, r)])"
    using length_reply [OF ok junk] s(1) by (auto simp: fits_def split: option.splits)
  ultimately show ?thesis
    using True ans s(1) by (simp add: gossip_iteration_def)
qed (use ok in \<open>cases ans; auto simp: gossip_iteration_def fits_def\<close>)

lemma heartbeat_iteration_ok:
  assumes ok: "ctx_ok ctx" and eq: "heartbeat_iteration ctx now lg = (ctx', lg', out)"
  shows "ctx_ok ctx' \<and> fits out"
proof (cases "cl_running ctx")
  case True
  then have t: "heartbeat_tick ctx now lg = (ctx', lg', out)"
    using eq by (simp add: heartbeat_iteration_def)
  have "ctx_ok ctx'"
    using cluster_step_ok [OF cluster_step.tick [OF t, of "undefined :: unit os"]] ok by simp
  moreover have "\<forall>(addr, port, d) \<in> set out. d = fst (gossip_send_ping (cl_self ctx) 0)"
    using t by (auto simp: heartbeat_tick_def Let_def split: if_splits)
  moreover have "length (n_id (cl_self ctx)) = NODE_ID_LEN"
    using ok by (simp add: ctx_ok_def)
  ultimately show ?thesis
    using length_ping by (auto simp: fits_def)
qed (use ok eq in \<open>simp add: heartbeat_iteration_def fits_def\<close>)

lemma cluster_loops_ok:
  "ctx_ok ctx \<Longrightarrow> \<forall>e \<in> set es. event_ok e \<Longrightarrow>
     \<exists>ctx' lg' out. cluster_loops ctx lg es = Ret (ctx', lg', out) \<and> ctx_ok ctx' \<and> fits out"
proof (induction es arbitrary: ctx lg)
  case (Cons e es)
  show ?case
  proof (cases e)
    case (Recv junk ans clock)
    obtain c out where c: "gossip_iteration ctx junk ans clock = Ret (c, out)" "ctx_ok c" "fits out"
      using gossip_iteration_ok [OF Cons.prems(1), of junk ans clock] Cons.prems(2) Recv by auto
    with Cons.IH [OF c(2), of lg] Cons.prems(2) Recv show ?thesis by (auto simp: fits_def)
  next
    case (Beat now)
    obtain c lg' out where c: "heartbeat_iteration ctx now lg = (c, lg', out)"
      by (cases "heartbeat_iteration ctx now lg")
    note ok = heartbeat_iteration_ok [OF Cons.prems(1) c]
    with Cons.IH [of c lg'] Cons.prems(2) c Beat show ?thesis by (auto simp: fits_def)
  next
    case Stop
    with Cons.IH [of "cluster_stop ctx" lg] Cons.prems show ?thesis by (simp add: cluster_stop_ok)
  qed
qed (simp add: fits_def)

lemma stopped_loops:
  assumes "\<not> cl_running ctx"
  shows "cluster_loops ctx lg es = Ret (ctx, lg, [])"
  using assms
  by (induction ctx lg es rule: cluster_loops.induct)
    (simp_all add: gossip_iteration_def heartbeat_iteration_def cluster_stop_def)

lemma cluster_loops_append:
  "cluster_loops ctx lg (es @ es') =
     bind_oc (cluster_loops ctx lg es) (\<lambda>(ctx, lg, out).
     bind_oc (cluster_loops ctx lg es') (\<lambda>(ctx, lg, out'). Ret (ctx, lg, out @ out')))"
proof (induction es arbitrary: ctx lg)
  case Nil
  then show ?case by (cases "cluster_loops ctx lg es'") auto
next
  case (Cons e es)
  show ?case
  proof (cases e)
    case (Recv junk ans clock)
    then show ?thesis by (simp add: Cons.IH bind_oc_assoc case_prod_unfold)
  next
    case (Beat now)
    then show ?thesis by (simp add: Cons.IH bind_oc_assoc case_prod_unfold Let_def)
  next
    case Stop
    then show ?thesis by (simp add: Cons.IH)
  qed
qed

subsection \<open>The small network\<close>

lemma sample_created_ok: "created (sample_created b)" "ctx_ok (sample_created b)"
proof -
  have c: "cluster_create True True (sample_config b) (ucast b) 5555 (replicate NODE_ID_LEN b) 1000 = Some (sample_created b)"
    by (simp add: cluster_create_def sample_created_def sample_node_def sample_config_def Let_def)
  have l: "length (replicate NODE_ID_LEN b) = NODE_ID_LEN" by simp
  show "created (sample_created b)"
    unfolding created_def using c l by blast
  show "ctx_ok (sample_created b)"
    by (rule cluster_create_ok [OF c l])
qed

lemma sample_network_initial: "initial sample_network"
  by (simp add: initial_def sample_network_def sample_created_ok)

lemma sample_announced: "announced (sample_created b) = (sample_node b)\<lparr>n_last_seen := 0\<rparr>"
  by (simp add: announced_def sample_created_def)

lemma sample_network_disjoint: "disjoint_ranges (map announced (members sample_network))"
proof -
  have r: "map announced (members sample_network) = [(sample_node 1)\<lparr>n_last_seen := 0\<rparr>, (sample_node 2)\<lparr>n_last_seen := 0\<rparr>]"
    by (simp add: sample_network_def sample_announced)
  show ?thesis
    unfolding disjoint_ranges_def r
  proof (intro allI impI)
    fix i j :: nat and p :: u32
    let ?as = "[(sample_node 1)\<lparr>n_last_seen := 0\<rparr>, (sample_node 2)\<lparr>n_last_seen := 0\<rparr>]"
    assume "i < length ?as" "j < length ?as" "i \<noteq> j"
    then consider "i = 0" "j = 1" | "i = 1" "j = 0" by fastforce
    then show "\<not> (n_range_start (?as ! i) \<le> p \<and> p < n_range_end (?as ! i) \<and> n_range_start (?as ! j) \<le> p \<and> p < n_range_end (?as ! j))"
      by cases (auto simp: sample_node_def)
  qed
qed

text \<open>Node 2 joins: its JOIN reaches node 1, which then knows it.\<close>

lemma sample_join:
  "\<exists>N n. (net_step sample_origin)\<^sup>*\<^sup>* sample_network N \<and> length (members N) = 2 \<and>
     cluster_get_owner (members N ! 0) 2 = Some n \<and> n_id n = replicate NODE_ID_LEN 2"
proof -
  let ?a = "sample_created 1" and ?b = "sample_created 2"
  have id: "length (n_id (cl_self ?b)) = NODE_ID_LEN"
    by (simp add: sample_created_def sample_node_def)
  obtain m where m: "gossip_send_join (cl_self ?b) 0 = Ret (send_msg m 0)" "msg_ok m" "g_magic (hdr m) = GOSSIP_MAGIC"
    "hdr m = (hdr (fill_header GOSSIP_JOIN (cl_self ?b)))\<lparr>g_node_count := 1\<rparr>"
    "take 1 (msg_nodes m) = [cluster_node_to_gossip (cl_self ?b)]"
    using join_msg_eq [OF id, of 0] by blast
  let ?d = "fst (send_msg m 0)" and ?N1 = "post 1 [(1, 5556, fst (send_msg m 0))] sample_network"
  have c: "unat (g_node_count (hdr m)) = 1" by (simp add: m(4))
  have "cluster_join ?b (Some (1, 5556)) (\<lambda>_. 2) = Ret (0, Some ((1, 5556), ?d))"
    using m(1) by (simp add: cluster_join_def sample_created_def sample_config_def case_prod_unfold numeral_eq_Suc)
  then have s1: "net_step sample_origin sample_network ?N1"
    by (intro net_step.join [of 1]) (simp_all add: sample_network_def)
  have recv: "gossip_recv ?a (fill_header 0 (sample_node 0)) ?d 2 5556 (\<lambda>_. 1000) = handle_gossip_msg ?a m 2 5556 (\<lambda>_. 1000)"
    using c by (intro gossip_recv_sent [OF sample_created_ok(2) sample_junk_ok m(2,3)]) (simp add: gossip_consts)
  let ?n = "(sample_node 2)\<lparr>n_last_seen := 1000\<rparr>"
  have idn: "n_id (sample_node 1) \<noteq> n_id (sample_node 2)"
    by (simp add: sample_node_def NODE_ID_LEN_def)
  have g: "gossip_sender (hdr m) 2 5556 = (sample_node 2)\<lparr>n_last_seen := 0\<rparr>"
    by (simp add: m(4) gossip_sender_def fill_header_def sample_created_def sample_node_def)
  have mn: "merge_nodes (merge_node (cl_state ?a) (gossip_sender (hdr m) 2 5556) 1000) (take 1 (msg_nodes m)) (\<lambda>_. 1000) 1
      = \<lparr>nodes = [sample_node 1, ?n], self_idx = 0\<rparr>"
    using idn by (simp add: g m(5) [unfolded One_nat_def] merge_node_def find_node_by_id_def sample_created_def CLUSTER_MAX_NODES_def)
      (simp add: sample_node_def)
  obtain s reply where s: "handle_gossip_msg ?a m 2 5556 (\<lambda>_. 1000) = Ret (?a\<lparr>cl_state := s\<rparr>, reply)"
    using handle_gossip_msg_ok [OF sample_created_ok(2) [of 1] m(2), where a = 2 and p = 5556 and clock = "\<lambda>_. 1000"] c by (auto simp: gossip_consts)
  obtain s' where s': "?a\<lparr>cl_state := s\<rparr> = ?a\<lparr>cl_state := s'\<rparr>" "s' = merge_nodes (merge_node (cl_state ?a)
      (gossip_sender (hdr m) 2 5556) 1000) (take (unat (g_node_count (hdr m))) (msg_nodes m)) (\<lambda>_. 1000) 1"
    using handle_gossip_msg_eq [OF s] by blast
  have st: "s = \<lparr>nodes = [sample_node 1, ?n], self_idx = 0\<rparr>"
    using arg_cong [OF s'(1), of cl_state] s'(2) by (simp only: c mn) simp
  let ?N2 = "post 0 (case reply of None \<Rightarrow> [] | Some r \<Rightarrow> [(2, 5556, r)]) (set_member 0 (?a\<lparr>cl_state := s\<rparr>) ?N1)"
  have s2: "net_step sample_origin ?N1 ?N2"
    using recv s by (intro net_step.deliver [of 1 "(1, 5556)" ?d _ 0 "fill_header 0 (sample_node 0)"])
      (simp_all add: post_def sample_network_def sample_junk_ok sample_origin_def)
  have "cluster_get_owner (members ?N2 ! 0) 2 = Some ?n"
    by (simp add: post_def set_member_def sample_network_def st cluster_get_owner_def covers_def sample_node_def
        NODE_STATE_ALIVE_def NODE_STATE_DEAD_def)
  moreover have "length (members ?N2) = 2" "n_id ?n = replicate NODE_ID_LEN 2"
    by (simp_all add: post_def set_member_def sample_network_def sample_node_def)
  moreover have "(net_step sample_origin)\<^sup>*\<^sup>* sample_network ?N2"
    using s1 s2 by (meson converse_rtranclp_into_rtranclp rtranclp.rtrancl_refl)
  ultimately show ?thesis by blast
qed

subsection \<open>Properties\<close>







text \<open>
  The pause between heartbeats is a quarter of the configured interval exactly for
  intervals of at most 4294967 ms; for longer ones, which the configuration accepts, the
  multiplication in 32 bits wraps around and the pause is too short.
\<close>

lemma heartbeat_sleep_bound:
  "unat (heartbeat_sleep cfg) \<le> unat (heartbeat_ms cfg) * 250 \<and>
     (unat (heartbeat_sleep cfg) = unat (heartbeat_ms cfg) * 250 \<longleftrightarrow> unat (heartbeat_ms cfg) \<le> 4294967)"
proof -
  let ?h = "unat (heartbeat_ms cfg)"
  have s: "unat (heartbeat_sleep cfg) = (?h * 1000) mod 4294967296 div 4"
    by (simp add: heartbeat_sleep_def unat_div unat_word_ariths)
  show ?thesis
  proof (cases "?h \<le> 4294967")
    case True
    then have "?h * 1000 < 4294967296" by simp
    with True show ?thesis by (simp add: s)
  next
    case False
    then have "1073742000 \<le> ?h * 250" by simp
    moreover have "(?h * 1000) mod 4294967296 div 4 < 1073741824"
      by (simp add: less_mult_imp_div_less)
    ultimately show ?thesis using False by (simp add: s)
  qed
qed

end
