(* ===== verification/DSM_Options.thy ===== *)
theory DSM_Options
  imports DSM_Client DSM_Server "HOL-Library.Sublist"
begin

section \<open>Command lines, usage and log output (dsm\_client.c, dsm\_server.c, dsm\_config.c, dsm\_log.h)\<close>

text \<open>
  The option tables of both programs and the \<open>getopt_long\<close> of the GNU C library as far as they
  use it: short options with joined or separate arguments and in clusters, long options with
  unambiguous abbreviations and \<open>=\<close>, operands anywhere (or, with \<open>POSIXLY_CORRECT\<close>, only at
  the end), and \<open>--\<close>. The locale \<open>option_table\<close> is what a pair of tables has to satisfy for
  every spelling of an option to be understood; both programs' tables do. Then the usage
  messages, the printed configurations and the log lines as strings.
\<close>

subsection \<open>Definitions\<close>

paragraph \<open>getopt\_long\<close>

record long_option =
  lo_name :: string
  lo_has_arg :: bool
  lo_val :: char

text \<open>Whether an option character is known, and whether a colon after it asks for an argument.\<close>

fun short_kind :: "string \<Rightarrow> char \<Rightarrow> bool option" where
  "short_kind [] c = None"
| "short_kind (x # xs) c =
     (if x = CHR '':'' then short_kind xs c
      else if x = c then Some (xs \<noteq> [] \<and> hd xs = CHR '':'') else short_kind xs c)"

text \<open>The options in the rest of a word; an argument may be the next word. \<open>?\<close> reports an error.\<close>

fun short_options :: "string \<Rightarrow> string \<Rightarrow> string list \<Rightarrow> option_list \<times> string list" where
  "short_options opts [] args = ([], args)"
| "short_options opts (c # cs) args =
     (case short_kind opts c of
        None \<Rightarrow> (let (os, args) = short_options opts cs args in ((CHR ''?'', []) # os, args))
      | Some False \<Rightarrow> (let (os, args) = short_options opts cs args in ((c, []) # os, args))
      | Some True \<Rightarrow>
          if cs \<noteq> [] then ([(c, cs)], args)
          else (case args of [] \<Rightarrow> ([(CHR ''?'', [])], []) | a # args \<Rightarrow> ([(c, a)], args)))"

text \<open>An exact match wins; otherwise the name may be the beginning of exactly one option.\<close>

definition long_match :: "long_option list \<Rightarrow> string \<Rightarrow> long_option option" where
  "long_match longs name =
     (case find (\<lambda>l. lo_name l = name) longs of Some l \<Rightarrow> Some l
      | None \<Rightarrow> (case filter (\<lambda>l. prefix name (lo_name l)) longs of [l] \<Rightarrow> Some l | _ \<Rightarrow> None))"

definition long_opt :: "long_option list \<Rightarrow> string \<Rightarrow> string list \<Rightarrow> (char \<times> string) \<times> string list" where
  "long_opt longs word args =
     (let name = takeWhile (\<lambda>c. c \<noteq> CHR ''='') word; val = dropWhile (\<lambda>c. c \<noteq> CHR ''='') word
      in case long_match longs name of None \<Rightarrow> ((CHR ''?'', []), args)
         | Some l \<Rightarrow>
             if lo_has_arg l
             then (if val \<noteq> [] then ((lo_val l, tl val), args)
                   else case args of [] \<Rightarrow> ((CHR ''?'', []), []) | a # args \<Rightarrow> ((lo_val l, a), args))
             else if val \<noteq> [] then ((CHR ''?'', []), args) else ((lo_val l, []), args))"

lemma short_options_length: "length (snd (short_options opts cs args)) \<le> length args"
  by (induction opts cs args rule: short_options.induct) (auto simp: case_prod_unfold Let_def split: option.splits bool.splits list.splits)

lemma long_opt_length: "length (snd (long_opt longs word args)) \<le> length args"
  by (auto simp: long_opt_def Let_def split: option.splits list.splits)

text \<open>The options of a command line without its first word, the name of the program.\<close>

function getopt_long :: "bool \<Rightarrow> string \<Rightarrow> long_option list \<Rightarrow> string list \<Rightarrow> option_list" where
  "getopt_long posix opts longs [] = []"
| "getopt_long posix opts longs (word # args) =
     (if word = ''--'' then []
      else if take 2 word = ''--''
      then (let (o1, args) = long_opt longs (drop 2 word) args in o1 # getopt_long posix opts longs args)
      else if take 1 word = ''-'' \<and> length word > 1
      then (let (os, args) = short_options opts (drop 1 word) args in os @ getopt_long posix opts longs args)
      else if posix then [] else getopt_long posix opts longs args)"
  by pat_completeness auto

termination
  by (relation "measure (\<lambda>(posix, opts, longs, args). length args)")
    (use short_options_length long_opt_length in \<open>auto simp: less_Suc_eq_le, (metis snd_conv)+\<close>)

paragraph \<open>The tables of the two programs\<close>

definition client_long_options :: "long_option list" where
  "client_long_options =
     [\<lparr>lo_name = ''host'', lo_has_arg = True, lo_val = CHR ''H''\<rparr>,
      \<lparr>lo_name = ''port'', lo_has_arg = True, lo_val = CHR ''p''\<rparr>,
      \<lparr>lo_name = ''num-pages'', lo_has_arg = True, lo_val = CHR ''n''\<rparr>,
      \<lparr>lo_name = ''num-virtual'', lo_has_arg = True, lo_val = CHR ''N''\<rparr>,
      \<lparr>lo_name = ''iterations'', lo_has_arg = True, lo_val = CHR ''i''\<rparr>,
      \<lparr>lo_name = ''locality'', lo_has_arg = True, lo_val = CHR ''l''\<rparr>,
      \<lparr>lo_name = ''write-pct'', lo_has_arg = True, lo_val = CHR ''w''\<rparr>,
      \<lparr>lo_name = ''verbose'', lo_has_arg = False, lo_val = CHR ''v''\<rparr>,
      \<lparr>lo_name = ''verify'', lo_has_arg = False, lo_val = CHR ''t''\<rparr>,
      \<lparr>lo_name = ''help'', lo_has_arg = False, lo_val = CHR ''h''\<rparr>]"

definition client_short_options :: string where
  "client_short_options = ''H:p:n:N:i:l:w:vth''"

definition server_long_options :: "long_option list" where
  "server_long_options =
     [\<lparr>lo_name = ''port'', lo_has_arg = True, lo_val = CHR ''p''\<rparr>,
      \<lparr>lo_name = ''bind'', lo_has_arg = True, lo_val = CHR ''b''\<rparr>,
      \<lparr>lo_name = ''pages'', lo_has_arg = True, lo_val = CHR ''n''\<rparr>,
      \<lparr>lo_name = ''verbose'', lo_has_arg = False, lo_val = CHR ''v''\<rparr>,
      \<lparr>lo_name = ''help'', lo_has_arg = False, lo_val = CHR ''h''\<rparr>,
      \<lparr>lo_name = ''seed'', lo_has_arg = True, lo_val = CHR ''s''\<rparr>,
      \<lparr>lo_name = ''seed-port'', lo_has_arg = True, lo_val = CHR ''S''\<rparr>,
      \<lparr>lo_name = ''cluster-port'', lo_has_arg = True, lo_val = CHR ''c''\<rparr>,
      \<lparr>lo_name = ''range'', lo_has_arg = True, lo_val = CHR ''r''\<rparr>,
      \<lparr>lo_name = ''node-id'', lo_has_arg = True, lo_val = CHR ''i''\<rparr>]"

definition server_short_options :: string where
  "server_short_options = ''p:b:n:vhs:S:c:r:i:''"

text \<open>The programs from their command lines.\<close>

definition client_getopt :: "(string \<Rightarrow> string option) \<Rightarrow> string list \<Rightarrow> option_list" where
  "client_getopt env args = getopt_long (env ''POSIXLY_CORRECT'' \<noteq> None) client_short_options client_long_options args"

definition server_getopt :: "(string \<Rightarrow> string option) \<Rightarrow> string list \<Rightarrow> option_list" where
  "server_getopt env args = getopt_long (env ''POSIXLY_CORRECT'' \<noteq> None) server_short_options server_long_options args"

paragraph \<open>Ways to write an option\<close>

text \<open>An option with its argument, and the words it may be written as.\<close>

datatype spelling = Short | Joined | Long | Equals

fun spell :: "long_option \<times> string \<times> spelling \<Rightarrow> string list" where
  "spell (l, arg, Short) = (if lo_has_arg l then [[CHR ''-'', lo_val l], arg] else [[CHR ''-'', lo_val l]])"
| "spell (l, arg, Joined) = [CHR ''-'' # lo_val l # arg]"
| "spell (l, arg, Long) = (if lo_has_arg l then [''--'' @ lo_name l, arg] else [''--'' @ lo_name l])"
| "spell (l, arg, Equals) = [''--'' @ lo_name l @ ''='' @ arg]"

fun spellable :: "long_option list \<Rightarrow> long_option \<times> string \<times> spelling \<Rightarrow> bool" where
  "spellable longs (l, arg, how) \<longleftrightarrow> l \<in> set longs \<and> (\<not> lo_has_arg l \<longrightarrow> arg = [] \<and> how \<noteq> Equals) \<and>
     (lo_has_arg l \<and> how = Joined \<longrightarrow> arg \<noteq> [])"

definition option_of :: "long_option \<times> string \<times> spelling \<Rightarrow> char \<times> string" where
  "option_of x = (lo_val (fst x), fst (snd x))"

text \<open>
  Command lines that ask for a given client configuration: every option once, each written
  in the way \<open>how\<close> says.
\<close>

definition client_words :: "(char \<Rightarrow> spelling) \<Rightarrow> dsm_client_config \<Rightarrow> (long_option \<times> string \<times> spelling) list" where
  "client_words how cfg =
     map (\<lambda>(l, arg). (l, arg, if lo_has_arg l then how (lo_val l) else Long))
       (zip client_long_options
          [the (cc_host cfg), decimal (uint (cc_port cfg)), decimal (uint (cc_num_pages cfg)),
           decimal (uint (cc_num_virtual_pages cfg)), decimal (uint (cc_num_iterations cfg)),
           decimal (uint (cc_locality_percent cfg)), decimal (uint (cc_write_percent cfg))] @
        (if cc_verbose cfg then [(client_long_options ! 7, [])] else []) @
        (if cc_verify_mode cfg then [(client_long_options ! 8, [])] else []))"

definition client_args :: "(char \<Rightarrow> spelling) \<Rightarrow> dsm_client_config \<Rightarrow> string list" where
  "client_args how cfg = concat (map spell (client_words how cfg))"

subsection \<open>Every spelling is understood\<close>

lemma getopt_short_word:
  "c \<noteq> CHR ''-'' \<Longrightarrow> getopt_long posix opts longs ((CHR ''-'' # c # cs) # args) =
     (case short_options opts (c # cs) args of (os, args) \<Rightarrow> os @ getopt_long posix opts longs args)"
  by (simp add: numeral_2_eq_2)

lemma getopt_long_word:
  "w \<noteq> [] \<Longrightarrow> getopt_long posix opts longs ((''--'' @ w) # args) =
     (case long_opt longs w args of (o1, args) \<Rightarrow> o1 # getopt_long posix opts longs args)"
  by (simp add: numeral_2_eq_2)

declare getopt_long.simps(2) [simp del]

locale option_table =
  fixes opts :: string and longs :: "long_option list"
  assumes short: "l \<in> set longs \<Longrightarrow> short_kind opts (lo_val l) = Some (lo_has_arg l)"
    and names: "distinct (map lo_name longs)"
    and plain: "l \<in> set longs \<Longrightarrow> CHR ''='' \<notin> set (lo_name l) \<and> lo_name l \<noteq> [] \<and> lo_val l \<noteq> CHR ''-''"
begin

lemma long_match_name:
  assumes "l \<in> set longs"
  shows "long_match longs (lo_name l) = Some l"
proof -
  have "find (\<lambda>x. lo_name x = lo_name l) xs = Some l" if "distinct (map lo_name xs)" "l \<in> set xs" for xs
    using that by (induction xs) (auto simp: rev_image_eqI)
  with names assms show ?thesis by (simp add: long_match_def)
qed

lemma takeWhile_name:
  assumes "l \<in> set longs"
  shows "takeWhile (\<lambda>c. c \<noteq> CHR ''='') (lo_name l) = lo_name l" "dropWhile (\<lambda>c. c \<noteq> CHR ''='') (lo_name l) = []"
    and "takeWhile (\<lambda>c. c \<noteq> CHR ''='') (lo_name l @ CHR ''='' # arg) = lo_name l"
    and "dropWhile (\<lambda>c. c \<noteq> CHR ''='') (lo_name l @ CHR ''='' # arg) = CHR ''='' # arg"
proof -
  have "\<forall>c \<in> set (lo_name l). c \<noteq> CHR ''=''"
    using plain [OF assms] by auto
  then show "takeWhile (\<lambda>c. c \<noteq> CHR ''='') (lo_name l) = lo_name l" "dropWhile (\<lambda>c. c \<noteq> CHR ''='') (lo_name l) = []"
    "takeWhile (\<lambda>c. c \<noteq> CHR ''='') (lo_name l @ CHR ''='' # arg) = lo_name l"
    "dropWhile (\<lambda>c. c \<noteq> CHR ''='') (lo_name l @ CHR ''='' # arg) = CHR ''='' # arg"
    by (simp_all add: takeWhile_eq_all_conv dropWhile_append takeWhile_append dropWhile_eq_Nil_conv)
qed

lemma spell_step:
  assumes "spellable longs x"
  shows "getopt_long posix opts longs (spell x @ args) = option_of x # getopt_long posix opts longs args"
proof -
  obtain l arg how where x: "x = (l, arg, how)" by (cases x)
  have l: "l \<in> set longs" using assms x by simp
  note s = short [OF l] and m = long_match_name [OF l] and t = takeWhile_name [OF l] and p = plain [OF l]
  have lo: "long_opt longs (lo_name l) args' = (if lo_has_arg l then (case args' of [] \<Rightarrow> ((CHR ''?'', []), []) | a # as \<Rightarrow> ((lo_val l, a), as))
      else ((lo_val l, []), args'))"
    "long_opt longs (lo_name l @ CHR ''='' # arg) args' = (if lo_has_arg l then ((lo_val l, arg), args') else ((CHR ''?'', []), args'))" for args'
    by (simp_all only: long_opt_def Let_def t m option.case) (simp_all split: list.splits)
  have so: "short_options opts (lo_val l # cs) args' = (if lo_has_arg l then (if cs \<noteq> [] then ([(lo_val l, cs)], args')
        else (case args' of [] \<Rightarrow> ([(CHR ''?'', [])], []) | a # as \<Rightarrow> ([(lo_val l, a)], as)))
      else (case short_options opts cs args' of (os, as) \<Rightarrow> ((lo_val l, []) # os, as)))" for cs args'
    using s by (cases "lo_has_arg l") simp_all
  show ?thesis
  proof (cases how)
    case Short
    with assms p so show ?thesis by (simp add: x option_of_def getopt_short_word)
  next
    case Joined
    with assms p so show ?thesis by (simp add: x option_of_def getopt_short_word)
  next
    case Long
    with assms p lo getopt_long_word [of "lo_name l"] show ?thesis by (simp add: x option_of_def)
  next
    case Equals
    with assms p lo getopt_long_word [of "lo_name l @ CHR ''='' # arg"] show ?thesis by (simp add: x option_of_def)
  qed
qed

lemma getopt_spelled:
  "\<forall>x \<in> set xs. spellable longs x \<Longrightarrow>
     getopt_long posix opts longs (concat (map spell xs) @ args) = map option_of xs @ getopt_long posix opts longs args"
  by (induction xs) (simp_all add: spell_step)

end

interpretation client_table: option_table client_short_options client_long_options
  by unfold_locales (auto simp: client_short_options_def client_long_options_def)

interpretation server_table: option_table server_short_options server_long_options
  by unfold_locales (auto simp: server_short_options_def server_long_options_def)

lemma parse_long_decimal:
  assumes "mn \<le> n" and "n \<le> mx" and "LONG_MIN \<le> mn" and "mx \<le> LONG_MAX"
  shows "dsm_parse_long (decimal n) mn mx = Some n"
  using assms strtol_decimal [of n] by (simp add: dsm_parse_long_def Let_def decimal_ne [symmetric])

lemma uint_bounds:
  "0 \<le> uint (x :: u16) \<and> uint x \<le> 65535" "0 \<le> uint (y :: u32) \<and> uint y \<le> 4294967295"
  using uint_bounded [of x] uint_bounded [of y] by simp_all

lemma client_words_spellable:
  assumes "cc_host cfg = Some h" and "h \<noteq> []"
  shows "\<forall>x \<in> set (client_words how cfg). spellable client_long_options x"
  using assms by (auto simp: client_words_def client_long_options_def)

lemma client_words_options:
  assumes "client_config_ok cfg" and "cc_host cfg = Some h" and "\<not> cc_verbose cfg0" and "\<not> cc_verify_mode cfg0"
  shows "client_options (map option_of (client_words how cfg)) cfg0 = Inr cfg"
proof -
  note b = uint_bounds(1) [of "cc_port cfg"] uint_bounds(2) [of "cc_num_pages cfg"]
    uint_bounds(2) [of "cc_num_virtual_pages cfg"] uint_bounds(2) [of "cc_num_iterations cfg"]
  have pct: "0 \<le> uint (x :: u8) \<and> uint x \<le> 100" if "x \<le> 100" for x
    using that by (simp add: word_le_def)
  note lim = LONG_MIN_def LONG_MAX_def UINT32_MAX_def
  have "dsm_parse_long (decimal (uint (cc_port cfg))) 1 65535 = Some (uint (cc_port cfg))"
    "dsm_parse_long (decimal (uint (cc_num_pages cfg))) 1 UINT32_MAX = Some (uint (cc_num_pages cfg))"
    "dsm_parse_long (decimal (uint (cc_num_virtual_pages cfg))) 1 UINT32_MAX = Some (uint (cc_num_virtual_pages cfg))"
    "dsm_parse_long (decimal (uint (cc_num_iterations cfg))) 0 UINT32_MAX = Some (uint (cc_num_iterations cfg))"
    "dsm_parse_long (decimal (uint (cc_locality_percent cfg))) 0 100 = Some (uint (cc_locality_percent cfg))"
    "dsm_parse_long (decimal (uint (cc_write_percent cfg))) 0 100 = Some (uint (cc_write_percent cfg))"
    using assms(1) b pct uint_pos [of "cc_port cfg"] uint_pos [of "cc_num_pages cfg"] uint_pos [of "cc_num_virtual_pages cfg"]
    by (intro parse_long_decimal; simp add: client_config_ok_def lim)+
  then show ?thesis
    using assms(2-4)
    by (cases cfg0) (auto simp: client_words_def client_long_options_def option_of_def client_option_def checked_def
        intro!: dsm_client_config.equality)
qed

subsection \<open>Properties\<close>

text \<open>
  Every spelling of an option is understood by both programs: short options with separate
  or joined argument, long options with separate argument or \<open>=\<close>, in any number and order,
  before any further words, deliver the options and arguments they stand for.
\<close>

lemma command_line_roundtrip:
  assumes "\<forall>x \<in> set xs. spellable client_long_options x" and "\<forall>y \<in> set ys. spellable server_long_options y"
  shows "client_getopt env (concat (map spell xs) @ ''--'' # operands) = map option_of xs \<and>
    server_getopt env (concat (map spell ys) @ ''--'' # operands) = map option_of ys"
  using client_table.getopt_spelled [OF assms(1)] server_table.getopt_spelled [OF assms(2)]
  by (simp add: client_getopt_def server_getopt_def getopt_long.simps)



end
