(* ===== verification/DSM_Output.thy ===== *)
theory DSM_Output
  imports DSM_Options
begin

section \<open>Messages (dsm\_log.h, dsm\_config.c, dsm\_client.c, dsm\_server.c)\<close>

text \<open>
  What the two programs write before they start to work: log lines, usage messages, warnings about
  the environment, errors about the command line, and the configuration when they are
  verbose; and the lines of the benchmark, for which the formatting of floating-point numbers is
  an argument. An output is the sequence of strings written to the two streams. The functions
  with \<open>_io\<close> follow the code once more with their output; without the output they are the
  functions of \<open>DSM_Config\<close>. The message \<open>getopt_long\<close> prints itself before it returns
  \<open>?\<close> is not part of it.
\<close>

subsection \<open>Definitions\<close>

datatype stream = Stdout | Stderr

type_synonym messages = "(stream \<times> string) list"

text \<open>Some output, and either an exit status or a result to go on with.\<close>

type_synonym 'a io = "messages \<times> (int + 'a)"

definition bind_io :: "'a io \<Rightarrow> ('a \<Rightarrow> 'b io) \<Rightarrow> 'b io" where
  "bind_io m f = (case m of (out, Inl status) \<Rightarrow> (out, Inl status)
     | (out, Inr x) \<Rightarrow> (case f x of (out', r) \<Rightarrow> (out @ out', r)))"

abbreviation nl :: string where
  "nl \<equiv> [CHR 0x0A]"

abbreviation quoted :: "string \<Rightarrow> string" where
  "quoted s \<equiv> CHR 0x27 # s @ [CHR 0x27]"

definition truth :: "bool \<Rightarrow> string" where
  "truth b = (if b then ''true'' else ''false'')"

paragraph \<open>Logging\<close>

definition DSM_LOG_ERROR :: "string \<Rightarrow> messages" where
  "DSM_LOG_ERROR msg = [(Stderr, ''[ERROR] '' @ msg @ nl)]"

definition DSM_LOG_WARN :: "string \<Rightarrow> messages" where
  "DSM_LOG_WARN msg = [(Stderr, ''[WARN] '' @ msg @ nl)]"

definition DSM_LOG_INFO :: "string \<Rightarrow> messages" where
  "DSM_LOG_INFO msg = [(Stdout, ''[INFO] '' @ msg @ nl)]"

definition DSM_LOG_DEBUG :: "bool \<Rightarrow> string \<Rightarrow> messages" where
  "DSM_LOG_DEBUG verbose msg = (if verbose then [(Stdout, ''[DEBUG] '' @ msg @ nl)] else [])"

paragraph \<open>Usage\<close>

definition client_print_usage :: "string \<Rightarrow> messages" where
  "client_print_usage prog = map (\<lambda>line. (Stderr, line @ nl))
     [''Usage: '' @ prog @ '' [OPTIONS]'',
      nl @ ''Options:'',
      ''  -H, --host <host>         Server hostname (default: '' @ DEFAULT_HOST @ '')'',
      ''  -p, --port <port>         Server port (default: '' @ decimal DEFAULT_PORT @ '')'',
      ''  -n, --num-pages <n>       Local cache size in pages (default: 256)'',
      ''  -N, --num-virtual <n>     Total virtual pages (default: 1024)'',
      ''  -i, --iterations <n>      Number of benchmark iterations (default: 100000)'',
      ''  -l, --locality <pct>      Locality percentage 0-100 (default: 80)'',
      ''  -w, --write-pct <pct>     Write percentage 0-100 (default: 10)'',
      ''  -v, --verbose             Enable verbose output'',
      ''  -t, --verify              Verify end-to-end round-trip and exit'',
      ''  -h, --help                Show this help message'',
      nl @ ''Environment variables:'',
      ''  DSM_HOST              Server hostname'',
      ''  DSM_PORT              Server port'',
      ''  DSM_NUM_PAGES         Local cache size'',
      ''  DSM_NUM_VIRTUAL_PAGES Total virtual pages'',
      ''  DSM_NUM_ITERATIONS    Benchmark iterations'',
      ''  DSM_LOCALITY_PERCENT  Locality percentage'',
      ''  DSM_WRITE_PERCENT     Write percentage'',
      ''  DSM_VERBOSE           Enable verbose (set to 1)'',
      ''  DSM_VERIFY            Enable verify mode (set to 1)'']"

definition server_print_usage :: "string \<Rightarrow> messages" where
  "server_print_usage prog = map (\<lambda>line. (Stdout, line @ nl))
     [''Usage: '' @ prog @ '' [OPTIONS]'',
      nl @ ''Server Options:'',
      ''  -p, --port PORT          Client port (default: '' @ decimal DEFAULT_PORT @ '')'',
      ''  -b, --bind ADDR          Bind address (default: 0.0.0.0)'',
      ''  -n, --pages NUM          Virtual pages to manage'',
      ''  -v, --verbose            Verbose output'',
      ''  -h, --help               Show this message'',
      nl @ ''Cluster Options:'',
      ''  -s, --seed ADDR          Seed node address to join'',
      ''  -S, --seed-port PORT     Seed node cluster port'',
      ''  -c, --cluster-port PORT  This node'' @ CHR 0x27 # ''s cluster port'',
      ''  -r, --range START:END    Page range this node owns'',
      ''  -i, --node-id ID         Node identifier'',
      nl @ ''Environment: DSM_SEED_ADDR, DSM_CLUSTER_PORT, DSM_PAGE_RANGE_START, etc.'']"

text \<open>The registered usage function with its argument, if any.\<close>

type_synonym usage = "((string \<Rightarrow> messages) \<times> string) option"

definition dsm_parse_set_usage :: "(string \<Rightarrow> messages) \<Rightarrow> string \<Rightarrow> usage" where
  "dsm_parse_set_usage print prog = Some (print, prog)"

paragraph \<open>Printed configurations\<close>

definition dsm_client_config_print :: "dsm_client_config \<Rightarrow> messages" where
  "dsm_client_config_print cfg =
     DSM_LOG_INFO ''Client Configuration:'' @
     DSM_LOG_INFO (''  Host:              '' @ (case cc_host cfg of None \<Rightarrow> ''(null)'' | Some h \<Rightarrow> h)) @
     DSM_LOG_INFO (''  Port:              '' @ decimal (uint (cc_port cfg))) @
     DSM_LOG_INFO (''  Num Pages:         '' @ decimal (uint (cc_num_pages cfg))) @
     DSM_LOG_INFO (''  Num Virtual Pages: '' @ decimal (uint (cc_num_virtual_pages cfg))) @
     DSM_LOG_INFO (''  Num Iterations:    '' @ decimal (uint (cc_num_iterations cfg))) @
     DSM_LOG_INFO (''  Locality Percent:  '' @ decimal (uint (cc_locality_percent cfg)) @ ''%'') @
     DSM_LOG_INFO (''  Write Percent:     '' @ decimal (uint (cc_write_percent cfg)) @ ''%'') @
     DSM_LOG_INFO (''  Verbose:           '' @ truth (cc_verbose cfg)) @
     DSM_LOG_INFO (''  Verify Mode:       '' @ truth (cc_verify_mode cfg))"

definition dsm_server_config_print :: "dsm_server_config \<Rightarrow> messages" where
  "dsm_server_config_print cfg =
     DSM_LOG_INFO ''Server Configuration:'' @
     DSM_LOG_INFO (''  Port:              '' @ decimal (uint (sc_port cfg))) @
     DSM_LOG_INFO (''  Num Virtual Pages: '' @ decimal (uint (sc_num_virtual_pages cfg))) @
     DSM_LOG_INFO (''  Verbose:           '' @ truth (sc_verbose cfg)) @
     DSM_LOG_INFO (''  Bind Address:      '' @ (case sc_bind_addr cfg of None \<Rightarrow> ''(null)'' | Some a \<Rightarrow> a))"

definition cluster_config_print :: "cluster_config \<Rightarrow> messages" where
  "cluster_config_print cfg =
     DSM_LOG_INFO ''Cluster Configuration:'' @
     DSM_LOG_INFO (''  Seed:          '' @ (case seed_addr cfg of None \<Rightarrow> ''(none)'' | Some a \<Rightarrow> a) @ '':'' @
       decimal (uint (seed_port cfg))) @
     DSM_LOG_INFO (''  Cluster Port:  '' @ decimal (uint (cluster_port cfg))) @
     DSM_LOG_INFO (''  Heartbeat:     '' @ decimal (uint (heartbeat_ms cfg)) @ '' ms'') @
     DSM_LOG_INFO (''  Gossip:        '' @ decimal (uint (gossip_ms cfg)) @ '' ms'') @
     DSM_LOG_INFO (''  Timeout:       '' @ decimal (uint (timeout_ms cfg)) @ '' ms'') @
     DSM_LOG_INFO (''  Page Range:    '' @ decimal (uint (page_range_start cfg)) @ '' - '' @ decimal (uint (page_range_end cfg)))"

paragraph \<open>Checked parsing, with its messages\<close>

definition dsm_env_long_io :: "(string \<Rightarrow> string option) \<Rightarrow> string \<Rightarrow> int \<Rightarrow> int \<Rightarrow> int \<Rightarrow> messages \<times> int" where
  "dsm_env_long_io env name dflt mn mx =
     (case env name of None \<Rightarrow> ([], dflt)
      | Some val \<Rightarrow>
          (let (n, end_ptr, erange) = strtol val in
           if erange \<or> end_ptr = val \<or> end_ptr \<noteq> [] \<or> n < mn \<or> n > mx
           then (DSM_LOG_WARN (''invalid '' @ name @ ''='' @ quoted val @ '' (expected '' @ decimal mn @ ''..'' @ decimal mx @
                   ''); using default '' @ decimal dflt), dflt)
           else ([], n)))"

definition dsm_parse_long_io :: "usage \<Rightarrow> string \<Rightarrow> string \<Rightarrow> int \<Rightarrow> int \<Rightarrow> int io" where
  "dsm_parse_long_io usage arg flagname mn mx =
     (let (n, end_ptr, erange) = strtol arg in
      if erange \<or> end_ptr = arg \<or> end_ptr \<noteq> [] \<or> n < mn \<or> n > mx
      then (DSM_LOG_ERROR (''Invalid value for '' @ flagname @ '': '' @ quoted arg @ '' (expected '' @ decimal mn @ ''..'' @ decimal mx @ '')'') @
              (case usage of None \<Rightarrow> [] | Some (print, prog) \<Rightarrow> print prog), Inl 1)
      else ([], Inr n))"

paragraph \<open>The environment\<close>

definition client_env_io :: "(string \<Rightarrow> string option) \<Rightarrow> dsm_client_config \<Rightarrow> dsm_client_config io" where
  "client_env_io env cfg =
     (let cfg = cfg\<lparr>cc_host := dsm_env_str env ''DSM_HOST'' (cc_host cfg)\<rparr>;
          (o1, port) = dsm_env_long_io env ''DSM_PORT'' (uint (cc_port cfg)) 1 65535;
          (o2, pages) = dsm_env_long_io env ''DSM_NUM_PAGES'' (uint (cc_num_pages cfg)) 1 UINT32_MAX;
          (o3, virtual) = dsm_env_long_io env ''DSM_NUM_VIRTUAL_PAGES'' (uint (cc_num_virtual_pages cfg)) 1 UINT32_MAX;
          (o4, iterations) = dsm_env_long_io env ''DSM_NUM_ITERATIONS'' (uint (cc_num_iterations cfg)) 0 UINT32_MAX;
          (o5, locality) = dsm_env_long_io env ''DSM_LOCALITY_PERCENT'' (uint (cc_locality_percent cfg)) 0 100;
          (o6, writes) = dsm_env_long_io env ''DSM_WRITE_PERCENT'' (uint (cc_write_percent cfg)) 0 100;
          cfg = cfg\<lparr>cc_port := word_of_int port, cc_num_pages := word_of_int pages, cc_num_virtual_pages := word_of_int virtual,
            cc_num_iterations := word_of_int iterations, cc_locality_percent := word_of_int locality,
            cc_write_percent := word_of_int writes\<rparr>;
          cfg = (if env ''DSM_VERBOSE'' = Some ''1'' then cfg\<lparr>cc_verbose := True\<rparr> else cfg);
          cfg = (if env ''DSM_VERIFY'' = Some ''1'' then cfg\<lparr>cc_verify_mode := True\<rparr> else cfg)
      in (o1 @ o2 @ o3 @ o4 @ o5 @ o6, Inr cfg))"

definition server_env_io :: "(string \<Rightarrow> string option) \<Rightarrow> dsm_server_config \<Rightarrow> dsm_server_config io" where
  "server_env_io env cfg =
     (let (o1, port) = dsm_env_long_io env ''DSM_PORT'' (uint (sc_port cfg)) 1 65535;
          (o2, virtual) = dsm_env_long_io env ''DSM_NUM_VIRTUAL_PAGES'' (uint (sc_num_virtual_pages cfg)) 1 UINT32_MAX;
          cfg = cfg\<lparr>sc_port := word_of_int port, sc_num_virtual_pages := word_of_int virtual\<rparr>;
          cfg = (if env ''DSM_VERBOSE'' = Some ''1'' then cfg\<lparr>sc_verbose := True\<rparr> else cfg)
      in (o1 @ o2, Inr (cfg\<lparr>sc_bind_addr := dsm_env_str env ''DSM_BIND_ADDR'' (sc_bind_addr cfg)\<rparr>)))"

definition cluster_env_io :: "(string \<Rightarrow> string option) \<Rightarrow> cluster_config \<Rightarrow> cluster_config io" where
  "cluster_env_io env cfg =
     (let cfg = cfg\<lparr>seed_addr := dsm_env_str env ''DSM_SEED_ADDR'' (seed_addr cfg)\<rparr>;
          (o1, sport) = dsm_env_long_io env ''DSM_SEED_PORT'' (uint (seed_port cfg)) 1 65535;
          cfg = cfg\<lparr>seed_port := word_of_int sport, cfg_node_id := dsm_env_str env ''DSM_NODE_ID'' (cfg_node_id cfg)\<rparr>;
          (o2, cport) = dsm_env_long_io env ''DSM_CLUSTER_PORT'' (uint (cluster_port cfg)) 1 65535;
          (o3, heartbeat) = dsm_env_long_io env ''DSM_HEARTBEAT_MS'' (uint (heartbeat_ms cfg)) 1 UINT32_MAX;
          (o4, gossip) = dsm_env_long_io env ''DSM_GOSSIP_MS'' (uint (gossip_ms cfg)) 1 UINT32_MAX;
          (o5, timeout) = dsm_env_long_io env ''DSM_TIMEOUT_MS'' (uint (timeout_ms cfg)) 1 UINT32_MAX;
          (o6, first) = dsm_env_long_io env ''DSM_PAGE_RANGE_START'' (uint (page_range_start cfg)) 0 UINT32_MAX;
          (o7, last) = dsm_env_long_io env ''DSM_PAGE_RANGE_END'' (uint (page_range_end cfg)) 0 UINT32_MAX
      in (o1 @ o2 @ o3 @ o4 @ o5 @ o6 @ o7,
          Inr (cfg\<lparr>cluster_port := word_of_int cport, heartbeat_ms := word_of_int heartbeat, gossip_ms := word_of_int gossip,
            timeout_ms := word_of_int timeout, page_range_start := word_of_int first, page_range_end := word_of_int last\<rparr>)))"

paragraph \<open>The command line\<close>

definition set_io :: "int io \<Rightarrow> (int \<Rightarrow> 'c) \<Rightarrow> 'c io" where
  "set_io r f = bind_io r (\<lambda>n. ([], Inr (f n)))"

definition client_option_io :: "usage \<Rightarrow> string \<Rightarrow> char \<Rightarrow> string \<Rightarrow> dsm_client_config \<Rightarrow> dsm_client_config io" where
  "client_option_io u prog opt optarg cfg =
     (if opt = CHR ''H'' then ([], Inr (cfg\<lparr>cc_host := Some optarg\<rparr>))
      else if opt = CHR ''p'' then set_io (dsm_parse_long_io u optarg ''-p/--port'' 1 65535) (\<lambda>n. cfg\<lparr>cc_port := word_of_int n\<rparr>)
      else if opt = CHR ''n'' then set_io (dsm_parse_long_io u optarg ''-n/--num-pages'' 1 UINT32_MAX) (\<lambda>n. cfg\<lparr>cc_num_pages := word_of_int n\<rparr>)
      else if opt = CHR ''N'' then set_io (dsm_parse_long_io u optarg ''-N/--num-virtual'' 1 UINT32_MAX) (\<lambda>n. cfg\<lparr>cc_num_virtual_pages := word_of_int n\<rparr>)
      else if opt = CHR ''i'' then set_io (dsm_parse_long_io u optarg ''-i/--iterations'' 0 UINT32_MAX) (\<lambda>n. cfg\<lparr>cc_num_iterations := word_of_int n\<rparr>)
      else if opt = CHR ''l'' then set_io (dsm_parse_long_io u optarg ''-l/--locality'' 0 100) (\<lambda>n. cfg\<lparr>cc_locality_percent := word_of_int n\<rparr>)
      else if opt = CHR ''w'' then set_io (dsm_parse_long_io u optarg ''-w/--write-pct'' 0 100) (\<lambda>n. cfg\<lparr>cc_write_percent := word_of_int n\<rparr>)
      else if opt = CHR ''v'' then ([], Inr (cfg\<lparr>cc_verbose := True\<rparr>))
      else if opt = CHR ''t'' then ([], Inr (cfg\<lparr>cc_verify_mode := True\<rparr>))
      else if opt = CHR ''h'' then (client_print_usage prog, Inl 0)
      else (client_print_usage prog, Inl 1))"

fun client_options_io :: "usage \<Rightarrow> string \<Rightarrow> option_list \<Rightarrow> dsm_client_config \<Rightarrow> dsm_client_config io" where
  "client_options_io u prog [] cfg = ([], Inr cfg)"
| "client_options_io u prog ((opt, optarg) # rest) cfg =
     bind_io (client_option_io u prog opt optarg cfg) (client_options_io u prog rest)"

definition client_validate_io :: "dsm_client_config \<Rightarrow> dsm_client_config io" where
  "client_validate_io cfg =
     (let cfg = (if cc_verify_mode cfg then cfg\<lparr>cc_num_virtual_pages := 4 * cc_num_pages cfg\<rparr> else cfg) in
      if cc_locality_percent cfg > 100 then (DSM_LOG_ERROR ''locality percentage must be 0-100'', Inl 1)
      else if cc_write_percent cfg > 100 then (DSM_LOG_ERROR ''write percentage must be 0-100'', Inl 1)
      else if cc_num_pages cfg = 0 \<or> cc_num_virtual_pages cfg = 0 then (DSM_LOG_ERROR ''page counts must be > 0'', Inl 1)
      else if cc_num_pages cfg > cc_num_virtual_pages cfg then (DSM_LOG_ERROR ''local pages cannot exceed virtual pages'', Inl 1)
      else (if cc_verbose cfg then dsm_client_config_print cfg else [], Inr cfg))"

text \<open>The client from its command line up to the point where it connects.\<close>

definition client_front :: "(string \<Rightarrow> string option) \<Rightarrow> string \<Rightarrow> string list \<Rightarrow> dsm_client_config io" where
  "client_front env prog args =
     bind_io (client_env_io env dsm_client_config_default) (\<lambda>cfg.
     bind_io (client_options_io (dsm_parse_set_usage client_print_usage prog) prog (client_getopt env args) cfg)
       client_validate_io)"

definition server_option_io ::
  "usage \<Rightarrow> string \<Rightarrow> char \<Rightarrow> string \<Rightarrow> dsm_server_config \<times> cluster_config \<Rightarrow> (dsm_server_config \<times> cluster_config) io" where
  "server_option_io u prog opt optarg c =
     (let (cfg, ccfg) = c in
      if opt = CHR ''p'' then set_io (dsm_parse_long_io u optarg ''-p/--port'' 1 65535) (\<lambda>n. (cfg\<lparr>sc_port := word_of_int n\<rparr>, ccfg))
      else if opt = CHR ''b'' then ([], Inr (cfg\<lparr>sc_bind_addr := Some optarg\<rparr>, ccfg))
      else if opt = CHR ''n'' then set_io (dsm_parse_long_io u optarg ''-n/--pages'' 1 UINT32_MAX) (\<lambda>n. (cfg\<lparr>sc_num_virtual_pages := word_of_int n\<rparr>, ccfg))
      else if opt = CHR ''v'' then ([], Inr (cfg\<lparr>sc_verbose := True\<rparr>, ccfg))
      else if opt = CHR ''s'' then ([], Inr (cfg, ccfg\<lparr>seed_addr := Some optarg\<rparr>))
      else if opt = CHR ''S'' then set_io (dsm_parse_long_io u optarg ''-S/--seed-port'' 1 65535) (\<lambda>n. (cfg, ccfg\<lparr>seed_port := word_of_int n\<rparr>))
      else if opt = CHR ''c'' then set_io (dsm_parse_long_io u optarg ''-c/--cluster-port'' 1 65535) (\<lambda>n. (cfg, ccfg\<lparr>cluster_port := word_of_int n\<rparr>))
      else if opt = CHR ''r'' then (case scan_range optarg of
          None \<Rightarrow> (DSM_LOG_ERROR (''Invalid range: '' @ optarg) @ server_print_usage prog, Inl 1)
        | Some (a, b) \<Rightarrow> ([], Inr (cfg, ccfg\<lparr>page_range_start := a, page_range_end := b\<rparr>)))
      else if opt = CHR ''i'' then ([], Inr (cfg, ccfg\<lparr>cfg_node_id := Some optarg\<rparr>))
      else if opt = CHR ''h'' then (server_print_usage prog, Inl 0)
      else (server_print_usage prog, Inl 1))"

fun server_options_io ::
  "usage \<Rightarrow> string \<Rightarrow> option_list \<Rightarrow> dsm_server_config \<times> cluster_config \<Rightarrow> (dsm_server_config \<times> cluster_config) io" where
  "server_options_io u prog [] c = ([], Inr c)"
| "server_options_io u prog ((opt, optarg) # rest) c =
     bind_io (server_option_io u prog opt optarg c) (server_options_io u prog rest)"

text \<open>The server up to the point where it sets up its storage.\<close>

definition server_front :: "(string \<Rightarrow> string option) \<Rightarrow> string \<Rightarrow> string list \<Rightarrow> (dsm_server_config \<times> cluster_config) io" where
  "server_front env prog args =
     bind_io (server_env_io env dsm_server_config_default) (\<lambda>cfg.
     bind_io (cluster_env_io env cluster_config_default) (\<lambda>ccfg.
       server_options_io (dsm_parse_set_usage server_print_usage prog) prog (server_getopt env args) (cfg, ccfg)))"

paragraph \<open>The benchmark's output\<close>

text \<open>
  \<open>fmt k a b\<close> is what \<open>printf\<close> writes with \<open>%.2f\<close> for \<open>k\<close> times \<open>a\<close> divided by \<open>b\<close>, computed with
  doubles.
\<close>

definition benchmark_banner :: "dsm_client_config \<Rightarrow> messages" where
  "benchmark_banner cfg = map (\<lambda>line. (Stdout, line @ nl))
     [''=== DSM Benchmark ==='',
      ''Local cache: '' @ decimal (uint (cc_num_pages cfg)) @ '' pages, Virtual pages: '' @ decimal (uint (cc_num_virtual_pages cfg)),
      ''Iterations: '' @ decimal (uint (cc_num_iterations cfg)) @ '', Locality: '' @ decimal (uint (cc_locality_percent cfg)) @
        ''%, Write: '' @ decimal (uint (cc_write_percent cfg)) @ ''%'',
      ''---------------------'']"

definition benchmark_report :: "(nat \<Rightarrow> u64 \<Rightarrow> u64 \<Rightarrow> string) \<Rightarrow> dsm_client_config \<Rightarrow> u64 \<Rightarrow> dsm_context \<Rightarrow> messages" where
  "benchmark_report fmt cfg total_ns c =
     (let hit_rate = (if total_accesses c > 0 then fmt 100 (local_hits c) (total_accesses c) else ''0.00'')
      in map (\<lambda>line. (Stdout, line @ nl))
        [nl @ ''=== Results ==='',
         ''Total ns:        '' @ decimal (uint total_ns),
         ''ns/access:       '' @ (if cc_num_iterations cfg > 0 then fmt 1 total_ns (ucast (cc_num_iterations cfg)) else ''0.00''),
         ''Local hits:      '' @ decimal (uint (local_hits c)),
         ''Remote fetches:  '' @ decimal (uint (remote_fetches c)),
         ''Evictions:       '' @ decimal (uint (evictions c)),
         ''Hit rate:        '' @ hit_rate @ ''%''])"

paragraph \<open>What usage messages should say\<close>

text \<open>A line of the message names the short and the long form of the option.\<close>

definition documents :: "messages \<Rightarrow> long_option \<Rightarrow> bool" where
  "documents out l \<longleftrightarrow>
     list_ex (\<lambda>(f, line). prefix (''  -'' @ lo_val l # '', --'' @ lo_name l @ '' '') line) out"

definition documents_default :: "messages \<Rightarrow> long_option \<times> string \<Rightarrow> bool" where
  "documents_default out x \<longleftrightarrow>
     list_ex (\<lambda>(f, line). prefix (''  -'' @ lo_val (fst x) # '', --'' @ lo_name (fst x) @ '' '') line \<and>
       suffix (''(default: '' @ snd x @ '')'' @ nl) line) out"

paragraph \<open>Exits that are explained\<close>

text \<open>A run that stops has written something, all of it to \<open>stderr\<close>; some functions never write elsewhere.\<close>

definition stop_explained :: "'a io \<Rightarrow> bool" where
  "stop_explained m \<longleftrightarrow> (\<forall>st. snd m = Inl st \<longrightarrow> fst m \<noteq> [] \<and> list_all (\<lambda>x. fst x = Stderr) (fst m))"

definition explained :: "'a io \<Rightarrow> bool" where
  "explained m \<longleftrightarrow> stop_explained m \<and> list_all (\<lambda>x. fst x = Stderr) (fst m)"

definition stop_written :: "'a io \<Rightarrow> bool" where
  "stop_written m \<longleftrightarrow> (\<forall>st. snd m = Inl st \<longrightarrow> fst m \<noteq> [])"

subsection \<open>The functions without their output\<close>

lemma bind_io_simps [simp]:
  "bind_io (out, Inl st) f = (out, Inl st)"
  "bind_io (out, Inr x) f = (out @ fst (f x), snd (f x))"
  by (simp_all add: bind_io_def split: prod.splits)

lemma snd_bind_io: "snd (bind_io m f) = (case snd m of Inl st \<Rightarrow> Inl st | Inr x \<Rightarrow> snd (f x))"
  by (cases m; cases "snd m") auto

lemma snd_env_long_io [simp]: "snd (dsm_env_long_io env name d mn mx) = dsm_env_long env name d mn mx"
  by (auto simp: dsm_env_long_io_def dsm_env_long_def Let_def split: option.splits prod.splits)

lemma snd_parse_long_io: "snd (set_io (dsm_parse_long_io u arg flag mn mx) f) = checked (dsm_parse_long arg mn mx) f"
  by (auto simp: set_io_def snd_bind_io dsm_parse_long_io_def dsm_parse_long_def checked_def Let_def split: prod.splits)

lemma snd_client_env_io: "snd (client_env_io env cfg) = Inr (dsm_client_config_from_env env cfg)"
  by (cases cfg) (simp add: client_env_io_def dsm_client_config_from_env_def case_prod_unfold, simp add: Let_def)

lemma snd_client_options_io: "snd (client_options_io u prog os cfg) = client_options os cfg"
proof (induction os arbitrary: cfg)
  case (Cons x os)
  have "snd (client_option_io u prog opt arg cfg) = client_option opt arg cfg" for opt arg
    by (simp add: client_option_io_def client_option_def snd_parse_long_io)
  with Cons show ?case
    by (cases x) (simp add: snd_bind_io split: sum.splits)
qed simp

lemma snd_client_validate_io: "snd (client_validate_io cfg) = client_validate cfg"
  by (simp add: client_validate_io_def client_validate_def Let_def)

lemma snd_server_options_io: "snd (server_options_io u prog os c) = server_options os c"
proof (induction os arbitrary: c)
  case (Cons x os)
  have "snd (server_option_io u prog opt arg c) = server_option opt arg c" for opt arg
    by (simp add: server_option_io_def server_option_def snd_parse_long_io case_prod_unfold split: option.splits)
  with Cons show ?case
    by (cases x) (simp add: snd_bind_io split: sum.splits)
qed simp

lemma snd_server_env_io: "snd (server_env_io env cfg) = Inr (dsm_server_config_from_env env cfg)"
  by (cases cfg) (simp add: server_env_io_def dsm_server_config_from_env_def case_prod_unfold, simp add: Let_def)

lemma snd_cluster_env_io: "snd (cluster_env_io env cfg) = Inr (cluster_config_from_env env cfg)"
  by (cases cfg) (simp add: cluster_env_io_def cluster_config_from_env_def case_prod_unfold)

lemma snd_server_front:
  "snd (server_front env prog args) =
     server_options (server_getopt env args)
       (dsm_server_config_from_env env dsm_server_config_default, cluster_config_from_env env cluster_config_default)"
  by (simp add: server_front_def snd_bind_io snd_server_env_io snd_cluster_env_io snd_server_options_io)

lemma snd_client_front:
  "snd (client_front env prog args) =
     (case client_options (client_getopt env args) (dsm_client_config_from_env env dsm_client_config_default) of
        Inl st \<Rightarrow> Inl st | Inr cfg \<Rightarrow> client_validate cfg)"
  by (simp add: client_front_def snd_bind_io snd_client_env_io snd_client_options_io snd_client_validate_io split: sum.splits)

subsection \<open>What is written where\<close>

lemma explained_bind: "explained m \<Longrightarrow> (\<And>x. explained (f x)) \<Longrightarrow> explained (bind_io m f)"
  by (cases m; cases "snd m") (auto simp: explained_def stop_explained_def)

lemma stop_explained_bind: "explained m \<Longrightarrow> (\<And>x. stop_explained (f x)) \<Longrightarrow> stop_explained (bind_io m f)"
  by (cases m; cases "snd m") (auto simp: explained_def stop_explained_def)

lemma explained_usage: "explained (client_print_usage prog, r)" "explained ([], Inr x)"
  by (simp_all add: explained_def stop_explained_def client_print_usage_def)

lemma explained_parse: "explained (set_io (dsm_parse_long_io (dsm_parse_set_usage client_print_usage prog) arg flag mn mx) f)"
proof -
  have "explained (dsm_parse_long_io (dsm_parse_set_usage client_print_usage prog) arg flag mn mx)"
    using explained_usage(1) [of prog]
    by (auto simp: explained_def stop_explained_def dsm_parse_long_io_def dsm_parse_set_usage_def DSM_LOG_ERROR_def Let_def split: prod.splits)
  then show ?thesis
    unfolding set_io_def by (rule explained_bind) (rule explained_usage)
qed

lemma explained_options: "explained (client_options_io (dsm_parse_set_usage client_print_usage prog) prog os cfg)"
proof (induction os arbitrary: cfg)
  case (Cons x os)
  have "explained (client_option_io (dsm_parse_set_usage client_print_usage prog) prog opt arg cfg)" for opt arg
    by (simp add: client_option_io_def explained_parse explained_usage)
  with Cons show ?case
    by (cases x) (simp add: explained_bind)
qed (simp add: explained_usage)

lemma explained_env: "explained (client_env_io env cfg)"
proof -
  have "list_all (\<lambda>x. fst x = Stderr) (fst (dsm_env_long_io env name d mn mx))" for name d mn mx
    by (auto simp: dsm_env_long_io_def DSM_LOG_WARN_def Let_def split: option.splits prod.splits)
  then show ?thesis
    by (simp add: explained_def stop_explained_def client_env_io_def Let_def case_prod_unfold)
qed

lemma explained_validate: "stop_explained (client_validate_io cfg)"
  by (simp add: stop_explained_def client_validate_io_def Let_def DSM_LOG_ERROR_def)

lemma client_front_explained: "stop_explained (client_front env prog args)"
  unfolding client_front_def
  by (intro stop_explained_bind explained_env explained_options explained_validate)

text \<open>An option loop that ends does so with status 1, or with 0 because it met \<open>-h\<close>.\<close>

lemma client_options_status: "client_options os cfg = Inl st \<Longrightarrow> st = 1 \<or> st = 0 \<and> CHR ''h'' \<in> fst ` set os"
proof (induction os cfg rule: client_options.induct)
  case (2 opt arg rest cfg)
  have "st = 1 \<or> st = 0 \<and> opt = CHR ''h''" if "client_option opt arg cfg = Inl st"
    using that by (auto simp: client_option_def checked_def split: option.splits if_splits)
  with 2 show ?case by (auto split: sum.splits)
qed simp

lemma client_validate_status: "client_validate cfg = Inl st \<Longrightarrow> st = 1"
  by (auto simp: client_validate_def Let_def split: if_splits)

text \<open>
  A server that refuses to start has written something too, but its usage message goes to
  \<open>stdout\<close>.
\<close>

lemma stop_written_bind: "stop_written m \<Longrightarrow> (\<And>x. stop_written (f x)) \<Longrightarrow> stop_written (bind_io m f)"
  by (cases m; cases "snd m") (auto simp: stop_written_def)

lemma server_options_written: "stop_written (server_options_io u prog os c)"
proof (induction os arbitrary: c)
  case (Cons x os)
  have "stop_written (set_io (dsm_parse_long_io u arg flag mn mx) f)" for arg flag mn mx and f :: "int \<Rightarrow> dsm_server_config \<times> cluster_config"
    unfolding set_io_def
    by (rule stop_written_bind) (auto simp: stop_written_def dsm_parse_long_io_def DSM_LOG_ERROR_def Let_def split: prod.splits)
  then have "stop_written (server_option_io u prog opt arg c)" for opt arg
    by (simp add: server_option_io_def server_print_usage_def case_prod_unfold split: option.split)
      (simp add: stop_written_def)
  with Cons show ?case
    by (cases x) (simp add: stop_written_bind)
qed (simp add: stop_written_def)

lemma server_front_written: "stop_written (server_front env prog args)"
  unfolding server_front_def
  by (intro stop_written_bind server_options_written) (simp_all add: stop_written_def snd_server_env_io snd_cluster_env_io)

lemma server_options_status: "server_options os c = Inl st \<Longrightarrow> st = 1 \<or> st = 0 \<and> CHR ''h'' \<in> fst ` set os"
proof (induction os c rule: server_options.induct)
  case (2 opt arg rest c)
  have "st = 1 \<or> st = 0 \<and> opt = CHR ''h''" if "server_option opt arg c = Inl st"
    using that by (auto simp: server_option_def checked_def split: option.splits if_splits prod.splits)
  with 2 show ?case by (auto split: sum.splits)
qed simp

lemma server_failure_reported:
  assumes "server_front env prog args = (out, Inl st)"
  shows "(st = 0 \<or> st = 1) \<and> out \<noteq> [] \<and> (st = 0 \<longrightarrow> CHR ''h'' \<in> fst ` set (server_getopt env args))"
  using server_front_written [of env prog args] snd_server_front [of env prog args] assms
  by (auto simp: stop_written_def dest!: sym [THEN server_options_status])

text \<open>The report never divides by zero: only quotients with a divisor are formatted.\<close>

lemma benchmark_report_defined:
  assumes "\<And>k a b. b \<noteq> 0 \<Longrightarrow> fmt k a b = fmt' k a b"
  shows "benchmark_report fmt cfg total_ns c = benchmark_report fmt' cfg total_ns c"
proof -
  have "(ucast n :: u64) \<noteq> 0" if "n \<noteq> 0" for n :: u32
    using that unat_ucast_u64 [of n] by (auto simp: unat_eq_0)
  then show ?thesis
    using assms by (simp add: benchmark_report_def Let_def word_greater_zero_iff)
qed

subsection \<open>Reading back printed configurations\<close>

lemma decimal_inject:
  assumes "LONG_MIN \<le> m" "m \<le> LONG_MAX" "LONG_MIN \<le> n" "n \<le> LONG_MAX" and "decimal m = decimal n"
  shows "m = n"
proof -
  have "strtol (decimal m) = strtol (decimal n)" by (simp only: assms(5))
  then show ?thesis by (simp only: strtol_decimal [OF assms(1,2)] strtol_decimal [OF assms(3,4)] prod.inject)
qed

lemma decimal_uint_inject:
  fixes x y :: "'a::len word"
  assumes "LENGTH('a) \<le> 32"
  shows "decimal (uint x) = decimal (uint y) \<longleftrightarrow> x = y"
proof -
  have "(2 :: int) ^ LENGTH('a) \<le> 2 ^ 32"
    using assms by (intro power_increasing) simp_all
  also have "(2 :: int) ^ 32 = 4294967296" by simp
  finally have "LONG_MIN \<le> uint z" "uint z \<le> LONG_MAX" for z :: "'a word"
    using uint_bounded [of z] uint_ge_0 [of z] unfolding LONG_MIN_def LONG_MAX_def by linarith+
  then show ?thesis
    using decimal_inject [of "uint x" "uint y"] by (auto simp: word_uint_eq_iff)
qed

lemma truth_inject [simp]: "truth a = truth b \<longleftrightarrow> a = b"
  by (simp add: truth_def)

lemma default_decimals:
  "decimal 9999 = ''9999''" "decimal 100000 = ''100000''" "decimal 80 = ''80''" "decimal 10 = ''10''" "decimal 256 = ''256''"
  "decimal 1024 = ''1024''"
  by (simp_all add: decimal_def nat_digits.simps char_of_def bit_0)

lemma getopt_unknown: "client_getopt (\<lambda>_. None) [''-x''] = [(CHR ''?'', [])]"
  by (simp add: client_getopt_def getopt_short_word client_short_options_def)

lemmas print_simps = DSM_LOG_INFO_def decimal_uint_inject

subsection \<open>Properties\<close>

text \<open>
  C39. A client that refuses to start says why. Whatever the environment and the command
  line, if the client ends before it connects its status is 0 or 1, it has written to
  \<open>stderr\<close> and nothing to \<open>stdout\<close>, and the status is 0 only if help was asked for.
\<close>

theorem client_failure_reported:
  assumes "client_front env prog args = (out, Inl st)"
  shows "(st = 0 \<or> st = 1) \<and> out \<noteq> [] \<and> list_all (\<lambda>x. fst x = Stderr) out \<and>
    (st = 0 \<longrightarrow> CHR ''h'' \<in> fst ` set (client_getopt env args))"
proof -
  have "st = 1 \<or> st = 0 \<and> CHR ''h'' \<in> fst ` set (client_getopt env args)"
    using snd_client_front [of env prog args] assms client_options_status client_validate_status
    by (auto split: sum.splits)
  moreover have "out \<noteq> [] \<and> list_all (\<lambda>x. fst x = Stderr) out"
    using client_front_explained [of env prog args] assms by (simp add: stop_explained_def)
  ultimately show ?thesis by auto
qed

theorem client_failure_reported_witness:
  "\<exists>out. client_front (\<lambda>_. None) ''dsm_client'' [''-x''] = (out, Inl 1) \<and> out \<noteq> [] \<and> list_all (\<lambda>x. fst x = Stderr) out"
proof -
  obtain out where "client_front (\<lambda>_. None) ''dsm_client'' [''-x''] = (out, Inl 1)"
    using snd_client_front [of "\<lambda>_. None" "''dsm_client''" "[''-x'']"]
    by (cases "client_front (\<lambda>_. None) ''dsm_client'' [''-x'']") (simp add: getopt_unknown client_option_def)
  with client_failure_reported [OF this] show ?thesis by blast
qed

text \<open>
  Printed configurations are complete: two client configurations with a host, and two
  server configurations with an address, are printed alike only if they are equal.
\<close>

lemma printed_config_determines:
  "(dsm_client_config_print (cfg\<lparr>cc_host := Some h\<rparr>) = dsm_client_config_print (cfg'\<lparr>cc_host := Some h'\<rparr>) \<longleftrightarrow>
      cfg\<lparr>cc_host := Some h\<rparr> = cfg'\<lparr>cc_host := Some h'\<rparr>) \<and>
   (dsm_server_config_print (scfg\<lparr>sc_bind_addr := Some a\<rparr>) = dsm_server_config_print (scfg'\<lparr>sc_bind_addr := Some a'\<rparr>) \<longleftrightarrow>
      scfg\<lparr>sc_bind_addr := Some a\<rparr> = scfg'\<lparr>sc_bind_addr := Some a'\<rparr>)"
  by (cases cfg; cases cfg'; cases scfg; cases scfg')
    (auto simp: dsm_client_config_print_def dsm_server_config_print_def print_simps)

text \<open>
  The usage messages are true: each names every option of the program's table in its
  short and long form, and the defaults they state are those of the default configurations.
\<close>

lemma usage_complete:
  "list_all (documents (client_print_usage prog)) client_long_options \<and>
   list_all (documents (server_print_usage prog)) server_long_options \<and>
   list_all (documents_default (client_print_usage prog))
     (zip client_long_options
       [the (cc_host dsm_client_config_default), decimal (uint (cc_port dsm_client_config_default)),
        decimal (uint (cc_num_pages dsm_client_config_default)), decimal (uint (cc_num_virtual_pages dsm_client_config_default)),
        decimal (uint (cc_num_iterations dsm_client_config_default)), decimal (uint (cc_locality_percent dsm_client_config_default)),
        decimal (uint (cc_write_percent dsm_client_config_default))]) \<and>
   list_all (documents_default (server_print_usage prog))
     (zip server_long_options
       [decimal (uint (sc_port dsm_server_config_default)), the (sc_bind_addr dsm_server_config_default)])"
proof (intro conjI)
  note defs = documents_def documents_default_def suffix_to_prefix default_decimals DEFAULT_PORT_def DEFAULT_HOST_def
    dsm_client_config_default_def dsm_server_config_default_def
  note client = client_long_options_def client_print_usage_def and server = server_long_options_def server_print_usage_def
  show "list_all (documents (client_print_usage prog)) client_long_options"
    by (simp add: defs client)
  show "list_all (documents (server_print_usage prog)) server_long_options"
    by (simp add: defs server)
  show "list_all (documents_default (client_print_usage prog))
     (zip client_long_options
       [the (cc_host dsm_client_config_default), decimal (uint (cc_port dsm_client_config_default)),
        decimal (uint (cc_num_pages dsm_client_config_default)), decimal (uint (cc_num_virtual_pages dsm_client_config_default)),
        decimal (uint (cc_num_iterations dsm_client_config_default)), decimal (uint (cc_locality_percent dsm_client_config_default)),
        decimal (uint (cc_write_percent dsm_client_config_default))])"
    by (simp add: defs client)
  show "list_all (documents_default (server_print_usage prog))
     (zip server_long_options
       [decimal (uint (sc_port dsm_server_config_default)), the (sc_bind_addr dsm_server_config_default)])"
    by (simp add: defs server)
qed

end
