(* ===== verification/DSM_Threads.thy ===== *)
theory DSM_Threads
  imports DSM_Node
begin

section \<open>Client threads at the same time (dsm\_server.c)\<close>

text \<open>
  The client threads of a server share the storage without a lock. The \<open>memcpy\<close> of a PUT is not
  atomic, and a GET hands the kernel a pointer into the storage, which copies the page out as it
  goes. Here a thread is the sequence of byte accesses its requests make, and a schedule says
  which thread moves next. As long as no thread writes a page that another one uses,
  every thread sends what it would send alone and the storage ends up as if the requests
  had been served one after the other, which is what the model of a request as one
  step assumes. Two PUTs of one page may mix, and a GET may return a mixture as well.
\<close>

subsection \<open>Definitions\<close>

text \<open>The accesses to the storage that a request makes.\<close>

datatype access = StoreByte nat u8 | LoadByte nat

definition put_copy :: "u32 \<Rightarrow> bytes \<Rightarrow> access list" where
  "put_copy pid page_buf = map (\<lambda>i. StoreByte (storage_offset pid + i) (page_buf ! i)) [0..<length page_buf]"

definition get_copy :: "u32 \<Rightarrow> access list" where
  "get_copy pid = map (\<lambda>i. LoadByte (storage_offset pid + i)) [0..<PAGE_SIZE]"

fun request_accesses :: "request \<Rightarrow> access list" where
  "request_accesses (Get pid) = get_copy pid"
| "request_accesses (Put pid page_buf) = put_copy pid page_buf"

definition thread_accesses :: "request list \<Rightarrow> access list" where
  "thread_accesses rqs = concat (map request_accesses rqs)"

text \<open>Threads with the accesses they have left and the bytes they have loaded; a schedule names who moves.\<close>

type_synonym running_thread = "access list \<times> bytes"

fun step_thread :: "running_thread \<Rightarrow> bytes \<Rightarrow> running_thread \<times> bytes" where
  "step_thread ([], got) m = (([], got), m)"
| "step_thread (StoreByte a b # rest, got) m = ((rest, got), m[a := b])"
| "step_thread (LoadByte a # rest, got) m = ((rest, got @ [m ! a]), m)"

fun run_threads :: "nat list \<Rightarrow> running_thread list \<Rightarrow> bytes \<Rightarrow> running_thread list \<times> bytes" where
  "run_threads [] ts m = (ts, m)"
| "run_threads (t # sched) ts m =
     (if t < length ts
      then (let (th, m) = step_thread (ts ! t) m in run_threads sched (ts[t := th]) m)
      else run_threads sched ts m)"

definition start_thread :: "access list \<Rightarrow> running_thread" where
  "start_thread xs = (xs, [])"

definition finished :: "running_thread list \<Rightarrow> bool" where
  "finished ts \<longleftrightarrow> list_all (\<lambda>th. fst th = []) ts"

text \<open>A sequence of accesses on its own: what it leaves in the storage and what it loads.\<close>

fun store_all :: "bytes \<Rightarrow> access list \<Rightarrow> bytes" where
  "store_all m [] = m"
| "store_all m (StoreByte a b # xs) = store_all (m[a := b]) xs"
| "store_all m (LoadByte a # xs) = store_all m xs"

fun load_all :: "bytes \<Rightarrow> access list \<Rightarrow> bytes" where
  "load_all m [] = []"
| "load_all m (StoreByte a b # xs) = load_all (m[a := b]) xs"
| "load_all m (LoadByte a # xs) = m ! a # load_all m xs"

text \<open>The requests one after the other: the pages that are sent, and the storage.\<close>

fun serve_alone :: "request list \<Rightarrow> bytes \<Rightarrow> bytes \<times> bytes" where
  "serve_alone [] m = ([], m)"
| "serve_alone (Get p # rqs) m =
     (let (sent, m') = serve_alone rqs m in (mem_read m (storage_offset p) PAGE_SIZE @ sent, m'))"
| "serve_alone (Put p d # rqs) m = serve_alone rqs (mem_write m (storage_offset p) d)"

text \<open>Addresses and pages that are written and used, and threads that do not get in each other's way.\<close>

definition written :: "access list \<Rightarrow> nat set" where
  "written xs = {a. \<exists>b. StoreByte a b \<in> set xs}"

definition loaded :: "access list \<Rightarrow> nat set" where
  "loaded xs = {a. LoadByte a \<in> set xs}"

definition race_free :: "access list list \<Rightarrow> bool" where
  "race_free ts \<longleftrightarrow> (\<forall>i < length ts. \<forall>j < length ts. i \<noteq> j \<longrightarrow> written (ts ! i) \<inter> (written (ts ! j) \<union> loaded (ts ! j)) = {})"

definition put_pages :: "request list \<Rightarrow> u32 set" where
  "put_pages rqs = {p. \<exists>d. Put p d \<in> set rqs}"

definition get_pages :: "request list \<Rightarrow> u32 set" where
  "get_pages rqs = {p. Get p \<in> set rqs}"

definition partitioned :: "request list list \<Rightarrow> bool" where
  "partitioned rs \<longleftrightarrow> (\<forall>i < length rs. \<forall>j < length rs. i \<noteq> j \<longrightarrow> put_pages (rs ! i) \<inter> (put_pages (rs ! j) \<union> get_pages (rs ! j)) = {})"

definition fits :: "bytes \<Rightarrow> request \<Rightarrow> bool" where
  "fits m rq \<longleftrightarrow> (case rq of Get p \<Rightarrow> storage_offset p + PAGE_SIZE \<le> length m
     | Put p d \<Rightarrow> length d = PAGE_SIZE \<and> storage_offset p + PAGE_SIZE \<le> length m)"

text \<open>
  What a thread has loaded in the end if nobody interferes; and, whoever does, a thread that
  loads the addresses \<open>A\<close> and has so far got one of the values that \<open>V\<close> allows at each.
\<close>

definition outcome_of :: "running_thread \<Rightarrow> bytes \<Rightarrow> bytes" where
  "outcome_of th m = snd th @ load_all m (fst th)"

fun load_addresses :: "access list \<Rightarrow> nat list" where
  "load_addresses [] = []"
| "load_addresses (StoreByte a b # xs) = load_addresses xs"
| "load_addresses (LoadByte a # xs) = a # load_addresses xs"

definition traced :: "(nat \<Rightarrow> u8 set) \<Rightarrow> nat list \<Rightarrow> running_thread \<Rightarrow> bool" where
  "traced V A th \<longleftrightarrow> (\<exists>pre. A = pre @ load_addresses (fst th) \<and> list_all2 (\<lambda>a v. v \<in> V a) pre (snd th))"

definition allowed :: "(nat \<Rightarrow> u8 set) \<Rightarrow> bytes \<Rightarrow> running_thread list \<Rightarrow> bool" where
  "allowed V m ts \<longleftrightarrow> (\<forall>a < length m. m ! a \<in> V a) \<and>
     (\<forall>th \<in> set ts. (\<forall>a b. StoreByte a b \<in> set (fst th) \<longrightarrow> b \<in> V a) \<and> set (load_addresses (fst th)) \<subseteq> {..<length m})"

subsection \<open>A thread on its own\<close>

lemma store_all_append [simp]: "store_all m (xs @ ys) = store_all (store_all m xs) ys"
  by (induction m xs rule: store_all.induct) simp_all

lemma load_all_append [simp]: "load_all m (xs @ ys) = load_all m xs @ load_all (store_all m xs) ys"
  by (induction m xs rule: load_all.induct) simp_all

lemma length_store_all [simp]: "length (store_all m xs) = length m"
  by (induction m xs rule: store_all.induct) simp_all

lemma written_simps [simp]:
  "written [] = {}" "written (StoreByte a b # xs) = insert a (written xs)" "written (LoadByte a # xs) = written xs"
  "written (xs @ ys) = written xs \<union> written ys"
  by (auto simp: written_def)

lemma loaded_simps [simp]:
  "loaded [] = {}" "loaded (StoreByte a b # xs) = loaded xs" "loaded (LoadByte a # xs) = insert a (loaded xs)"
  "loaded (xs @ ys) = loaded xs \<union> loaded ys"
  by (auto simp: loaded_def)

lemma store_all_commute: "a \<notin> written xs \<Longrightarrow> store_all (m[a := b]) xs = (store_all m xs)[a := b]"
  by (induction m xs rule: store_all.induct) (auto simp: list_update_swap)

lemma load_all_other: "a \<notin> loaded xs \<Longrightarrow> load_all (m[a := b]) xs = load_all m xs"
proof (induction m xs arbitrary: rule: load_all.induct)
  case (2 m a' b' xs)
  then show ?case by (cases "a = a'") (simp_all add: list_update_swap)
qed auto

lemma store_all_nth_other: "i \<notin> written xs \<Longrightarrow> store_all m xs ! i = m ! i"
  by (induction m xs rule: store_all.induct) (auto simp: nth_list_update)

lemma map_addresses:
  "written (map (\<lambda>i. StoreByte (f i) (g i)) is) = f ` set is" "loaded (map (\<lambda>i. StoreByte (f i) (g i)) is) = {}"
  "written (map (\<lambda>i. LoadByte (f i)) is) = {}" "loaded (map (\<lambda>i. LoadByte (f i)) is) = f ` set is"
  by (induction "is") simp_all

lemma copies_addresses:
  "written (put_copy p d) = {storage_offset p ..< storage_offset p + length d}" "loaded (put_copy p d) = {}"
  "written (get_copy p) = {}" "loaded (get_copy p) = {storage_offset p ..< storage_offset p + PAGE_SIZE}"
  by (simp_all add: put_copy_def get_copy_def map_addresses add.commute)

lemma load_all_put_copy [simp]: "load_all m (map (\<lambda>i. StoreByte (f i) (g i)) is) = []"
  by (induction "is" arbitrary: m) simp_all

lemma load_all_get_copy: "load_all m (map (\<lambda>i. LoadByte (f i)) is) = map (\<lambda>i. m ! f i) is" "store_all m (map (\<lambda>i. LoadByte (f i)) is) = m"
  by (induction "is") simp_all

lemma store_put_copy:
  assumes "storage_offset p + length d \<le> length m"
  shows "store_all m (put_copy p d) = mem_write m (storage_offset p) d"
proof -
  have "store_all m (map (\<lambda>i. StoreByte (off + i) (d ! i)) [0..<k]) = mem_write m off (take k d)"
    if "k \<le> length d" "off + length d \<le> length m" for k off
    using that
  proof (induction k)
    case (Suc k)
    then show ?case
      by (intro nth_equalityI) (auto simp: mem_simps mem_write_nth nth_list_update)
  qed simp
  from this [OF order_refl assms] show ?thesis by (simp add: put_copy_def)
qed

lemma load_page: "storage_offset p + PAGE_SIZE \<le> length m \<Longrightarrow> load_all m (get_copy p) = mem_read m (storage_offset p) PAGE_SIZE"
  by (intro nth_equalityI) (simp_all add: get_copy_def load_all_get_copy mem_read_def)

lemma thread_alone:
  assumes "\<forall>rq \<in> set rqs. fits m rq"
  shows "(load_all m (thread_accesses rqs), store_all m (thread_accesses rqs)) = serve_alone rqs m"
  using assms
proof (induction rqs m rule: serve_alone.induct)
  case (2 p rqs m)
  then have "storage_offset p + PAGE_SIZE \<le> length m" by (simp add: fits_def)
  then have "load_all m (get_copy p) = mem_read m (storage_offset p) PAGE_SIZE" "store_all m (get_copy p) = m"
    by (simp_all add: load_page) (simp add: get_copy_def load_all_get_copy)
  with 2 show ?case by (simp add: thread_accesses_def case_prod_unfold prod_eq_iff Let_def)
next
  case (3 p d rqs m)
  then have p: "storage_offset p + length d \<le> length m" by (simp add: fits_def)
  moreover have "fits (mem_write m (storage_offset p) d) rq = fits m rq" for rq
    using p by (cases rq) (simp_all add: fits_def length_mem_write)
  ultimately show ?case
    using 3 store_put_copy [OF p] by (simp add: thread_accesses_def put_copy_def)
qed (simp add: thread_accesses_def)

subsection \<open>Schedules\<close>

lemma race_free_step:
  assumes "race_free ts" and "t < length ts" and "written xs \<subseteq> written (ts ! t)" and "loaded xs \<subseteq> loaded (ts ! t)"
  shows "race_free (ts[t := xs])"
proof -
  have "written (ts[t := xs] ! i) \<subseteq> written (ts ! i)" "loaded (ts[t := xs] ! i) \<subseteq> loaded (ts ! i)" for i
    using assms(2-4) by (cases "i = t"; simp)+
  with assms(1) show ?thesis
    unfolding race_free_def length_list_update by fast
qed

lemma written_concat: "written (concat xss) = (\<Union>xs \<in> set xss. written xs)"
  by (induction xss) auto

text \<open>The first access of a thread may as well be made before all the others.\<close>

lemma concat_first_store:
  assumes "t < length ts" and "ts ! t = StoreByte a b # xs" and "race_free ts"
  shows "store_all (m[a := b]) (concat (ts[t := xs])) = store_all m (concat ts)"
proof -
  have ts: "ts = take t ts @ (StoreByte a b # xs) # drop (Suc t) ts"
    using assms(1,2) id_take_nth_drop by metis
  then have upd: "ts[t := xs] = take t ts @ xs # drop (Suc t) ts"
    using assms(1) by (metis upd_conv_take_nth_drop)
  have "a \<notin> written (ts ! i)" if "i < t" for i
  proof -
    have "written (ts ! t) \<inter> (written (ts ! i) \<union> loaded (ts ! i)) = {}"
      using assms(1,3) that by (simp add: race_free_def)
    then show ?thesis using assms(2) by auto
  qed
  moreover have "set (take t ts) = (!) ts ` {..<t}"
    using assms(1) by (simp add: nth_image atLeast0LessThan [symmetric])
  ultimately have "a \<notin> written (concat (take t ts))"
    by (auto simp: written_concat)
  then show ?thesis
    unfolding upd by (subst (2) ts) (simp add: store_all_commute)
qed

lemma concat_first_load:
  assumes "t < length ts" and "ts ! t = LoadByte a # xs"
  shows "store_all m (concat (ts[t := xs])) = store_all m (concat ts)"
proof -
  have "ts = take t ts @ (LoadByte a # xs) # drop (Suc t) ts"
    using assms id_take_nth_drop by metis
  then have "concat ts = concat (take t ts) @ (LoadByte a # xs) @ concat (drop (Suc t) ts)"
    by (metis concat.simps(2) concat_append)
  moreover have "concat (ts[t := xs]) = concat (take t ts) @ xs @ concat (drop (Suc t) ts)"
    using assms(1) by (simp add: upd_conv_take_nth_drop)
  ultimately show ?thesis
    by (simp only: store_all_append store_all.simps)
qed

text \<open>A step keeps what the threads leave in the end, and what each has loaded in the end.\<close>

lemma step_race_free:
  assumes t: "t < length ts" and rf: "race_free (map fst ts)" and st: "step_thread (ts ! t) m = (th, m')"
  shows "race_free (map fst (ts[t := th]))"
    and "store_all m' (concat (map fst (ts[t := th]))) = store_all m (concat (map fst ts))"
    and "j < length ts \<Longrightarrow> outcome_of (ts[t := th] ! j) m' = outcome_of (ts ! j) m"
proof -
  obtain xs got where x: "ts ! t = (xs, got)" by (cases "ts ! t")
  have n: "map fst ts ! t = xs" "t < length (map fst ts)" using x t by simp_all
  have upd: "map fst (ts[t := (xs', got')]) = (map fst ts)[t := xs']" for xs' got'
    by (simp add: map_update)
  have "race_free (map fst (ts[t := th])) \<and> store_all m' (concat (map fst (ts[t := th]))) = store_all m (concat (map fst ts)) \<and>
    (j < length ts \<longrightarrow> outcome_of (ts[t := th] ! j) m' = outcome_of (ts ! j) m)"
  proof (cases xs)
    case Nil
    then have "th = ts ! t" "m' = m" using st x by auto
    with rf show ?thesis by simp
  next
    case (Cons y ys)
    show ?thesis
    proof (cases y)
      case (StoreByte a b)
      then have th: "th = (ys, got)" "m' = m[a := b]" using st x Cons by auto
      have "a \<notin> loaded (fst (ts ! j))" if "j < length ts" "j \<noteq> t"
      proof -
        have "written (map fst ts ! t) \<inter> (written (map fst ts ! j) \<union> loaded (map fst ts ! j)) = {}"
          using rf that t by (simp add: race_free_def del: nth_map)
        then show ?thesis using n(1) Cons StoreByte that t by auto
      qed
      then have "j < length ts \<longrightarrow> outcome_of (ts[t := th] ! j) m' = outcome_of (ts ! j) m"
        using x th Cons StoreByte t by (cases "j = t") (auto simp: outcome_of_def load_all_other)
      with race_free_step [OF rf n(2), of ys] concat_first_store [OF n(2) _ rf, of a b ys] n(1) Cons StoreByte th show ?thesis
        by (auto simp: upd)
    next
      case (LoadByte a)
      then have th: "th = (ys, got @ [m ! a])" "m' = m" using st x Cons by auto
      have "j < length ts \<longrightarrow> outcome_of (ts[t := th] ! j) m' = outcome_of (ts ! j) m"
        using x th Cons LoadByte t by (cases "j = t") (auto simp: outcome_of_def)
      with race_free_step [OF rf n(2), of ys] concat_first_load [OF n(2), of a ys] n(1) Cons LoadByte th show ?thesis
        by (auto simp: upd)
    qed
  qed
  then show "race_free (map fst (ts[t := th]))"
    "store_all m' (concat (map fst (ts[t := th]))) = store_all m (concat (map fst ts))"
    "j < length ts \<Longrightarrow> outcome_of (ts[t := th] ! j) m' = outcome_of (ts ! j) m"
    by blast+
qed

lemma run_race_free:
  assumes "run_threads sched ts m = (ts', m')" and "race_free (map fst ts)"
  shows "store_all m' (concat (map fst ts')) = store_all m (concat (map fst ts)) \<and> length ts' = length ts \<and>
    (\<forall>j < length ts. outcome_of (ts' ! j) m' = outcome_of (ts ! j) m)"
  using assms
proof (induction sched arbitrary: ts m)
  case (Cons t sched)
  show ?case
  proof (cases "t < length ts")
    case True
    obtain th m1 where st: "step_thread (ts ! t) m = (th, m1)" by fastforce
    note s = step_race_free [OF True Cons.prems(2) st]
    have "run_threads sched (ts[t := th]) m1 = (ts', m')"
      using Cons.prems(1) True st by simp
    from Cons.IH [OF this s(1)] s(2,3) show ?thesis by simp
  next
    case False
    with Cons show ?thesis by simp
  qed
qed simp

lemma finished_threads: "finished ts \<Longrightarrow> concat (map fst ts) = []" "finished ts \<Longrightarrow> j < length ts \<Longrightarrow> outcome_of (ts ! j) m = snd (ts ! j)"
  by (auto simp: finished_def list_all_iff outcome_of_def)

lemma thread_accesses_pages:
  assumes "\<forall>rq \<in> set rqs. fits m rq"
  shows "written (thread_accesses rqs) = (\<Union>p \<in> put_pages rqs. {storage_offset p ..< storage_offset p + PAGE_SIZE})"
    and "loaded (thread_accesses rqs) = (\<Union>p \<in> get_pages rqs. {storage_offset p ..< storage_offset p + PAGE_SIZE})"
proof -
  have "written (thread_accesses rqs) = (\<Union>p \<in> put_pages rqs. {storage_offset p ..< storage_offset p + PAGE_SIZE}) \<and>
    loaded (thread_accesses rqs) = (\<Union>p \<in> get_pages rqs. {storage_offset p ..< storage_offset p + PAGE_SIZE})"
    using assms
  proof (induction rqs)
    case (Cons rq rqs)
    have "put_pages (rq # rqs) = (case rq of Get p \<Rightarrow> {} | Put p d \<Rightarrow> {p}) \<union> put_pages rqs"
      "get_pages (rq # rqs) = (case rq of Get p \<Rightarrow> {p} | Put p d \<Rightarrow> {}) \<union> get_pages rqs"
      by (cases rq; auto simp: put_pages_def get_pages_def)+
    with Cons show ?case
      by (cases rq) (simp_all add: thread_accesses_def copies_addresses fits_def)
  qed (simp add: thread_accesses_def put_pages_def get_pages_def)
  then show "written (thread_accesses rqs) = (\<Union>p \<in> put_pages rqs. {storage_offset p ..< storage_offset p + PAGE_SIZE})"
    "loaded (thread_accesses rqs) = (\<Union>p \<in> get_pages rqs. {storage_offset p ..< storage_offset p + PAGE_SIZE})"
    by blast+
qed

lemma partitioned_race_free:
  assumes "partitioned rs" and "\<forall>rq \<in> set (concat rs). fits m rq"
  shows "race_free (map thread_accesses rs)"
proof -
  have dis: "(\<Union>p \<in> A. {storage_offset p ..< storage_offset p + PAGE_SIZE}) \<inter> (\<Union>p \<in> B. {storage_offset p ..< storage_offset p + PAGE_SIZE}) = {}"
    if "A \<inter> B = {}" for A B
  proof (rule ccontr)
    assume "\<not> ?thesis"
    then obtain p q x where "p \<in> A" "q \<in> B" "storage_offset p \<le> x" "x < storage_offset p + PAGE_SIZE"
      "storage_offset q \<le> x" "x < storage_offset q + PAGE_SIZE" by auto
    with storage_disjoint [of p q] that show False by (cases "p = q") auto
  qed
  have f: "\<forall>rq \<in> set (rs ! i). fits m rq" if "i < length rs" for i
    using assms(2) nth_mem [OF that] by auto
  show ?thesis
    unfolding race_free_def length_map
  proof (intro allI impI)
    fix i j assume ij: "i < length rs" "j < length rs" "i \<noteq> j"
    then have "put_pages (rs ! i) \<inter> (put_pages (rs ! j) \<union> get_pages (rs ! j)) = {}"
      using assms(1) by (simp add: partitioned_def)
    from dis [OF this] show "written (map thread_accesses rs ! i) \<inter>
        (written (map thread_accesses rs ! j) \<union> loaded (map thread_accesses rs ! j)) = {}"
      using ij by (simp add: thread_accesses_pages [OF f] UN_Un)
  qed
qed

subsection \<open>Threads that interfere\<close>

lemma store_nth: "a < length m \<Longrightarrow> m[c := b] ! a = (if c = a then b else m ! a)"
  by simp

lemma allowed_update:
  assumes "allowed V m ts" and "\<And>a. a < length m \<Longrightarrow> m' ! a \<in> V a" and "length m' = length m"
    and "set xs' \<subseteq> set xs" and "(xs, got) \<in> set ts" and "set (load_addresses xs') \<subseteq> set (load_addresses xs)"
  shows "allowed V m' (ts[t := (xs', got')])"
proof -
  have old: "(\<forall>a b. StoreByte a b \<in> set (fst th) \<longrightarrow> b \<in> V a) \<and> set (load_addresses (fst th)) \<subseteq> {..<length m}"
    if "th \<in> set ts" for th
    using assms(1) that unfolding allowed_def by blast
  have "(\<forall>a b. StoreByte a b \<in> set xs' \<longrightarrow> b \<in> V a) \<and> set (load_addresses xs') \<subseteq> {..<length m}"
    using old [OF assms(5)] assms(4,6) unfolding fst_conv by blast
  with old have "(\<forall>a b. StoreByte a b \<in> set (fst th) \<longrightarrow> b \<in> V a) \<and> set (load_addresses (fst th)) \<subseteq> {..<length m'}"
    if "th \<in> set (ts[t := (xs', got')])" for th
    using set_update_subset_insert [THEN subsetD, OF that] assms(3) by (cases "th = (xs', got')") auto
  then show ?thesis
    unfolding allowed_def using assms(2,3) by auto
qed

lemma allowed_step:
  assumes al: "allowed V m ts" and t: "t < length ts" and st: "step_thread (ts ! t) m = (th, m')"
  shows "allowed V m' (ts[t := th])" and "traced V A (ts ! t) \<Longrightarrow> traced V A th"
proof -
  obtain xs got where x: "ts ! t = (xs, got)" by (cases "ts ! t")
  have inx: "(xs, got) \<in> set ts" using x t nth_mem by metis
  have mem: "m ! a \<in> V a" if "a < length m" for a
    using al that by (simp add: allowed_def)
  have own: "(\<forall>a b. StoreByte a b \<in> set xs \<longrightarrow> b \<in> V a) \<and> set (load_addresses xs) \<subseteq> {..<length m}"
    using al inx unfolding allowed_def by fastforce
  have "allowed V m' (ts[t := th]) \<and> (traced V A (xs, got) \<longrightarrow> traced V A th)"
  proof (cases xs)
    case Nil
    then have "th = (xs, got)" "m' = m" using st x by simp_all
    with x al show ?thesis by (metis list_update_id)
  next
    case (Cons y ys)
    show ?thesis
    proof (cases y)
      case (StoreByte c b)
      then have th: "th = (ys, got)" "m' = m[c := b]" using st x Cons by simp_all
      have "m' ! a \<in> V a" if "a < length m" for a
        using that mem own Cons StoreByte by (auto simp: th store_nth)
      from allowed_update [OF al this _ _ inx, where xs' = ys] th Cons StoreByte show ?thesis
        by (auto simp: traced_def)
    next
      case (LoadByte a)
      then have th: "th = (ys, got @ [m ! a])" "m' = m" using st x Cons by auto
      have "m ! a \<in> V a" using mem own Cons LoadByte by simp
      moreover have "traced V A th" if "A = pre @ a # load_addresses ys" "list_all2 (\<lambda>a v. v \<in> V a) pre got" "m ! a \<in> V a" for pre
        unfolding traced_def th(1) using that by (intro exI [of _ "pre @ [a]"]) (simp add: list_all2_appendI)
      ultimately have "traced V A (xs, got) \<longrightarrow> traced V A th"
        unfolding Cons LoadByte traced_def [of V A "(LoadByte a # ys, got)"] fst_conv snd_conv load_addresses.simps by blast
      with allowed_update [OF al mem _ _ inx, where xs' = ys] th Cons LoadByte show ?thesis
        by auto
    qed
  qed
  then show "allowed V m' (ts[t := th])" "traced V A (ts ! t) \<Longrightarrow> traced V A th"
    unfolding x by blast+
qed

lemma run_traced:
  assumes "run_threads sched ts m = (ts', m')" and "allowed V m ts" and "j < length ts" and "traced V A (ts ! j)"
  shows "traced V A (ts' ! j) \<and> allowed V m' ts' \<and> length m' = length m \<and> length ts' = length ts"
  using assms
proof (induction sched arbitrary: ts m)
  case (Cons t sched)
  show ?case
  proof (cases "t < length ts")
    case True
    obtain th m1 where st: "step_thread (ts ! t) m = (th, m1)" by fastforce
    note s = allowed_step [OF Cons.prems(2) True st]
    have "length m1 = length m"
      using st by (cases "(ts ! t, m)" rule: step_thread.cases) auto
    moreover have "run_threads sched (ts[t := th]) m1 = (ts', m')"
      using Cons.prems(1) True st by simp
    moreover have "traced V A (ts[t := th] ! j)"
      using Cons.prems(3,4) s(2) by (cases "j = t") auto
    ultimately show ?thesis
      using Cons.IH [of "ts[t := th]" m1] s(1) Cons.prems(3) by simp
  next
    case False
    with Cons show ?thesis by simp
  qed
qed simp

lemma run_length: "run_threads sched ts m = (ts', m') \<Longrightarrow> length m' = length m"
proof (induction sched arbitrary: ts m)
  case (Cons t sched)
  have "length (snd (step_thread (ts ! t) m)) = length m"
    by (cases "(ts ! t, m)" rule: step_thread.cases) auto
  with Cons show ?case by (auto simp: case_prod_unfold Let_def split: if_splits)
qed simp

lemma load_addresses_map:
  "load_addresses (map (\<lambda>i. LoadByte (f i)) is) = map f is" "load_addresses (map (\<lambda>i. StoreByte (f i) (g i)) is) = []"
  by (induction "is") simp_all

lemma run_values:
  assumes "run_threads sched ts m = (ts', m')" and "finished ts'" and "a < length m"
    and "\<forall>th \<in> set ts. \<forall>b. StoreByte a b \<in> set (fst th) \<longrightarrow> b \<in> V" and "m ! a \<in> V \<or> (\<exists>th \<in> set ts. a \<in> written (fst th))"
  shows "m' ! a \<in> V"
  using assms
proof (induction sched arbitrary: ts m)
  case Nil
  then show ?case by (auto simp: finished_def list_all_iff)
next
  case (Cons t sched)
  show ?case
  proof (cases "t < length ts")
    case True
    obtain th m1 where st: "step_thread (ts ! t) m = (th, m1)" by fastforce
    obtain xs got where x: "ts ! t = (xs, got)" by (cases "ts ! t")
    have mem: "ts ! t \<in> set ts" using True by simp
    have r: "run_threads sched (ts[t := th]) m1 = (ts', m')" using Cons.prems(1) True st by simp
    have len: "a < length m1" using st Cons.prems(3) by (cases "(ts ! t, m)" rule: step_thread.cases) auto
    have sub: "set (fst th) \<subseteq> set xs"
      using st x by (cases "((xs, got), m)" rule: step_thread.cases) auto
    have own: "\<And>b. StoreByte a b \<in> set xs \<Longrightarrow> b \<in> V"
      using bspec [OF Cons.prems(4) mem] x by simp
    have vals: "\<forall>th \<in> set (ts[t := th]). \<forall>b. StoreByte a b \<in> set (fst th) \<longrightarrow> b \<in> V"
      using Cons.prems(4) own sub by (auto dest!: set_update_subset_insert [THEN subsetD])
    have cur: "m1 ! a \<in> V \<or> m1 ! a = m ! a \<and> (a \<in> written xs \<longrightarrow> a \<in> written (fst th))"
      using st x Cons.prems(3) own
      by (cases "((xs, got), m)" rule: step_thread.cases) (auto simp: store_nth split: if_splits)
    have "m1 ! a \<in> V \<or> (\<exists>th \<in> set (ts[t := th]). a \<in> written (fst th))"
    proof (cases "m1 ! a \<in> V")
      case False
      with cur Cons.prems(5) obtain u where u: "u \<in> set ts" "a \<in> written (fst u)" by auto
      then obtain i where i: "i < length ts" "ts ! i = u" by (metis in_set_conv_nth)
      show ?thesis
      proof (cases "i = t")
        case True
        with i u x cur False have "a \<in> written (fst th)" by auto
        then show ?thesis using \<open>t < length ts\<close> set_update_memI by metis
      next
        case False
        with i u have "u \<in> set (ts[t := th])" by (metis length_list_update nth_list_update_neq nth_mem)
        with u show ?thesis by blast
      qed
    qed simp
    from Cons.IH [OF r Cons.prems(2) len vals this] show ?thesis .
  next
    case False
    with Cons show ?thesis by simp
  qed
qed

lemma run_alone:
  assumes "t < length ts" and "ts ! t = (xs, got)"
  shows "run_threads (replicate (length xs) t @ sched) ts m =
    run_threads sched (ts[t := ([], got @ load_all m xs)]) (store_all m xs)"
  using assms
proof (induction xs arbitrary: ts got m)
  case Nil
  then show ?case by (metis append_Nil append_Nil2 length_0_conv list_update_id load_all.simps(1) replicate_0 list.size(3) store_all.simps(1))
next
  case (Cons x xs)
  obtain got' m' where st: "step_thread (x # xs, got) m = ((xs, got'), m')"
    and eq: "got' @ load_all m' xs = got @ load_all m (x # xs)" "store_all m' xs = store_all m (x # xs)"
    by (cases x) auto
  from Cons.IH [of "ts[t := (xs, got')]" got' m'] Cons.prems st eq show ?case by simp
qed

text \<open>One thread makes its first access, the other all of its own, and the first goes on.\<close>

lemma interleaved_run:
  assumes "step_thread (x # xs, []) m = ((xs, got), m1)"
  shows "run_threads (0 # replicate (length ys) 1 @ replicate (length xs) 0) [start_thread (x # xs), start_thread ys] m =
     ([([], got @ load_all (store_all m1 ys) xs), ([], load_all m1 ys)], store_all (store_all m1 ys) xs)"
proof -
  have "run_threads (replicate (length ys) 1 @ replicate (length xs) 0) [(xs, got), (ys, [])] m1 =
      run_threads (replicate (length xs) 0) [(xs, got), ([], load_all m1 ys)] (store_all m1 ys)"
    using run_alone [of 1 "[(xs, got), (ys, [])]" ys "[]" "replicate (length xs) 0" m1] by simp
  also have "\<dots> = ([([], got @ load_all (store_all m1 ys) xs), ([], load_all m1 ys)], store_all (store_all m1 ys) xs)"
    using run_alone [of 0 "[(xs, got), ([], load_all m1 ys)]" xs got "[]" "store_all m1 ys"] by simp
  finally show ?thesis
    using assms by (simp add: start_thread_def)
qed

lemma upt_two: "2 \<le> n \<Longrightarrow> [0..<n] = 0 # 1 # [2..<n]"
proof -
  assume "2 \<le> n"
  then have "0 < n" "Suc 0 < n" by linarith+
  then show ?thesis by (simp only: upt_conv_Cons One_nat_def numeral_2_eq_2)
qed

lemma torn_put:
  assumes "2 \<le> length d" and "length e = length d" and "storage_offset p + length d \<le> length m"
  shows "\<exists>sched ts' m'. run_threads sched [start_thread (put_copy p d), start_thread (put_copy p e)] m = (ts', m') \<and> finished ts' \<and>
    m' ! storage_offset p = e ! 0 \<and> m' ! Suc (storage_offset p) = d ! 1"
proof -
  let ?off = "storage_offset p"
  let ?f = "\<lambda>i. StoreByte (?off + i) (d ! i)" and ?m1 = "m[storage_offset p := d ! 0]"
  let ?ws = "map ?f [2..<length d]" and ?m2 = "store_all (m[storage_offset p := d ! 0]) (put_copy p e)"
  have c: "put_copy p d = ?f 0 # ?f 1 # ?ws"
    by (simp add: put_copy_def upt_two [OF assms(1)])
  have out: "x \<notin> written ?ws" if "x \<le> Suc ?off" for x
    using that by (auto simp: map_addresses)
  have "?m2 ! ?off = e ! 0"
    using store_put_copy [of p e ?m1] assms by (cases "d = []") (simp_all add: mem_write_nth)
  then have v: "store_all ?m2 (?f 1 # ?ws) ! ?off = e ! 0" "store_all ?m2 (?f 1 # ?ws) ! Suc ?off = d ! 1"
    using out assms by (simp_all add: store_all_nth_other)
  have "step_thread (?f 0 # ?f 1 # ?ws, []) m = ((?f 1 # ?ws, []), ?m1)" by simp
  from interleaved_run [OF this, of "put_copy p e", folded c] v show ?thesis
    by (intro exI conjI) (assumption | simp add: finished_def)+
qed

lemma torn_get:
  assumes "length e = PAGE_SIZE" and "storage_offset p + PAGE_SIZE \<le> length m"
  shows "\<exists>sched ts' m'. run_threads sched [start_thread (get_copy p), start_thread (put_copy p e)] m = (ts', m') \<and> finished ts' \<and>
    snd (ts' ! 0) ! 0 = m ! storage_offset p \<and> snd (ts' ! 0) ! 1 = e ! 1"
proof -
  let ?off = "storage_offset p"
  let ?f = "\<lambda>i. LoadByte (?off + i)"
  let ?ws = "map ?f [2..<PAGE_SIZE]" and ?m2 = "store_all m (put_copy p e)"
  have two: "2 \<le> PAGE_SIZE" by (simp add: PAGE_SIZE_def)
  have c: "get_copy p = ?f 0 # ?f 1 # ?ws"
    by (simp add: get_copy_def upt_two [OF two])
  have "?m2 ! Suc ?off = e ! 1"
    using store_put_copy [of p e m] assms two by (simp add: mem_write_nth)
  moreover have "step_thread (?f 0 # ?f 1 # ?ws, []) m = ((?f 1 # ?ws, [m ! ?off]), m)" by simp
  note interleaved_run [OF this, of "put_copy p e", folded c]
  ultimately show ?thesis
    by (intro exI conjI) (assumption | simp add: finished_def)+
qed

subsection \<open>Properties\<close>

text \<open>
  C10. Threads that use different pages do not disturb each other. For any number of client
  threads, any requests they serve and any interleaving of their byte accesses, if no
  thread writes a page that another one reads or writes, then every thread sends the pages it would send
  if it were alone, and the storage in the end is what the requests leave when they are served one after
  the other, one thread after the next.
\<close>

theorem partitioned_requests_atomic:
  assumes "partitioned rs" and "\<forall>rq \<in> set (concat rs). fits m rq"
    and "run_threads sched (map (\<lambda>rqs. start_thread (thread_accesses rqs)) rs) m = (ts', m')" and "finished ts'"
  shows "m' = snd (serve_alone (concat rs) m) \<and> (\<forall>t < length rs. snd (ts' ! t) = fst (serve_alone (rs ! t) m))"
proof -
  let ?ts = "map (\<lambda>rqs. start_thread (thread_accesses rqs)) rs"
  have fst_ts: "map fst ?ts = map thread_accesses rs"
    by (simp add: start_thread_def)
  have "race_free (map fst ?ts)"
    unfolding fst_ts by (rule partitioned_race_free [OF assms(1,2)])
  note run = run_race_free [OF assms(3) this]
  have "concat (map thread_accesses rs) = thread_accesses (concat rs)"
    by (induction rs) (simp_all add: thread_accesses_def)
  then have "m' = store_all m (thread_accesses (concat rs))"
    using conjunct1 [OF run, unfolded fst_ts] by (simp add: finished_threads(1) [OF assms(4)])
  moreover have "snd (ts' ! t) = load_all m (thread_accesses (rs ! t))" if "t < length rs" for t
    using run that finished_threads(2) [OF assms(4), of t m'] by (simp add: outcome_of_def start_thread_def)
  moreover have "\<forall>rq \<in> set (rs ! t). fits m rq" if "t < length rs" for t
    using assms(2) nth_mem [OF that] by auto
  ultimately show ?thesis
    using thread_alone [OF assms(2)] thread_alone by (metis fst_conv snd_conv)
qed

theorem partitioned_requests_atomic_witness:
  "\<exists>sched ts' m'. run_threads sched [start_thread (thread_accesses [Get 0]), start_thread (thread_accesses [Put 1 (replicate PAGE_SIZE 8)])]
       (replicate (2 * PAGE_SIZE) 5) = (ts', m') \<and>
     m' = snd (serve_alone [Get 0, Put 1 (replicate PAGE_SIZE 8)] (replicate (2 * PAGE_SIZE) 5)) \<and>
     snd (ts' ! 0) = fst (serve_alone [Get 0] (replicate (2 * PAGE_SIZE) 5))"
proof -
  let ?rs = "[[Get 0], [Put 1 (replicate PAGE_SIZE 8)]]" and ?m = "replicate (2 * PAGE_SIZE) 5 :: bytes"
  obtain x xs where xs: "thread_accesses [Get 0] = x # xs"
    by (cases "thread_accesses [Get 0]") (simp_all add: thread_accesses_def get_copy_def)
  obtain got m1 where "step_thread (x # xs, []) ?m = ((xs, got), m1)"
    by (cases x) auto
  note run = interleaved_run [OF this, of "thread_accesses [Put 1 (replicate PAGE_SIZE 8)]", folded xs]
  have "\<exists>sched ts' m'. run_threads sched (map (\<lambda>rqs. start_thread (thread_accesses rqs)) ?rs) ?m = (ts', m') \<and> finished ts'"
    unfolding list.map by (intro exI conjI) (rule run, simp add: finished_def)
  then obtain sched ts' m' where
    r: "run_threads sched (map (\<lambda>rqs. start_thread (thread_accesses rqs)) ?rs) ?m = (ts', m')" "finished ts'"
    by blast
  have "partitioned ?rs"
    by (simp add: partitioned_def less_Suc_eq put_pages_def get_pages_def)
  moreover have "\<forall>rq \<in> set (concat ?rs). fits ?m rq"
    by (simp add: fits_def storage_offset_def)
  ultimately have "m' = snd (serve_alone (concat ?rs) ?m) \<and> (\<forall>t < length ?rs. snd (ts' ! t) = fst (serve_alone (?rs ! t) ?m))"
    by (rule partitioned_requests_atomic [OF _ _ r])
  with r show ?thesis by (intro exI [of _ sched] exI [of _ ts'] exI [of _ m']) simp
qed

text \<open>
  C29. The last writer need not win. When two threads write the same page at the same time,
  every byte of the page ends up as one of the two wrote it, but there are schedules after
  which the page is neither what the one wrote nor what the other wrote.
\<close>

theorem concurrent_puts_tear:
  assumes "length d = PAGE_SIZE" and "length e = PAGE_SIZE" and "storage_offset p + PAGE_SIZE \<le> length m"
    and "d ! 0 \<noteq> e ! 0" and "d ! 1 \<noteq> e ! 1"
  shows "(\<forall>sched ts' m'. run_threads sched [start_thread (put_copy p d), start_thread (put_copy p e)] m = (ts', m') \<longrightarrow> finished ts' \<longrightarrow>
      (\<forall>i < PAGE_SIZE. m' ! (storage_offset p + i) \<in> {d ! i, e ! i})) \<and>
    (\<exists>sched ts' m'. run_threads sched [start_thread (put_copy p d), start_thread (put_copy p e)] m = (ts', m') \<and> finished ts' \<and>
      mem_read m' (storage_offset p) PAGE_SIZE \<notin> {d, e})"
proof (intro conjI allI impI)
  fix sched ts' m' i
  assume r: "run_threads sched [start_thread (put_copy p d), start_thread (put_copy p e)] m = (ts', m')" "finished ts'"
    and i: "i < PAGE_SIZE"
  show "m' ! (storage_offset p + i) \<in> {d ! i, e ! i}"
    using i assms(1-3) by (intro run_values [OF r]) (auto simp: put_copy_def start_thread_def map_addresses)
next
  have p: "2 \<le> length d" using assms(1) by (simp add: PAGE_SIZE_def)
  obtain sched ts' m' where r: "run_threads sched [start_thread (put_copy p d), start_thread (put_copy p e)] m = (ts', m')" "finished ts'"
    and v: "m' ! storage_offset p = e ! 0" "m' ! Suc (storage_offset p) = d ! 1"
    using torn_put [OF p, of e p m] assms(1-3) by auto
  have "mem_read m' (storage_offset p) PAGE_SIZE ! 0 = e ! 0" "mem_read m' (storage_offset p) PAGE_SIZE ! 1 = d ! 1"
    using v run_length [OF r(1)] assms(3) by (simp_all add: mem_read_def PAGE_SIZE_def)
  then have "mem_read m' (storage_offset p) PAGE_SIZE \<notin> {d, e}"
    using assms(4,5) by auto
  with r show "\<exists>sched ts' m'. run_threads sched [start_thread (put_copy p d), start_thread (put_copy p e)] m = (ts', m') \<and>
      finished ts' \<and> mem_read m' (storage_offset p) PAGE_SIZE \<notin> {d, e}"
    by blast
qed

theorem concurrent_puts_tear_witness:
  "\<exists>sched ts' m'. run_threads sched [start_thread (put_copy 0 (replicate PAGE_SIZE 7)), start_thread (put_copy 0 (replicate PAGE_SIZE 8))]
       (replicate PAGE_SIZE 0) = (ts', m') \<and> finished ts' \<and>
     mem_read m' (storage_offset 0) PAGE_SIZE \<notin> {replicate PAGE_SIZE 7, replicate PAGE_SIZE 8}"
  by (rule concurrent_puts_tear [THEN conjunct2]) (simp_all add: storage_offset_def PAGE_SIZE_def)

text \<open>
  C30. A GET may return a page that never was. When one thread sends a page while another writes
  it, every byte sent is the old one or the new one, but there are schedules in which the page
  sent is neither the old page nor the new one.
\<close>

theorem concurrent_get_tears:
  assumes "length e = PAGE_SIZE" and "storage_offset p + PAGE_SIZE \<le> length m"
    and "m ! storage_offset p \<noteq> e ! 0" and "m ! Suc (storage_offset p) \<noteq> e ! 1"
  shows "(\<forall>sched ts' m'. run_threads sched [start_thread (get_copy p), start_thread (put_copy p e)] m = (ts', m') \<longrightarrow> finished ts' \<longrightarrow>
      length (snd (ts' ! 0)) = PAGE_SIZE \<and> (\<forall>i < PAGE_SIZE. snd (ts' ! 0) ! i \<in> {m ! (storage_offset p + i), e ! i})) \<and>
    (\<exists>sched ts' m'. run_threads sched [start_thread (get_copy p), start_thread (put_copy p e)] m = (ts', m') \<and> finished ts' \<and>
      snd (ts' ! 0) \<notin> {mem_read m (storage_offset p) PAGE_SIZE, e})"
proof (intro conjI allI impI)
  fix sched ts' m'
  assume r: "run_threads sched [start_thread (get_copy p), start_thread (put_copy p e)] m = (ts', m')" "finished ts'"
  let ?V = "\<lambda>a. {m ! a, e ! (a - storage_offset p)}" and ?A = "map (\<lambda>i. storage_offset p + i) [0..<PAGE_SIZE]"
  have al: "allowed ?V m [start_thread (get_copy p), start_thread (put_copy p e)]"
    using assms(1,2) by (auto simp: allowed_def start_thread_def get_copy_def put_copy_def load_addresses_map)
  have "traced ?V ?A (start_thread (get_copy p))"
    by (simp add: traced_def start_thread_def get_copy_def load_addresses_map)
  then have tr: "traced ?V ?A (ts' ! 0)" and n: "0 < length ts'"
    using run_traced [OF r(1) al, of 0 ?A] by auto
  have "fst (ts' ! 0) = []" using r(2) nth_mem [OF n] by (auto simp: finished_def list_all_iff)
  then have all: "list_all2 (\<lambda>a v. v \<in> ?V a) ?A (snd (ts' ! 0))"
    using tr by (auto simp: traced_def)
  show "length (snd (ts' ! 0)) = PAGE_SIZE"
    using list_all2_lengthD [OF all] by simp
  show "snd (ts' ! 0) ! i \<in> {m ! (storage_offset p + i), e ! i}" if "i < PAGE_SIZE" for i
    using list_all2_nthD [OF all, of i] that by simp
next
  obtain sched ts' m' where r: "run_threads sched [start_thread (get_copy p), start_thread (put_copy p e)] m = (ts', m')" "finished ts'"
    and v: "snd (ts' ! 0) ! 0 = m ! storage_offset p" "snd (ts' ! 0) ! 1 = e ! 1"
    using torn_get [OF assms(1,2)] by blast
  have "mem_read m (storage_offset p) PAGE_SIZE ! 1 = m ! Suc (storage_offset p)"
    using assms(2) by (simp add: mem_read_def PAGE_SIZE_def)
  with v assms(3,4) have "snd (ts' ! 0) \<notin> {mem_read m (storage_offset p) PAGE_SIZE, e}"
    by auto
  with r show "\<exists>sched ts' m'. run_threads sched [start_thread (get_copy p), start_thread (put_copy p e)] m = (ts', m') \<and>
      finished ts' \<and> snd (ts' ! 0) \<notin> {mem_read m (storage_offset p) PAGE_SIZE, e}"
    by blast
qed

theorem concurrent_get_tears_witness:
  "\<exists>sched ts' m'. run_threads sched [start_thread (get_copy 0), start_thread (put_copy 0 (replicate PAGE_SIZE 8))]
       (replicate PAGE_SIZE 0) = (ts', m') \<and> finished ts' \<and>
     snd (ts' ! 0) \<notin> {mem_read (replicate PAGE_SIZE 0) (storage_offset 0) PAGE_SIZE, replicate PAGE_SIZE 8}"
  by (rule concurrent_get_tears [THEN conjunct2]) (simp_all add: storage_offset_def PAGE_SIZE_def)

end
