(* ===== verification/DSM_Python.thy ===== *)
theory DSM_Python
  imports DSM_Array DSM_Config
begin

section \<open>The Python module (python/dsm.py)\<close>

text \<open>
  What the module does around contexts and arrays: how it finds the C library, and how arrays
  print. Paths are POSIX paths; \<open>dirname\<close> and \<open>join\<close> follow \<open>os.path\<close>. \<open>cdll\<close> says for which paths
  \<open>ctypes.CDLL\<close> finds a library. The results: the environment overrides the default path,
  which lies beside the directory of the module, and a printed array tells its shape and its type.
\<close>

subsection \<open>Definitions\<close>

definition path_dirname :: "string \<Rightarrow> string" where
  "path_dirname p =
     (let head = rev (dropWhile (\<lambda>ch. ch \<noteq> CHR ''/'') (rev p))
      in if list_all (\<lambda>ch. ch = CHR ''/'') head then head else rev (dropWhile (\<lambda>ch. ch = CHR ''/'') (rev head)))"

definition path_join :: "string \<Rightarrow> string \<Rightarrow> string" where
  "path_join a b =
     (if b \<noteq> [] \<and> hd b = CHR ''/'' then b
      else if a = [] \<or> last a = CHR ''/'' then a @ b
      else a @ ''/'' @ b)"

definition lib_path :: "(string \<Rightarrow> string option) \<Rightarrow> string \<Rightarrow> string" where
  "lib_path env file =
     (case env ''DSM_LIB'' of Some p \<Rightarrow> p
      | None \<Rightarrow> path_join (path_join (path_dirname file) ''..'') ''libdsm.so'')"

definition load_library :: "(string \<Rightarrow> bool) \<Rightarrow> (string \<Rightarrow> string option) \<Rightarrow> string \<Rightarrow> py_error + string" where
  "load_library cdll env file = (let p = lib_path env file in if cdll p then Inr p else Inl ImportError)"

text \<open>The codes of the types, and Python's notation for tuples of integers.\<close>

fun dtype_code :: "dtype \<Rightarrow> int" where
  "dtype_code Int32 = 0"
| "dtype_code Int64 = 1"
| "dtype_code Float32 = 2"
| "dtype_code Float64 = 3"
| "dtype_code Uint8 = 4"

fun tuple_items :: "int list \<Rightarrow> string" where
  "tuple_items [] = []"
| "tuple_items [d] = decimal d"
| "tuple_items (d # e # ds) = decimal d @ '', '' @ tuple_items (e # ds)"

definition py_tuple :: "int list \<Rightarrow> string" where
  "py_tuple ds = ''('' @ tuple_items ds @ (if length ds = 1 then '','' else []) @ '')''"

definition array_repr :: "array \<Rightarrow> string" where
  "array_repr a = ''dsm.Array(shape='' @ py_tuple (shape a) @ '', dtype='' @ decimal (dtype_code (array_dtype a)) @ '')''"

subsection \<open>The library\<close>

text \<open>The environment wins; otherwise the library is expected one directory above the module's.\<close>

lemma load_library_env: "env ''DSM_LIB'' = Some p \<Longrightarrow> load_library cdll env file = (if cdll p then Inr p else Inl ImportError)"
  by (simp add: load_library_def lib_path_def)

lemma path_dirname_of:
  assumes "CHR ''/'' \<notin> set name" and "dir \<noteq> []" and "last dir \<noteq> CHR ''/''"
  shows "path_dirname (dir @ ''/'' @ name) = dir"
proof -
  have "dropWhile (\<lambda>ch. ch \<noteq> CHR ''/'') (rev (dir @ ''/'' @ name)) = CHR ''/'' # rev dir"
    using assms(1) by (simp add: dropWhile_append)
  moreover have "\<not> list_all (\<lambda>ch. ch = CHR ''/'') dir"
    using assms(2,3) last_in_set by (auto simp: list_all_iff)
  moreover have "dropWhile (\<lambda>ch. ch = CHR ''/'') (rev dir) = rev dir"
    using assms(2,3) by (cases dir rule: rev_cases) simp_all
  ultimately show ?thesis
    by (simp add: path_dirname_def Let_def)
qed

lemma lib_path_default:
  assumes "env ''DSM_LIB'' = None" and "CHR ''/'' \<notin> set name"
  shows "dir \<noteq> [] \<Longrightarrow> last dir \<noteq> CHR ''/'' \<Longrightarrow> lib_path env (dir @ ''/'' @ name) = dir @ ''/../libdsm.so''"
    and "lib_path env name = ''../libdsm.so''"
proof -
  show "lib_path env (dir @ ''/'' @ name) = dir @ ''/../libdsm.so''" if "dir \<noteq> []" "last dir \<noteq> CHR ''/''"
    using path_dirname_of [OF assms(2) that] that assms(1) by (simp add: lib_path_def path_join_def)
  have "dropWhile (\<lambda>ch. ch \<noteq> CHR ''/'') (rev name) = []"
    using assms(2) by (auto simp: dropWhile_eq_Nil_conv)
  then have "path_dirname name = []"
    unfolding path_dirname_def by (simp only: Let_def) simp
  then show "lib_path env name = ''../libdsm.so''"
    using assms(1) by (simp add: lib_path_def path_join_def)
qed

subsection \<open>Printed arrays\<close>

lemma decimal_chars: "ch \<in> set (decimal n) \<Longrightarrow> is_digit ch \<or> ch = CHR ''-''"
  using nat_digits_digits by (auto simp: decimal_def split: if_splits)

lemma not_digits: "\<not> is_digit (CHR '','')" "\<not> is_digit (CHR '')'')" "\<not> is_digit (CHR ''-'')"
  by (simp_all add: is_digit_def char_code_def)

lemma decimal_stop: "CHR '','' \<notin> set (decimal n)" "CHR '')'' \<notin> set (decimal n)"
  using decimal_chars [of "CHR '',''" n] decimal_chars [of "CHR '')''" n] not_digits by auto

lemma nat_digits_inj:
  assumes "nat_digits m = nat_digits n"
  shows "m = n"
proof -
  have "digits_value 0 (nat_digits m) = digits_value 0 (nat_digits n)" by (simp only: assms)
  then show ?thesis by (simp only: digits_value_nat of_nat_eq_iff)
qed

lemma decimal_inj:
  assumes "decimal m = decimal n"
  shows "m = n"
proof -
  have "CHR ''-'' \<notin> set (nat_digits k)" for k
    using nat_digits_digits [of k] not_digits(3) by blast
  then have ne: "nat_digits k \<noteq> CHR ''-'' # ds" for k ds
    by (metis list.set_intros(1))
  consider "m < 0" "n < 0" | "m < 0" "\<not> n < 0" | "\<not> m < 0" "n < 0" | "\<not> m < 0" "\<not> n < 0" by blast
  then show ?thesis
  proof cases
    case 1
    with assms have "nat (- m) = nat (- n)" by (intro nat_digits_inj) (simp add: decimal_def)
    with 1 show ?thesis by simp
  next
    case 2
    with assms ne [of "nat n" "nat_digits (nat (- m))"] show ?thesis by (simp add: decimal_def)
  next
    case 3
    with assms ne [of "nat m" "nat_digits (nat (- n))"] show ?thesis by (simp add: decimal_def)
  next
    case 4
    with assms have "nat m = nat n" by (intro nat_digits_inj) (simp add: decimal_def)
    with 4 show ?thesis by simp
  qed
qed

lemma decimal_split:
  assumes "decimal m @ a # u = decimal n @ b # v" and "a \<in> {CHR '','', CHR '')''}" and "b \<in> {CHR '','', CHR '')''}"
  shows "m = n \<and> a = b \<and> u = v"
proof -
  let ?P = "\<lambda>ch. ch \<noteq> CHR '','' \<and> ch \<noteq> CHR '')''"
  have t: "takeWhile ?P (decimal k @ x # r) = decimal k" "dropWhile ?P (decimal k @ x # r) = x # r"
    if "x \<in> {CHR '','', CHR '')''}" for k x r
    using that decimal_stop [of k] by (auto simp: takeWhile_append dropWhile_append)
  from t(1) [OF assms(2), of m u] t(1) [OF assms(3), of n v] assms(1) have "decimal m = decimal n"
    by simp
  moreover from t(2) [OF assms(2), of m u] t(2) [OF assms(3), of n v] assms(1) have "a # u = b # v"
    by simp
  ultimately show ?thesis using decimal_inj by simp
qed

lemma tuple_items_inj:
  "tuple_items (d # ds) @ CHR '')'' # u = tuple_items (e # es) @ CHR '')'' # v \<Longrightarrow> d = e \<and> ds = es \<and> u = v"
proof (induction ds arbitrary: d e es)
  case Nil
  then show ?case by (cases es) (auto dest: decimal_split)
next
  case (Cons d' ds)
  show ?case
  proof (cases es)
    case Nil
    with Cons.prems show ?thesis by (auto dest: decimal_split)
  next
    case (Cons e' es')
    with Cons.prems have "d = e \<and> tuple_items (d' # ds) @ CHR '')'' # u = tuple_items (e' # es') @ CHR '')'' # v"
      by (auto dest: decimal_split)
    with Cons.IH [of d' e' es'] Cons show ?thesis by simp
  qed
qed

lemma py_tuple_inj: "py_tuple ds @ u = py_tuple es @ v \<Longrightarrow> ds = es \<and> u = v"
proof -
  assume eq: "py_tuple ds @ u = py_tuple es @ v"
  have no: "decimal d @ x \<noteq> CHR '')'' # y" for d x y
    using decimal_stop(2) [of d] by (cases "decimal d") auto
  have one: "py_tuple [d] @ u = ''('' @ decimal d @ CHR '','' # CHR '')'' # u" for d u
    by (simp add: py_tuple_def)
  have two: "py_tuple (d # e # ds) @ u = ''('' @ decimal d @ CHR '','' # CHR '' '' # tuple_items (e # ds) @ CHR '')'' # u" for d e ds u
    by (simp add: py_tuple_def)
  have nil: "py_tuple [] @ u = ''()'' @ u" for u
    by (simp add: py_tuple_def)
  show ?thesis
  proof (cases ds)
    case Nil
    with eq no show ?thesis
      by (cases es; cases "tl es") (auto simp: nil one two simp del: tuple_items.simps dest: sym)
  next
    case ds: (Cons d ds')
    obtain e es' where es: "es = e # es'"
      using eq ds no by (cases es; cases ds') (auto simp: nil one two simp del: tuple_items.simps)
    show ?thesis
      using eq unfolding ds es
      by (cases ds'; cases es')
        (auto simp: one two simp del: tuple_items.simps dest!: decimal_split tuple_items_inj)
  qed
qed

text \<open>
  The printed form of an array tells its shape and its type, a one-dimensional array from the
  others included.
\<close>

lemma array_repr_determines:
  "array_repr a = array_repr b \<longleftrightarrow> shape a = shape b \<and> array_dtype a = array_dtype b"
proof
  assume "array_repr a = array_repr b"
  then have "py_tuple (shape a) @ '', dtype='' @ decimal (dtype_code (array_dtype a)) @ '')''
      = py_tuple (shape b) @ '', dtype='' @ decimal (dtype_code (array_dtype b)) @ '')''"
    by (simp add: array_repr_def)
  from py_tuple_inj [OF this] have "shape a = shape b" "decimal (dtype_code (array_dtype a)) = decimal (dtype_code (array_dtype b))"
    by simp_all
  moreover have "dtype_code t = dtype_code t' \<Longrightarrow> t = t'" for t t'
    by (cases t; cases t') simp_all
  ultimately show "shape a = shape b \<and> array_dtype a = array_dtype b"
    using decimal_inj by blast
qed (simp add: array_repr_def)

end
