(* ===== verification/Spec2Isabelle.thy ===== *)
theory Spec2Isabelle
  imports DSM_Fabric DSM_Clients DSM_Network DSM_Output DSM_Threads DSM_Python
begin

text \<open>
  This library verifies the distributed shared memory engine of this repository: servers export
  4096-byte pages over TCP, clients use them through a local page cache, and servers form a
  cluster that gossips over UDP and forwards requests to the owner of a page.

  \<^bold>\<open>How the code is modelled.\<close> The definitions follow the C functions one by one and keep
  their names. Machine integers are words of their width. A C function that may fail to
  return has a result of type \<open>outcome\<close>: \<open>Ret\<close>, \<open>Blocked\<close> (a system call that waits for ever),
  \<open>Diverges\<close> (an endless loop) or \<open>Undef\<close> (an array access out of bounds or a division by
  zero). Error codes and \<open>NULL\<close> are values under \<open>Ret\<close>. State is passed explicitly: the
  \<open>dsm_context\<close> of a client, the \<open>cluster_ctx\<close> of a node, the globals of the server
  (\<open>server\<close>), and one end of a connection (\<open>net\<close>). The kernel, the clock, the allocator,
  and the resolver are arguments that say how each call ends; the other end of a
  connection is a function from bytes received to bytes sent (\<open>peer\<close>).

  \<^bold>\<open>The theories.\<close>
  \<^item> \<open>DSM_Prelude\<close>: outcomes, bounds-checked arrays, byte buffers, little-endian layout.
  \<^item> \<open>DSM_Common\<close> (\<open>dsm_common.c\<close>, \<open>dsm_protocol.h\<close>): headers, the transfer loops and the
    RPCs. The locale \<open>page_peer\<close> is the wire contract of a page server: what it answers to a
    GET and to a PUT, whatever follows in the stream. What the RPCs return follows from it.
  \<^item> \<open>DSM_Paging\<close> (\<open>dsm_paging.c\<close>, \<open>dsm_paging.h\<close>): the page cache. \<open>pager_inv\<close> relates free
    list, frame table and page table; \<open>represents\<close> says which pages the client sees. Every
    operation keeps the invariant for any server and any kernel.
  \<^item> \<open>DSM_Memory\<close>: the page cache over any \<open>page_peer\<close> implements a plain memory of pages.
  \<^item> \<open>DSM_Statistics\<close>: the counters of a context, for any server: fetches, evictions and frames in
    use balance (\<open>books\<close>), and prefetches are idle as long as accesses succeed (\<open>idle\<close>).
  \<^item> \<open>DSM_Array\<close> (\<open>python/dsm.py\<close>): contexts that hand out pages, with the conversions \<open>ctypes\<close>
    makes of their arguments and their use in a \<open>with\<close> statement, arrays, element access and
    the NumPy conversions. \<open>array_ok\<close> is the invariant of an array and \<open>py_linked\<close> connects a
    context to a \<open>page_peer\<close>; programs over several arrays (\<open>run_array_ops\<close>) implement
    independent tables (\<open>spec_array_ops\<close>).
  \<^item> \<open>DSM_Python\<close> (\<open>python/dsm.py\<close>): how the module finds the C library and how arrays print.
  \<^item> \<open>DSM_Gossip\<close> (\<open>dsm_gossip.c\<close>, \<open>dsm_gossip.h\<close>): the datagrams and their parser.
  \<^item> \<open>DSM_Cluster\<close> (\<open>dsm_cluster.c\<close>, \<open>dsm_cluster.h\<close>): membership table, merging, heartbeat,
    joining, ownership, peer connections and forwarding. \<open>cluster_step\<close> is the step relation
    of a running node; its invariants are proved by induction over the steps.
  \<^item> \<open>DSM_Network\<close> (the two thread loops of \<open>dsm_cluster.c\<close>): the loops as one sequence of
    iterations, and a network of nodes as a step relation \<open>net_step\<close> over nodes and datagrams
    in flight, with the invariant \<open>genuine\<close>: whatever is known of a node was announced by it.
  \<^item> \<open>DSM_Config\<close> (\<open>dsm_config.c\<close>, the option loops of both \<open>main\<close> functions): number parsing,
    environment, defaults, validation.
  \<^item> \<open>DSM_Client\<close> (\<open>dsm_client.c\<close>): connecting with retries, benchmark, verification, \<open>main\<close>.
  \<^item> \<open>DSM_Server\<close> (\<open>dsm_server.c\<close>): startup, the client thread, the accept loop with its slot
    table, shutdown.
  \<^item> \<open>DSM_Threads\<close>: the GETs and PUTs of several client threads as interleaved byte accesses to
    the storage they share.
  \<^item> \<open>DSM_Options\<close>: \<open>getopt_long\<close> and the option tables of both programs. The locale
    \<open>option_table\<close> is what a table needs for every spelling of an option to be understood; it is
    interpreted for both tables.
  \<^item> \<open>DSM_Output\<close> (\<open>dsm_log.h\<close>, usage and configuration output): what the programs write before
    they start to work, with the functions of \<open>DSM_Config\<close> as what is left without the output, and
    the lines of the benchmark.
  \<^item> \<open>DSM_Node\<close>: a server with a client thread as the other end of a connection. It is proved
    to satisfy \<open>page_peer\<close> if the nodes it forwards to do; the interpretations \<open>standalone\<close> and
    \<open>member\<close> instantiate the contract, and with it the results on RPCs, page cache, arrays and client,
    for a server on its own and for a node that forwards to such servers.
  \<^item> \<open>DSM_Fabric\<close>: all nodes of a cluster together, each with clients of its own. \<open>serve_cluster\<close>
    serves a request at any node, and forwarded requests reach the storage of the owner.
  \<^item> \<open>DSM_Clients\<close>: several clients, each with a page cache of its own, on one node (\<open>run_clients\<close>):
    what they see of each other without a coherence protocol.
  \<^item> this theory: the results about client, server and cluster together.

  \<^bold>\<open>What the properties show.\<close> Client and servers together implement a paged memory, and
  the client's own verification and benchmark runs succeed on it; Python arrays on top of it
  are independent of each other and keep what is assigned to them. The server serves
  interleaved requests as one memory, also when the byte accesses of its threads interleave and no
  thread writes a page that another one uses. A cluster whose nodes agree on the owners is one memory,
  whichever nodes its clients use. Clients that each cache pages on their own see one memory as long
  as no client uses a page that another one writes. All nodes of a network agree on who owns a page.
  No input from the network breaks a server or the gossip receiver, no answer breaks a client's page cache, and all resources are released.
  Eviction ends and follows the second-chance policy. Failure detection, joining and
  ownership do what they are for, command lines are understood in every notation and refused
  with a message. The limits are stated as properties of their own:
  the division by zero in the benchmark and the failures it hides, the unanswered PUT, the failed
  peer connection that is never dialled again and whose pages read as zeros, PUTs of one page that
  mix and GETs that send old and new bytes, cached pages that do not show what other clients write,
  the clock race of the heartbeat, crashed members kept alive by gossip, restarts that are not
  recognised, prefetching that never fetches, page numbers that Python does not check, and
  overlapping arrays after a negative dimension.

  \<^bold>\<open>Bounds and fuel.\<close> \<open>evict_page\<close> gives its loop two rounds and one step, and
  \<open>evict_page_terminates\<close> shows that one round and one step suffice. \<open>serve_loop\<close> uses the number of bytes
  received, and every request takes at least a header off them (\<open>serve_loop_fuel\<close>).
  \<open>handle_client_thread\<close> may serve a client for ever and is stated for every fuel. The
  transfer loops recurse over the kernel's answers. \<open>reliable\<close> kernels move at least one
  byte per answered call and answer often enough for a header and a page; it is assumed only where a
  result says that something succeeds.

  \<^bold>\<open>What is not modelled.\<close> The log lines of the running programs; the message \<open>getopt_long\<close> prints
  itself; the creation of threads beyond its success or failure; the build files and tests. NumPy,
  the encoding of Python values as bytes by \<open>ctypes\<close>, and the printing of floating-point
  numbers in the benchmark are arguments. Critical sections under the cluster lock are atomic, as the
  lock makes them. Requests to one server are served one at a time, except in \<open>DSM_Threads\<close>, and
  so are the requests to the nodes of a cluster in \<open>DSM_Fabric\<close> and the loads and stores of the
  clients in \<open>DSM_Clients\<close>. Peer connections are dialled with an answer that does not depend on the
  moment in the results on forwarding (\<open>links_ok\<close>).
\<close>

section \<open>Client, server and cluster together\<close>

lemma from_env_none: "dsm_client_config_from_env (\<lambda>_. None) cfg = cfg"
  by (simp add: dsm_client_config_from_env_def dsm_env_long_def dsm_env_str_def)

lemma parse_one: "dsm_parse_long ''1'' 1 UINT32_MAX = Some 1"
  by (simp add: dsm_parse_long_def strtol_def scan_number_def is_space_def is_digit_def char_code_def
      LONG_MIN_def LONG_MAX_def UINT32_MAX_def)

lemma python_context_opens:
  "\<exists>pc. py_open (\<lambda>_. True) True True 3 9999 1 2 = (Inr (), pc) \<and> next_page pc = 0 \<and> virtual_pages pc = 2 \<and> py_ctx pc \<noteq> None"
  by (auto simp: py_open_def dsm_create_context_def Let_def)

lemma small_context:
  "dsm_create_context (\<lambda>_. True) 1 2 = (Some (fresh_context 1 2), {B_ctx, B_memory, B_page_table, B_frame_table, B_free_list})"
  by (auto simp: dsm_create_context_def Let_def)

lemma node_linked:
  assumes "dsm_create_context alloc np nv = (Some c, held)" and "0 \<le> fd" and "reliable k" and "sess_ready s"
    and "\<forall>p < nv. p \<in> pages (node_store s)"
  shows "linked sess_ready node_store (dsm_context_set_socket c fd) (connection k s) (node_store s)"
proof -
  have c: "np \<noteq> 0" "c = fresh_context np nv"
    using create_context_Some [OF assms(1)] by simp_all
  then show ?thesis
    using member.start_linked [of np fd "connection k s" nv] assms by (simp add: dsm_context_set_socket_def)
qed

lemma small_run:
  assumes "\<forall>x \<in> set ops. op_ok 2 x"
  shows "\<exists>c' w'. run_ops node_peer ops (dsm_context_set_socket (fresh_context 1 2) 3) (connection swift_kernel (new_session duo_server))
    = Ret (Some (fst (spec_ops ops (node_store (new_session duo_server)))), c', w')"
proof -
  have "linked sess_ready node_store (dsm_context_set_socket (fresh_context 1 2) 3) (connection swift_kernel (new_session duo_server))
      (node_store (new_session duo_server))"
    by (rule node_linked [OF small_context]) (use duo_server_pages new_session_ready [OF duo_server_ok] in simp_all)
  from member.run_ops_refines [OF this, of ops] assms show ?thesis
    by (auto simp: dsm_context_set_socket_def fresh_context_def)
qed

subsection \<open>Properties\<close>

text \<open>
  C1. The whole system implements a paged memory. A program that makes any sequence of
  loads, stores and prefetch hints through a new context connected to a server thread gets,
  from every load, the bytes a plain memory would return; it starts from the pages the
  server has, and the cache sees the final memory. The server may own the pages or forward
  the requests to the members of its cluster that do; frames are evicted, written back and
  refetched on the way.
\<close>

theorem memory_refinement:
  assumes "dsm_create_context alloc np nv = (Some c, held)" and "0 \<le> fd" and "reliable k" and "sess_ready s"
    and "\<forall>p < nv. p \<in> pages (node_store s)" and "\<forall>x \<in> set ops. op_ok nv x"
  shows "\<exists>c' w'. run_ops node_peer ops (dsm_context_set_socket c fd) (connection k s)
      = Ret (Some (fst (spec_ops ops (node_store s))), c', w') \<and>
    linked sess_ready node_store c' w' (snd (spec_ops ops (node_store s)))"
proof -
  let ?c = "dsm_context_set_socket c fd"
  have "linked sess_ready node_store ?c (connection k s) (node_store s)"
    by (rule node_linked [OF assms(1-5)])
  from member.run_ops_refines [OF this, of ops] fresh_kept(5) [OF assms(1), of fd] assms(6) show ?thesis
    by simp
qed

theorem memory_refinement_witness:
  "\<exists>c' w'. run_ops node_peer [Store 1 5 [7, 8], Load 0 0 1, Load 1 6 1]
      (dsm_context_set_socket (fresh_context 1 2) 3) (connection swift_kernel (new_session duo_server))
    = Ret (Some [[], take 1 (node_store (new_session duo_server) 0), [8]], c', w')"
proof -
  let ?ops = "[Store 1 5 [7, 8], Load 0 0 1, Load 1 6 1]" and ?s = "new_session duo_server"
  have pg: "\<forall>p < 2. p \<in> pages (node_store ?s)"
    using duo_server_pages by simp
  have "length (node_store ?s 1) = 4096"
    using pg by (auto simp: pages_def PAGE_SIZE_def)
  then have "fst (spec_ops ?ops (node_store ?s)) = [[], take 1 (node_store ?s 0), [8]]"
    by (simp add: Let_def mem_write_def mem_read_def min_def)
  moreover have "\<forall>x \<in> set ?ops. op_ok 2 x"
    by (simp add: PAGE_SIZE_def)
  ultimately show ?thesis
    using memory_refinement [OF small_context, of 3 swift_kernel ?s ?ops] pg new_session_ready [OF duo_server_ok] by auto
qed

text \<open>
  C2. The verification run passes: a client started with \<open>--verify\<close> that gets a connection to a
  node serving all its pages writes its pattern to every page, four times as many as its
  cache holds, reads every page back and exits with status 0.
\<close>

theorem verify_exits_0:
  assumes "client_options opts (dsm_client_config_from_env env dsm_client_config_default) = Inr cfg0"
    and "client_validate cfg0 = Inr cfg" and "cc_verify_mode cfg"
    and "0 \<le> fst (connect_to_server resolved ans MAX_RETRY_ATTEMPTS)" and "\<forall>b. alloc b"
    and "reliable k" and "sess_ready s" and "\<forall>p < cc_num_virtual_pages cfg. p \<in> pages (node_store s)"
  shows "client_main node_peer env opts resolved ans alloc (connection k s) = Ret 0"
proof -
  let ?c = "(fresh_context (cc_num_pages cfg) (cc_num_virtual_pages cfg))
    \<lparr>sock_fd := fst (connect_to_server resolved ans MAX_RETRY_ATTEMPTS)\<rparr>"
  have np: "cc_num_pages cfg \<noteq> 0"
    using client_validate_ok [OF assms(2)] by simp
  have "linked sess_ready node_store ?c (connection k s) (node_store s)"
    using member.start_linked [OF np assms(4), of "connection k s" "cc_num_virtual_pages cfg"] assms(6-8) by simp
  from member.run_verify_ok [OF this, of cfg] assms(1-5) np show ?thesis
    by (auto simp: client_main_def client_run_def create_context_all fresh_context_def)
qed

theorem verify_exits_0_witness:
  "client_main node_peer (\<lambda>_. None) [(CHR ''n'', ''1''), (CHR ''t'', [])] True (\<lambda>_. [Conn 3 True]) (\<lambda>_. True)
     (connection swift_kernel (new_session (solo_server (new_session (solo_server () 1)) 4))) = Ret 0"
proof -
  let ?s = "new_session (solo_server (new_session (solo_server () 1)) 4)"
  let ?cfg = "dsm_client_config_default\<lparr>cc_num_pages := 1, cc_verify_mode := True\<rparr>"
  have o: "client_options [(CHR ''n'', ''1''), (CHR ''t'', [])] (dsm_client_config_from_env (\<lambda>_. None) dsm_client_config_default)
      = Inr ?cfg"
    using parse_one by (simp add: from_env_none client_option_def checked_def)
  have v: "client_validate ?cfg = Inr (?cfg\<lparr>cc_num_virtual_pages := 4\<rparr>)"
    by (simp add: client_validate_def dsm_client_config_default_def)
  have "sess_ready ?s" "\<forall>p < 4. p \<in> pages (node_store ?s)"
    by (simp_all add: new_session_ready [OF solo_server_ok] solo_server_pages)
  with verify_exits_0 [OF o v, of True "\<lambda>_. [Conn 3 True]" "\<lambda>_. True" swift_kernel ?s] show ?thesis
    by (simp add: connect_to_server_def MAX_RETRY_ATTEMPTS_def numeral_eq_Suc dsm_client_config_default_def)
qed

text \<open>
  The benchmark passes: a client with fewer cache pages than virtual pages that gets a
  connection to a node serving all of them makes all its accesses and exits with status 0.
\<close>

lemma benchmark_exits_0:
  assumes "client_options opts (dsm_client_config_from_env env dsm_client_config_default) = Inr cfg0"
    and "client_validate cfg0 = Inr cfg" and "\<not> cc_verify_mode cfg" and "cc_num_pages cfg < cc_num_virtual_pages cfg"
    and "0 \<le> fst (connect_to_server resolved ans MAX_RETRY_ATTEMPTS)" and "\<forall>b. alloc b"
    and "reliable k" and "sess_ready s" and "\<forall>p < cc_num_virtual_pages cfg. p \<in> pages (node_store s)"
  shows "client_main node_peer env opts resolved ans alloc (connection k s) = Ret 0"
proof -
  let ?nv = "cc_num_virtual_pages cfg" and ?w = "connection k s"
  let ?c = "(fresh_context (cc_num_pages cfg) ?nv)\<lparr>sock_fd := fst (connect_to_server resolved ans MAX_RETRY_ATTEMPTS)\<rparr>"
  have np: "cc_num_pages cfg \<noteq> 0"
    using client_validate_ok [OF assms(2)] by simp
  have l: "linked sess_ready node_store ?c ?w (node_store s)"
    using member.start_linked [OF np assms(5), of ?w ?nv] assms(7-9) by simp
  have nv: "num_virtual_pages ?c = ?nv" and unmapped: "\<forall>p < num_virtual_pages ?c. valid (pte ?c p) = 0"
    by (simp_all add: fresh_context_def word_less_nat_alt)
  have "prefetch_count ?c = 4" "0 < cc_num_pages cfg"
    using np by (simp_all add: word_neq_0_conv fresh_context_def)
  from member.run_benchmark_ok [OF l unmapped nv this assms(4)] assms(1-3,5,6) np
  show ?thesis
    by (auto simp: client_main_def client_run_def create_context_all)
qed

text \<open>
  C11. Prefetching never fetches anything. As long as no access has failed, a prefetch, whether
  asked for or triggered by sequential faults, sends nothing and changes nothing: a page
  that has never been fetched is not marked remote and skipped, a page is only evicted when
  there is no free frame left, and without a free frame nothing is prefetched. This holds
  for any server, any kernel and any sequence of loads, stores and hints on a new context.
\<close>

theorem prefetch_never_fetches:
  assumes "dsm_create_context alloc np nv = (Some c, held)" and "\<forall>x \<in> set ops. op_ok nv x"
    and "run_ops peer ops (dsm_context_set_socket c fd) w = Ret (Some vs, c', w')"
  shows "dsm_prefetch_pages peer c' start n w' = Ret (c', w')"
proof -
  note f = fresh_kept [OF assms(1), of fd]
  have "kept (length (filter is_access ops)) (dsm_context_set_socket c fd) c'"
    using run_ops_kept [OF f(1) _ f(2) assms(3)] assms(2) f(5) by simp
  then show ?thesis
    by (intro prefetch_idle) (simp_all add: kept_def pager_inv_defs)
qed

theorem prefetch_never_fetches_witness:
  "\<exists>c' w'. run_ops node_peer [Load 0 0 1, Load 1 0 1, Hint 0 2]
      (dsm_context_set_socket (fresh_context 1 2) 3) (connection swift_kernel (new_session duo_server))
      = Ret (Some [take 1 (node_store (new_session duo_server) 0), take 1 (node_store (new_session duo_server) 1), []], c', w') \<and>
    dsm_prefetch_pages node_peer c' 0 2 w' = Ret (c', w')"
proof -
  let ?ops = "[Load 0 0 1, Load 1 0 1, Hint 0 2]" and ?s = "new_session duo_server"
  let ?c = "dsm_context_set_socket (fresh_context 1 2) 3"
  have ok: "\<forall>x \<in> set ?ops. op_ok 2 x"
    by (simp add: PAGE_SIZE_def)
  obtain c' w' where r: "run_ops node_peer ?ops ?c (connection swift_kernel ?s) = Ret (Some (fst (spec_ops ?ops (node_store ?s))), c', w')"
    using small_run [OF ok] by blast
  from prefetch_never_fetches [OF small_context ok r, of 0 2] r show ?thesis
    by (auto simp: Let_def mem_read_def)
qed



text \<open>
  C25. What the benchmark reports. Against a node serving all pages the total of hits and
  fetches it divides by is at least the number of accesses made and at most five times
  that: each fault may prefetch up to four pages, which count as fetches. The total does
  not wrap around, and fetches are evictions and frames in use.
\<close>

theorem benchmark_total_bounds:
  assumes "dsm_create_context alloc (cc_num_pages cfg) (cc_num_virtual_pages cfg) = (Some c, held)" and "0 \<le> fd"
    and "cc_num_pages cfg < cc_num_virtual_pages cfg"
    and "reliable k" and "sess_ready s" and "\<forall>p < cc_num_virtual_pages cfg. p \<in> pages (node_store s)"
  shows "\<exists>c' w'. run_benchmark node_peer (dsm_context_set_socket c fd) cfg (connection k s) = Ret (0, c', w') \<and>
    unat (cc_num_iterations cfg) \<le> unat (total_accesses c') \<and>
    unat (total_accesses c') \<le> 5 * unat (cc_num_iterations cfg) \<and>
    remote_fetches c' = evictions c' + of_nat (unat (cc_num_pages cfg) - unat (free_list_top c'))"
proof -
  let ?c = "dsm_context_set_socket c fd" and ?n = "unat (cc_num_iterations cfg)"
  note f = fresh_kept [OF assms(1), of fd]
  have np: "cc_num_pages cfg \<noteq> 0" "c = fresh_context (cc_num_pages cfg) (cc_num_virtual_pages cfg)"
    using create_context_Some [OF assms(1)] by simp_all
  have unmapped: "\<forall>p < num_virtual_pages ?c. valid (pte ?c p) = 0"
    by (simp add: np(2) dsm_context_set_socket_def fresh_context_def word_less_nat_alt)
  obtain c' w' j where r: "run_benchmark node_peer ?c cfg (connection k s) = Ret (0, c', w')" "pager_inv {} c'" "same_dims ?c c'"
    "books c' = books ?c" "total_accesses c' = total_accesses ?c + of_nat j" "?n \<le> j" "j \<le> 5 * ?n"
    using member.run_benchmark_ok [OF node_linked [OF assms(1,2,4-6)] unmapped f(5,8) _ assms(3)] np(1)
    by (auto simp: word_neq_0_conv)
  have "?n < 4294967296" by (rule unat_u32_less)
  then have "unat (of_nat j :: u64) = j"
    using r(7) by (simp add: unat_of_nat take_bit_nat_eq_self)
  moreover have "remote_fetches c' = evictions c' + of_nat (unat (cc_num_pages cfg) - unat (free_list_top c'))"
    using r(2-4) f(3,6) by (intro books_balance) (auto simp: same_dims_def)
  ultimately show ?thesis
    using r f(4) by auto
qed

theorem benchmark_total_bounds_witness:
  "\<exists>c' w'. run_benchmark node_peer (dsm_context_set_socket (fresh_context 1 2) 3)
      (dsm_client_config_default\<lparr>cc_num_pages := 1, cc_num_virtual_pages := 2\<rparr>) (connection swift_kernel (new_session duo_server))
      = Ret (0, c', w') \<and> 100000 \<le> unat (total_accesses c') \<and> unat (total_accesses c') \<le> 500000"
proof -
  let ?cfg = "dsm_client_config_default\<lparr>cc_num_pages := 1, cc_num_virtual_pages := 2\<rparr>"
  have "dsm_create_context (\<lambda>_. True) (cc_num_pages ?cfg) (cc_num_virtual_pages ?cfg)
      = (Some (fresh_context 1 2), {B_ctx, B_memory, B_page_table, B_frame_table, B_free_list})"
    using small_context by simp
  from benchmark_total_bounds [OF this, of 3 swift_kernel "new_session duo_server"] show ?thesis
    using duo_server_pages new_session_ready [OF duo_server_ok] by (auto simp: dsm_client_config_default_def)
qed

text \<open>
  C3. Python programs get independent arrays. A program that opens a context on a server
  thread, creates any number of arrays, and reads and assigns elements in any order gets
  from every read what that element was last assigned, or what the server had there, and
  \<open>IndexError\<close> exactly for the indices out of range, as if each array were a table of its
  own; no other exception is raised.
\<close>

theorem array_refinement:
  assumes "py_open alloc sock_ok connect_ok fd port local virtual = (Inr (), pc)" and "0 \<le> fd" and "0 \<le> virtual" "virtual < 2 ^ 32"
    and "reliable k" and "sess_ready s" and "\<forall>p < word_of_int virtual. p \<in> pages (node_store s)"
    and "new_arrays decls pc = Inr (as, pc1)" and "\<forall>(shp, ty) \<in> set decls. \<forall>d \<in> set shp. 0 \<le> d"
    and "contents as (node_store s) M" and "\<forall>x \<in> set ops. array_op_ok as x"
  shows "\<exists>pc' w' V. run_array_ops node_peer as ops pc1 (connection k s) = Ret (fst (spec_array_ops as ops M), pc', w') \<and>
    py_linked sess_ready node_store pc' w' V \<and> contents as V (snd (spec_array_ops as ops M))"
proof -
  let ?w = "connection k s"
  have w: "synced sess_ready ?w" "reliable (kern ?w)" "far ?w = s"
    using assms(5,6) by simp_all
  have pc: "py_linked sess_ready node_store pc ?w (node_store s)" "next_page pc = 0"
    using member.py_open_linked [OF assms(1-4) w(1,2)] assms(7) w(3) by simp_all
  have as: "arrays_ok (virtual_pages pc) as" "pc1 = pc\<lparr>next_page := next_page pc1\<rparr>"
    using new_arrays_ok [OF assms(8) _ assms(9)] pc(2) by simp_all
  have "py_linked sess_ready node_store pc1 ?w (node_store s)" "virtual_pages pc1 = virtual_pages pc"
    by (subst as(2), simp add: pc(1))+
  with member.run_array_ops_ok [of pc1 ?w "node_store s" as M ops] as(1) assms(10,11) show ?thesis
    by auto
qed

theorem array_refinement_witness:
  "\<exists>pc as pc1 pc' w'. py_open (\<lambda>_. True) True True 3 9999 1 2 = (Inr (), pc) \<and>
     new_arrays [([2, 3], Float64), ([5], Int32)] pc = Inr (as, pc1) \<and>
     run_array_ops node_peer as [SetItem 0 [1, 2] [1, 2, 3, 4, 5, 6, 7, 8], SetItem 1 [4] [9, 9, 9, 9], GetItem 0 [-1, -1], GetItem 1 [5]]
         pc1 (connection swift_kernel (new_session duo_server))
       = Ret ([Inr [], Inr [], Inr [1, 2, 3, 4, 5, 6, 7, 8], Inl IndexError], pc', w')"
proof -
  let ?ops = "[SetItem 0 [1, 2] [1, 2, 3, 4, 5, 6, 7, 8], SetItem 1 [4] [9, 9, 9, 9], GetItem 0 [-1, -1], GetItem 1 [5]]"
  let ?s = "new_session duo_server" and ?decls = "[([2, 3], Float64), ([5], Int32)]"
  obtain pc where pc: "py_open (\<lambda>_. True) True True 3 9999 1 2 = (Inr (), pc)" "next_page pc = 0" "virtual_pages pc = 2" "py_ctx pc \<noteq> None"
    using python_context_opens by blast
  obtain as pc1 where as: "new_arrays ?decls pc = Inr (as, pc1)" "length as = 2"
    "shape (as ! 0) = [2, 3]" "shape (as ! 1) = [5]" "elem_size (as ! 0) = 8" "elem_size (as ! 1) = 4"
    using pc(2-4) by (simp add: new_array_def alloc_pages_def PY_PAGE_SIZE_def Let_def)
  let ?M = "\<lambda>j ix. element (as ! j) (node_store ?s) (row_major (shape (as ! j)) ix)"
  have M: "contents as (node_store ?s) ?M" by (simp add: contents_def)
  have ok: "\<forall>x \<in> set ?ops. array_op_ok as x" using as by simp
  have "fst (spec_array_ops as ?ops ?M) = [Inr [], Inr [], Inr [1, 2, 3, 4, 5, 6, 7, 8], Inl IndexError]"
    using as by (simp add: Let_def index_ok_def wrap_def wrap_index_def)
  with array_refinement [OF pc(1) _ _ _ _ new_session_ready [OF duo_server_ok] _ as(1) _ M ok, of swift_kernel] pc(1) as(1) duo_server_pages
  show ?thesis by auto
qed



end
